(* ===== verification/Prelude.thy ===== *)
theory Prelude
  imports Main "HOL-Library.Word" "HOL-Library.Sublist" "HOL-Library.Code_Target_Numeral"
begin

text \<open>
  Shared vocabulary of the development: bytes, the conversion between Go strings and byte
  slices, big-endian integers (\<open>encoding/binary\<close>), the error-or-value result type, and the
  collections of rewrite rules the component theories use.

  A Go \<open>string\<close> is a sequence of bytes; it is modelled by the type \<open>string\<close> (a list of 8-bit
  characters). A \<open>[]byte\<close> is a list of 8-bit words.
\<close>

unbundle bit_operations_syntax

named_theorems byte_simps \<open>conversions between strings, bytes and machine words\<close>
named_theorems frame_simps \<open>reading back what a frame writer produced\<close>

type_synonym byte = "8 word"
type_synonym bytes = "byte list"

text \<open>A fallible Go call returns either an error or a value.\<close>

type_synonym ('e, 'a) result = "'e + 'a"

abbreviation Err :: "'e \<Rightarrow> ('e, 'a) result" where "Err \<equiv> Inl"
abbreviation Ok :: "'a \<Rightarrow> ('e, 'a) result" where "Ok \<equiv> Inr"

section \<open>Strings and byte slices\<close>

definition bytes_of :: "string \<Rightarrow> bytes" where
  "bytes_of s = map of_char s"

definition string_of :: "bytes \<Rightarrow> string" where
  "string_of bs = map (\<lambda>b. char_of (unat b)) bs"

lemma unat_of_char [byte_simps]: "unat (of_char c :: byte) = of_char c"
proof -
  have "(of_char c :: nat) mod 256 < 256" by (rule mod_less_divisor) simp
  then have "(of_char c :: nat) < 256" by (simp only: of_char_mod_256)
  then have "unat (of_nat (of_char c) :: byte) = of_char c"
    by (simp add: unat_of_nat)
  then show ?thesis by (simp add: of_nat_of_char)
qed

lemma of_char_char_of_unat [byte_simps]: "of_char (char_of (unat b)) = (b :: byte)"
proof -
  have "unat b < 256" using unsigned_less [of b, where 'a = nat] by simp
  then have "(of_char (char_of (unat b)) :: nat) = unat b" by simp
  then have "of_nat (of_char (char_of (unat b))) = (of_nat (unat b) :: byte)" by (simp only:)
  then show ?thesis by (simp only: of_nat_of_char of_nat_unat ucast_id)
qed

lemma string_of_bytes_of [simp, byte_simps]: "string_of (bytes_of s) = s"
  by (induction s) (simp_all add: string_of_def bytes_of_def unat_of_char)

lemma bytes_of_string_of [simp, byte_simps]: "bytes_of (string_of bs) = bs"
  by (induction bs) (simp_all add: string_of_def bytes_of_def of_char_char_of_unat)

lemma bytes_of_length [simp]: "length (bytes_of s) = length s"
  by (simp add: bytes_of_def)

lemma string_of_length [simp]: "length (string_of bs) = length bs"
  by (simp add: string_of_def)

lemma bytes_of_append [simp]: "bytes_of (s @ t) = bytes_of s @ bytes_of t"
  by (simp add: bytes_of_def)

lemma string_of_append [simp]: "string_of (a @ b) = string_of a @ string_of b"
  by (simp add: string_of_def)

lemma bytes_of_Nil [simp]: "bytes_of [] = []"
  by (simp add: bytes_of_def)

lemma string_of_Nil [simp]: "string_of [] = []"
  by (simp add: string_of_def)

lemma bytes_of_eq_iff [simp]: "bytes_of s = bytes_of t \<longleftrightarrow> s = t"
  by (metis string_of_bytes_of)

lemma string_of_eq_iff [simp]: "string_of a = string_of b \<longleftrightarrow> a = b"
  by (metis bytes_of_string_of)

section \<open>Big-endian integers\<close>

text \<open>\<open>binary.BigEndian.PutUint16\<close>, \<open>PutUint32\<close> and \<open>PutUint64\<close> and their readers.\<close>

definition put_uint16 :: "16 word \<Rightarrow> bytes" where
  "put_uint16 v = [ucast (drop_bit 8 v), ucast v]"

definition put_uint32 :: "32 word \<Rightarrow> bytes" where
  "put_uint32 v = [ucast (drop_bit 24 v), ucast (drop_bit 16 v), ucast (drop_bit 8 v), ucast v]"

definition uint16_be :: "byte \<Rightarrow> byte \<Rightarrow> 16 word" where
  "uint16_be b0 b1 = push_bit 8 (ucast b0) OR ucast b1"

definition uint32_be :: "byte \<Rightarrow> byte \<Rightarrow> byte \<Rightarrow> byte \<Rightarrow> 32 word" where
  "uint32_be b0 b1 b2 b3 =
     push_bit 24 (ucast b0) OR push_bit 16 (ucast b1) OR push_bit 8 (ucast b2) OR ucast b3"

text \<open>\<open>binary.BigEndian.Uint64\<close> folds the eight bytes, most significant first.\<close>

definition uint64_be :: "bytes \<Rightarrow> 64 word" where
  "uint64_be bs = fold (\<lambda>b acc. push_bit 8 acc OR ucast b) bs 0"

lemma uint16_be_split [simp, byte_simps]: "uint16_be (ucast (drop_bit 8 v)) (ucast v) = v"
  unfolding uint16_be_def
  by (rule bit_word_eqI) (auto simp: bit_simps)

lemma uint32_be_split [simp, byte_simps]:
  "uint32_be (ucast (drop_bit 24 v)) (ucast (drop_bit 16 v)) (ucast (drop_bit 8 v)) (ucast v) = v"
  unfolding uint32_be_def
proof (rule bit_word_eqI)
  fix n assume "n < LENGTH(32)"
  then consider "n < 8" | "8 \<le> n" "n < 16" | "16 \<le> n" "n < 24" | "24 \<le> n" "n < 32"
    by fastforce
  then show "bit (push_bit 24 (ucast (ucast (drop_bit 24 v) :: byte)) OR
      push_bit 16 (ucast (ucast (drop_bit 16 v) :: byte)) OR
      push_bit 8 (ucast (ucast (drop_bit 8 v) :: byte)) OR ucast (ucast v :: byte) :: 32 word) n =
    bit v n"
    by cases (auto simp: bit_simps)
qed

lemma put_uint16_length [simp]: "length (put_uint16 v) = 2"
  by (simp add: put_uint16_def)

lemma put_uint32_length [simp]: "length (put_uint32 v) = 4"
  by (simp add: put_uint32_def)

lemma unat_of_nat16 [byte_simps]: "n \<le> 65535 \<Longrightarrow> unat (word_of_nat n :: 16 word) = n"
  by (simp add: unat_of_nat)

lemma unat_of_nat32 [byte_simps]: "n < 4294967296 \<Longrightarrow> unat (word_of_nat n :: 32 word) = n"
  by (simp add: unat_of_nat)

lemma unat_16_le: "unat (w :: 16 word) \<le> 65535"
  using unsigned_less [of w, where 'a = nat] by simp

lemma xor_twice [simp]: "(a XOR k) XOR k = (a :: 'a :: len word)"
  by (simp add: xor.assoc)

section \<open>Lists\<close>

lemma take_length_append [simp]: "take (length xs) (xs @ ys) = xs"
  by simp

lemma takeWhile_neq_append [simp]:
  "c \<notin> set xs \<Longrightarrow> takeWhile (\<lambda>x. x \<noteq> c) (xs @ c # ys) = xs"
  by (subst takeWhile_append2) auto

lemma dropWhile_neq_append [simp]:
  "c \<notin> set xs \<Longrightarrow> dropWhile (\<lambda>x. x \<noteq> c) (xs @ c # ys) = c # ys"
  by (subst dropWhile_append2) auto

section \<open>Results\<close>

text \<open>The first error of a list of results, or all the values: what a Go loop computes that
  returns at the first \<open>err != nil\<close>.\<close>

fun collect :: "('e, 'a) result list \<Rightarrow> ('e, 'a list) result" where
  "collect [] = Ok []"
| "collect (Inl e # rs) = Err e"
| "collect (Inr v # rs) = (case collect rs of Inl e \<Rightarrow> Err e | Inr vs \<Rightarrow> Ok (v # vs))"

lemma collect_Ok_length: "collect rs = Ok vs \<Longrightarrow> length vs = length rs"
  by (induction rs arbitrary: vs rule: collect.induct) (auto split: sum.splits)

lemma collect_map_Inr [simp]: "collect (map Inr vs) = Ok vs"
  by (induction vs) auto

lemma collect_Ok_iff: "collect rs = Ok vs \<longleftrightarrow> rs = map Inr vs"
proof
  show "collect rs = Ok vs \<Longrightarrow> rs = map Inr vs"
    by (induction rs arbitrary: vs rule: collect.induct) (auto split: sum.splits)
qed simp

end
