(* ===== verification/Go_Strings.thy ===== *)
theory Go_Strings
  imports Prelude
begin

text \<open>
  The parts of Go's \<open>strings\<close>, \<open>strconv\<close>, \<open>net\<close> and \<open>bufio\<close> packages that the program
  calls on text: trimming, cutting, splitting, case folding, decimal conversion,
  \<open>net.SplitHostPort\<close>/\<open>net.JoinHostPort\<close> and \<open>bufio.Scanner\<close> lines. White space is
  Go's \<open>unicode.IsSpace\<close> over UTF-8 bytes. \<open>strings.ToLower\<close> and \<open>strings.EqualFold\<close>
  are modelled on ASCII letters; other runes are left alone.
\<close>

section \<open>Trimming\<close>

text \<open>The UTF-8 encodings of the runes \<open>unicode.IsSpace\<close> accepts.\<close>

definition space_runes :: "string list" where
  "space_runes =
     [[CHR 0x20], [CHR 0x09], [CHR 0x0A], [CHR 0x0B], [CHR 0x0C], [CHR 0x0D],
      [CHR 0xC2, CHR 0x85], [CHR 0xC2, CHR 0xA0], [CHR 0xE1, CHR 0x9A, CHR 0x80],
      [CHR 0xE2, CHR 0x80, CHR 0x80], [CHR 0xE2, CHR 0x80, CHR 0x81],
      [CHR 0xE2, CHR 0x80, CHR 0x82], [CHR 0xE2, CHR 0x80, CHR 0x83],
      [CHR 0xE2, CHR 0x80, CHR 0x84], [CHR 0xE2, CHR 0x80, CHR 0x85],
      [CHR 0xE2, CHR 0x80, CHR 0x86], [CHR 0xE2, CHR 0x80, CHR 0x87],
      [CHR 0xE2, CHR 0x80, CHR 0x88], [CHR 0xE2, CHR 0x80, CHR 0x89],
      [CHR 0xE2, CHR 0x80, CHR 0x8A], [CHR 0xE2, CHR 0x80, CHR 0xA8],
      [CHR 0xE2, CHR 0x80, CHR 0xA9], [CHR 0xE2, CHR 0x80, CHR 0xAF],
      [CHR 0xE2, CHR 0x81, CHR 0x9F], [CHR 0xE3, CHR 0x80, CHR 0x80]]"

text \<open>Removing runes of a set from the front, then from the back.\<close>

function trim_pre :: "string list \<Rightarrow> string \<Rightarrow> string" where
  "trim_pre R s =
     (case find (\<lambda>r. r \<noteq> [] \<and> prefix r s) R of
        None \<Rightarrow> s
      | Some r \<Rightarrow> trim_pre R (drop (length r) s))"
  by pat_completeness auto
termination
  by (relation "measure (\<lambda>(R, s). length s)") (auto simp: find_Some_iff prefix_def)

declare trim_pre.simps [simp del]

definition trim_suf :: "string list \<Rightarrow> string \<Rightarrow> string" where
  "trim_suf R s = rev (trim_pre (map rev R) (rev s))"

definition trim_runes :: "string list \<Rightarrow> string \<Rightarrow> string" where
  "trim_runes R s = trim_suf R (trim_pre R s)"

definition trim_space :: "string \<Rightarrow> string" where
  "trim_space s = trim_runes space_runes s"

text \<open>\<open>strings.Trim(s, cutset)\<close> for a cutset of ASCII characters.\<close>

definition trim_cutset :: "string \<Rightarrow> string \<Rightarrow> string" where
  "trim_cutset cs s = trim_runes (map (\<lambda>c. [c]) cs) s"

definition trim_prefix :: "string \<Rightarrow> string \<Rightarrow> string" where
  "trim_prefix p s = (if prefix p s then drop (length p) s else s)"

definition trim_suffix :: "string \<Rightarrow> string \<Rightarrow> string" where
  "trim_suffix p s = (if suffix p s then take (length s - length p) s else s)"

lemma trim_pre_stop:
  assumes "\<And>r. r \<in> set R \<Longrightarrow> r \<noteq> [] \<Longrightarrow> \<not> prefix r s"
  shows "trim_pre R s = s"
proof -
  have "find (\<lambda>r. r \<noteq> [] \<and> prefix r s) R = None"
    using assms by (auto simp: find_None_iff)
  then show ?thesis by (simp add: trim_pre.simps [of R s])
qed

lemma trim_pre_clean: "r \<in> set R \<Longrightarrow> r \<noteq> [] \<Longrightarrow> \<not> prefix r (trim_pre R s)"
proof (induction R s rule: trim_pre.induct)
  case (1 R s)
  show ?case
  proof (cases "find (\<lambda>r. r \<noteq> [] \<and> prefix r s) R")
    case None
    then have "trim_pre R s = s" by (simp add: trim_pre.simps [of R s])
    with None "1.prems" show ?thesis by (auto simp: find_None_iff)
  next
    case (Some q)
    with "1.IH" "1.prems" show ?thesis
      by (simp add: trim_pre.simps [of R s])
  qed
qed

lemma trim_pre_suffix: "suffix (trim_pre R s) s"
proof (induction R s rule: trim_pre.induct)
  case (1 R s)
  show ?case
  proof (cases "find (\<lambda>r. r \<noteq> [] \<and> prefix r s) R")
    case None
    then show ?thesis by (simp add: trim_pre.simps [of R s])
  next
    case (Some q)
    with "1.IH" have "suffix (trim_pre R (drop (length q) s)) (drop (length q) s)" by simp
    then have "suffix (trim_pre R (drop (length q) s)) s"
      by (meson suffix_drop suffix_order.trans)
    with Some show ?thesis by (simp add: trim_pre.simps [of R s])
  qed
qed

lemma trim_suf_prefix: "prefix (trim_suf R s) s"
  unfolding trim_suf_def
  using trim_pre_suffix [of "map rev R" "rev s"] by (simp add: suffix_to_prefix)

lemma trim_suf_clean:
  assumes "r \<in> set R" "r \<noteq> []"
  shows "\<not> suffix r (trim_suf R s)"
proof -
  have "\<not> prefix (rev r) (trim_pre (map rev R) (rev s))"
    using assms by (intro trim_pre_clean) auto
  then show ?thesis by (simp add: trim_suf_def suffix_to_prefix)
qed

lemma trim_suf_stop:
  assumes "\<And>r. r \<in> set R \<Longrightarrow> r \<noteq> [] \<Longrightarrow> \<not> suffix r s"
  shows "trim_suf R s = s"
proof -
  have "trim_pre (map rev R) (rev s) = rev s"
    using assms by (intro trim_pre_stop) (auto simp: suffix_to_prefix)
  then show ?thesis by (simp add: trim_suf_def)
qed

text \<open>A trimmed string starts and ends with no rune of the set, and trimming it again
  changes nothing.\<close>

lemma trim_runes_clean:
  assumes "r \<in> set R" "r \<noteq> []"
  shows "\<not> prefix r (trim_runes R s)" and "\<not> suffix r (trim_runes R s)"
proof -
  show "\<not> suffix r (trim_runes R s)"
    using assms by (simp add: trim_runes_def trim_suf_clean)
  have "\<not> prefix r (trim_pre R s)" using assms by (rule trim_pre_clean)
  with trim_suf_prefix show "\<not> prefix r (trim_runes R s)"
    unfolding trim_runes_def by (metis prefix_order.trans)
qed

lemma trim_runes_stop:
  assumes "\<And>r. r \<in> set R \<Longrightarrow> r \<noteq> [] \<Longrightarrow> \<not> prefix r s \<and> \<not> suffix r s"
  shows "trim_runes R s = s"
  using assms by (simp add: trim_runes_def trim_pre_stop trim_suf_stop)

lemma trim_runes_idem [simp]: "trim_runes R (trim_runes R s) = trim_runes R s"
  by (rule trim_runes_stop) (simp add: trim_runes_clean)

lemma trim_space_idem [simp]: "trim_space (trim_space s) = trim_space s"
  by (simp add: trim_space_def)

lemma trim_pre_Nil [simp]: "trim_pre R [] = []"
  by (rule trim_pre_stop) simp

lemma trim_runes_Nil [simp]: "trim_runes R [] = []"
  by (simp add: trim_runes_def trim_suf_def)

lemma trim_space_Nil [simp]: "trim_space [] = []"
  by (simp add: trim_space_def)

lemma set_trim_pre: "set (trim_pre R s) \<subseteq> set s"
  using trim_pre_suffix by (metis set_mono_suffix)

lemma set_trim_runes: "set (trim_runes R s) \<subseteq> set s"
  unfolding trim_runes_def
  using trim_suf_prefix set_trim_pre by (metis set_mono_prefix subset_trans)

lemma set_trim_space: "c \<in> set (trim_space s) \<Longrightarrow> c \<in> set s"
  using set_trim_runes by (auto simp: trim_space_def)

text \<open>Text that starts and ends with a graphic ASCII character is not trimmed.\<close>

definition graphic :: "char \<Rightarrow> bool" where
  "graphic c \<longleftrightarrow> 33 \<le> (of_char c :: nat) \<and> (of_char c :: nat) \<le> 126"

definition edge_graphic :: "string \<Rightarrow> bool" where
  "edge_graphic s \<longleftrightarrow> s \<noteq> [] \<and> graphic (hd s) \<and> graphic (last s)"

lemma space_rune_edges:
  "r \<in> set space_runes \<Longrightarrow> r \<noteq> [] \<and> \<not> graphic (hd r) \<and> \<not> graphic (last r)"
  unfolding space_runes_def graphic_def by auto

lemma trim_space_edge [simp]:
  assumes "edge_graphic s"
  shows "trim_space s = s"
  unfolding trim_space_def
proof (rule trim_runes_stop)
  fix r assume r: "r \<in> set space_runes" "r \<noteq> []"
  have "\<not> prefix r s"
    using assms r space_rune_edges [OF r(1)] by (auto simp: edge_graphic_def prefix_def)
  moreover have "\<not> suffix r s"
    using assms r space_rune_edges [OF r(1)] by (auto simp: edge_graphic_def suffix_def)
  ultimately show "\<not> prefix r s \<and> \<not> suffix r s" ..
qed

section \<open>Cutting and splitting\<close>

text \<open>\<open>strings.Index\<close> and \<open>strings.LastIndex\<close> for a one-character needle; \<open>None\<close> is -1.\<close>

definition index_char :: "char \<Rightarrow> string \<Rightarrow> nat option" where
  "index_char c s =
     (if c \<in> set s then Some (length (takeWhile (\<lambda>x. x \<noteq> c) s)) else None)"

definition last_index_char :: "char \<Rightarrow> string \<Rightarrow> nat option" where
  "last_index_char c s =
     (if c \<in> set s then Some (length s - 1 - length (takeWhile (\<lambda>x. x \<noteq> c) (rev s))) else None)"

text \<open>\<open>strings.SplitN(s, sep, 2)\<close>: one part, or the text before and after the first \<open>sep\<close>.\<close>

definition split_n2 :: "char \<Rightarrow> string \<Rightarrow> string list" where
  "split_n2 c s =
     (case index_char c s of
        None \<Rightarrow> [s]
      | Some i \<Rightarrow> [take i s, drop (Suc i) s])"

text \<open>\<open>strings.Split(s, sep)\<close>.\<close>

fun split_on :: "char \<Rightarrow> string \<Rightarrow> string list" where
  "split_on c [] = [[]]"
| "split_on c (x # xs) =
     (if x = c then [] # split_on c xs
      else (case split_on c xs of
              [] \<Rightarrow> [[x]]
            | p # ps \<Rightarrow> (x # p) # ps))"

lemma index_char_None [simp]: "c \<notin> set s \<Longrightarrow> index_char c s = None"
  by (simp add: index_char_def)

lemma index_char_append [simp]:
  "c \<notin> set a \<Longrightarrow> index_char c (a @ c # b) = Some (length a)"
  by (simp add: index_char_def)

lemma last_index_char_None [simp]: "c \<notin> set s \<Longrightarrow> last_index_char c s = None"
  by (simp add: last_index_char_def)

lemma last_index_char_append [simp]:
  "c \<notin> set b \<Longrightarrow> last_index_char c (a @ c # b) = Some (length a)"
  by (simp add: last_index_char_def)

lemma last_index_char_Some_split:
  assumes "last_index_char c s = Some i"
  shows "\<exists>a b. s = a @ c # b \<and> c \<notin> set b \<and> length a = i"
proof -
  have "c \<in> set s" using assms by (simp add: last_index_char_def split: if_splits)
  then obtain a b where s: "s = a @ c # b" and b: "c \<notin> set b"
    by (metis split_list_last)
  with assms have "length a = i" by simp
  with s b show ?thesis by blast
qed

lemma split_n2_one [simp]: "c \<notin> set s \<Longrightarrow> split_n2 c s = [s]"
  by (simp add: split_n2_def)

lemma split_n2_two [simp]: "c \<notin> set a \<Longrightarrow> split_n2 c (a @ c # b) = [a, b]"
  by (simp add: split_n2_def)

lemma split_n2_cases:
  obtains "c \<notin> set s" "split_n2 c s = [s]"
  | a b where "s = a @ c # b" "c \<notin> set a" "split_n2 c s = [a, b]"
proof (cases "c \<in> set s")
  case True
  then obtain a b where "s = a @ c # b" "c \<notin> set a" by (meson split_list_first)
  with that(2) show ?thesis by simp
next
  case False
  with that(1) show ?thesis by simp
qed

lemma split_on_one [simp]: "c \<notin> set s \<Longrightarrow> split_on c s = [s]"
  by (induction s) auto

lemma split_on_nonempty [simp]: "split_on c s \<noteq> []"
  by (cases s) (auto split: list.splits)

lemma split_on_append [simp]:
  "c \<notin> set a \<Longrightarrow> split_on c (a @ c # b) = a # split_on c b"
  by (induction a) auto

section \<open>Letter case\<close>

definition to_lower_char :: "char \<Rightarrow> char" where
  "to_lower_char c =
     (let n = (of_char c :: nat) in if 65 \<le> n \<and> n \<le> 90 then char_of (n + 32) else c)"

definition to_lower :: "string \<Rightarrow> string" where
  "to_lower s = map to_lower_char s"

definition equal_fold :: "string \<Rightarrow> string \<Rightarrow> bool" where
  "equal_fold s t \<longleftrightarrow> to_lower s = to_lower t"

lemma to_lower_char_idem [simp]: "to_lower_char (to_lower_char c) = to_lower_char c"
  by (auto simp: to_lower_char_def Let_def)

lemma to_lower_idem [simp]: "to_lower (to_lower s) = to_lower s"
  by (simp add: to_lower_def)

lemma to_lower_Nil [simp]: "to_lower [] = []"
  by (simp add: to_lower_def)

lemma to_lower_eq_Nil [simp]: "to_lower s = [] \<longleftrightarrow> s = []"
  by (simp add: to_lower_def)

section \<open>Decimal numbers\<close>

definition is_digit :: "char \<Rightarrow> bool" where
  "is_digit c \<longleftrightarrow> 48 \<le> (of_char c :: nat) \<and> (of_char c :: nat) \<le> 57"

definition digit_val :: "char \<Rightarrow> nat" where
  "digit_val c = of_char c - 48"

definition digits_value :: "string \<Rightarrow> nat" where
  "digits_value s = foldl (\<lambda>a c. 10 * a + digit_val c) 0 s"

definition parse_digits :: "string \<Rightarrow> nat option" where
  "parse_digits s = (if s \<noteq> [] \<and> list_all is_digit s then Some (digits_value s) else None)"

text \<open>\<open>strconv.Atoi\<close> on a 64-bit platform: an optional sign, then decimal digits; \<open>None\<close> is
  a syntax or range error.\<close>

definition atoi :: "string \<Rightarrow> int option" where
  "atoi s =
     (let neg = (case s of c # _ \<Rightarrow> c = CHR ''-'' | [] \<Rightarrow> False);
          ds = (case s of c # t \<Rightarrow> if c = CHR ''-'' \<or> c = CHR ''+'' then t else s | [] \<Rightarrow> s)
      in case parse_digits ds of
           None \<Rightarrow> None
         | Some n \<Rightarrow>
             let v = (if neg then - int n else int n)
             in if - (2 ^ 63) \<le> v \<and> v < 2 ^ 63 then Some v else None)"

text \<open>\<open>strconv.ParseUint(s, 10, 16)\<close>: digits only, at most 65535.\<close>

definition parse_uint16 :: "string \<Rightarrow> nat option" where
  "parse_uint16 s =
     (case parse_digits s of
        None \<Rightarrow> None
      | Some n \<Rightarrow> if n \<le> 65535 then Some n else None)"

text \<open>\<open>strconv.Itoa\<close> and the verb \<open>%d\<close>.\<close>

fun dec_nat :: "nat \<Rightarrow> string" where
  "dec_nat n =
     (if n < 10 then [char_of (48 + n)] else dec_nat (n div 10) @ [char_of (48 + n mod 10)])"

declare dec_nat.simps [simp del]

definition itoa :: "int \<Rightarrow> string" where
  "itoa v = (if v < 0 then CHR ''-'' # dec_nat (nat (- v)) else dec_nat (nat v))"

lemma digit_char:
  assumes "n < 10"
  shows "is_digit (char_of (48 + n))" and "digit_val (char_of (48 + n)) = n"
  using assms by (simp_all add: is_digit_def digit_val_def)

lemma dec_nat_digits [simp]: "list_all is_digit (dec_nat n)"
proof (induction n rule: dec_nat.induct)
  case (1 n)
  then show ?case
    by (subst dec_nat.simps) (auto simp: digit_char)
qed

lemma dec_nat_nonempty [simp]: "dec_nat n \<noteq> []"
  by (subst dec_nat.simps) simp

lemma dec_nat_length_le: "length (dec_nat n) \<le> max 1 n"
proof (induction n rule: dec_nat.induct)
  case (1 n)
  show ?case
  proof (cases "n < 10")
    case True
    then show ?thesis by (subst dec_nat.simps) simp
  next
    case False
    with 1 have "length (dec_nat (n div 10)) \<le> max 1 (n div 10)" by simp
    with False show ?thesis by (subst dec_nat.simps) (simp add: max_def split: if_splits)
  qed
qed

lemma dec_nat_length_digits: "n < 10 ^ Suc k \<Longrightarrow> length (dec_nat n) \<le> Suc k"
proof (induction k arbitrary: n)
  case 0
  then show ?case by (simp add: dec_nat.simps [of n])
next
  case (Suc k)
  show ?case
  proof (cases "n < 10")
    case False
    have "n div 10 < 10 ^ Suc k" using Suc.prems by (simp add: div_less_iff_less_mult mult.commute)
    from Suc.IH [OF this] False show ?thesis by (simp add: dec_nat.simps [of n])
  qed (simp add: dec_nat.simps [of n])
qed

lemma dec_nat_value [simp]: "digits_value (dec_nat n) = n"
proof (induction n rule: dec_nat.induct)
  case (1 n)
  show ?case
  proof (cases "n < 10")
    case True
    then show ?thesis by (subst dec_nat.simps) (simp add: digits_value_def digit_char)
  next
    case False
    with "1.IH" have "digits_value (dec_nat (n div 10)) = n div 10" by simp
    with False show ?thesis
      by (subst dec_nat.simps) (simp add: digits_value_def digit_char)
  qed
qed

lemma parse_digits_dec_nat [simp]: "parse_digits (dec_nat n) = Some n"
  by (simp add: parse_digits_def)

lemma digit_not_sign: "is_digit c \<Longrightarrow> c \<noteq> CHR ''-'' \<and> c \<noteq> CHR ''+''"
  by (auto simp: is_digit_def)

lemma dec_nat_hd_digit: "is_digit (hd (dec_nat n))"
  using dec_nat_digits [of n] dec_nat_nonempty [of n] by (cases "dec_nat n") auto

lemma dec_nat_set: "c \<in> set (dec_nat n) \<Longrightarrow> is_digit c"
  using dec_nat_digits [of n] by (auto simp: list_all_iff)

lemma atoi_dec_nat: "int n < 2 ^ 63 \<Longrightarrow> atoi (dec_nat n) = Some (int n)"
proof -
  assume n: "int n < 2 ^ 63"
  obtain c cs where d: "dec_nat n = c # cs" using dec_nat_nonempty [of n] by (cases "dec_nat n") auto
  with dec_nat_hd_digit [of n] have "c \<noteq> CHR ''-'' \<and> c \<noteq> CHR ''+''" by (auto dest: digit_not_sign)
  moreover have "parse_digits (c # cs) = Some n" using parse_digits_dec_nat [of n] d by simp
  ultimately show ?thesis using n d by (simp add: atoi_def)
qed

lemma atoi_itoa:
  assumes "- (2 ^ 63) \<le> v" "v < 2 ^ 63"
  shows "atoi (itoa v) = Some v"
proof (cases "v < 0")
  case True
  with assms show ?thesis by (simp add: itoa_def atoi_def)
next
  case False
  with assms show ?thesis by (simp add: itoa_def atoi_dec_nat)
qed

lemma parse_uint16_dec_nat [simp]: "n \<le> 65535 \<Longrightarrow> parse_uint16 (dec_nat n) = Some n"
  by (simp add: parse_uint16_def)

lemma dec_nat_inject [simp]: "dec_nat m = dec_nat n \<longleftrightarrow> m = n"
  by (metis dec_nat_value)

lemma digit_graphic: "is_digit c \<Longrightarrow> graphic c"
  by (simp add: is_digit_def graphic_def)

lemma dec_nat_edge [simp]: "edge_graphic (dec_nat n)"
  using dec_nat_set [OF last_in_set [OF dec_nat_nonempty [of n]]]
  by (simp add: edge_graphic_def dec_nat_hd_digit digit_graphic)

lemma dec_nat_no_char [simp]: "\<not> is_digit c \<Longrightarrow> c \<notin> set (dec_nat n)"
  using dec_nat_set by blast

lemma not_digit_marks [simp]:
  "\<not> is_digit CHR '':''" "\<not> is_digit CHR ''-''" "\<not> is_digit CHR ''[''" "\<not> is_digit CHR '']''"
  "\<not> is_digit CHR ''=''" "\<not> is_digit CHR ''.''" "\<not> is_digit CHR ''+''" "\<not> is_digit CHR '' ''"
  by (simp_all add: is_digit_def)

lemma parse_uint16_range: "parse_uint16 s = Some n \<Longrightarrow> n \<le> 65535"
  by (simp add: parse_uint16_def split: option.splits if_splits)

section \<open>Trimming known text\<close>

lemma find_single:
  "find (\<lambda>r. r \<noteq> [] \<and> prefix r (c # s)) (map (\<lambda>c. [c]) cs) = (if c \<in> set cs then Some [c] else None)"
  by (induction cs) auto

lemma trim_pre_single [simp]:
  "trim_pre (map (\<lambda>c. [c]) cs) s = dropWhile (\<lambda>c. c \<in> set cs) s"
proof (induction s)
  case Nil
  then show ?case by simp
next
  case (Cons c s)
  have "trim_pre (map (\<lambda>c. [c]) cs) (c # s) =
      (if c \<in> set cs then trim_pre (map (\<lambda>c. [c]) cs) s else c # s)"
    by (subst trim_pre.simps) (simp add: find_single)
  with Cons.IH show ?case by simp
qed

lemma trim_cutset_eq:
  "trim_cutset cs s = rev (dropWhile (\<lambda>c. c \<in> set cs) (rev (dropWhile (\<lambda>c. c \<in> set cs) s)))"
proof -
  have "map rev (map (\<lambda>c. [c]) cs) = map (\<lambda>c. [c]) cs" by simp
  then show ?thesis
    by (simp only: trim_cutset_def trim_runes_def trim_suf_def trim_pre_single)
qed

text \<open>An item between characters of the cut set is what trimming leaves.\<close>

lemma trim_cutset_between:
  assumes "set a \<subseteq> set cs" "set b \<subseteq> set cs" "i \<noteq> []" "hd i \<notin> set cs" "last i \<notin> set cs"
  shows "trim_cutset cs (a @ i @ b) = i"
proof -
  have d: "dropWhile (\<lambda>c. c \<in> set cs) (a @ i @ b) = i @ b"
    using assms by (subst dropWhile_append2) (auto simp: neq_Nil_conv)
  have "dropWhile (\<lambda>c. c \<in> set cs) (rev b @ rev i) = rev i"
  proof -
    obtain x xs where "rev i = x # xs" "x \<notin> set cs"
      using assms(3,5) by (metis hd_rev list.collapse rev_is_Nil_conv)
    with assms(2) show ?thesis by (subst dropWhile_append2) auto
  qed
  with d show ?thesis by (simp add: trim_cutset_eq)
qed

lemma trim_space_blank [simp]: "trim_space (CHR '' '' # s) = trim_space s"
proof -
  have "trim_pre space_runes (CHR '' '' # s) = trim_pre space_runes s"
    by (subst trim_pre.simps) (simp add: space_runes_def)
  then show ?thesis by (simp add: trim_space_def trim_runes_def)
qed

lemma trim_space_append_blank [simp]:
  assumes "edge_graphic s"
  shows "trim_space (s @ '' '') = s"
proof -
  have front: "trim_pre space_runes (s @ '' '') = s @ '' ''"
  proof (rule trim_pre_stop)
    fix r assume "r \<in> set space_runes" "r \<noteq> []"
    with assms space_rune_edges [of r] show "\<not> prefix r (s @ '' '')"
      by (cases r; cases s) (auto simp: edge_graphic_def)
  qed
  have "trim_suf space_runes (s @ '' '') = trim_suf space_runes s"
    unfolding trim_suf_def by (subst trim_pre.simps) (simp add: space_runes_def)
  also have "\<dots> = s"
  proof (rule trim_suf_stop)
    fix r assume "r \<in> set space_runes" "r \<noteq> []"
    with assms space_rune_edges [of r] show "\<not> suffix r s"
      by (auto simp: edge_graphic_def suffix_def)
  qed
  finally show ?thesis by (simp add: trim_space_def trim_runes_def front)
qed

text \<open>A final newline, as a line that was read has one, disappears with trimming.\<close>

lemma trim_pre_newline:
  "trim_pre space_runes (s @ [CHR 0x0A]) =
     (if trim_pre space_runes s = [] then [] else trim_pre space_runes s @ [CHR 0x0A])"
proof (induction "length s" arbitrary: s rule: less_induct)
  case less
  show ?case
  proof (cases "s = []")
    case True
    have "trim_pre space_runes [CHR 0x0A] = trim_pre space_runes []"
      by (subst trim_pre.simps) (simp add: space_runes_def)
    with True show ?thesis by simp
  next
    case False
    have pre: "prefix r (s @ [CHR 0x0A]) \<longleftrightarrow> prefix r s" if "r \<in> set space_runes" for r
    proof -
      have "r \<noteq> s @ [CHR 0x0A]"
        using that False unfolding space_runes_def by (cases s rule: rev_cases) auto
      then show ?thesis by (auto simp: prefix_snoc)
    qed
    then have fnd: "find (\<lambda>r. r \<noteq> [] \<and> prefix r (s @ [CHR 0x0A])) space_runes =
        find (\<lambda>r. r \<noteq> [] \<and> prefix r s) space_runes"
      by (intro find_cong) auto
    show ?thesis
    proof (cases "find (\<lambda>r. r \<noteq> [] \<and> prefix r s) space_runes")
      case None
      with fnd False show ?thesis by (simp add: trim_pre.simps [of space_runes "s @ [CHR 0x0A]"]
            trim_pre.simps [of space_runes s])
    next
      case (Some r)
      then have r: "r \<noteq> []" "prefix r s" by (auto simp: find_Some_iff)
      with False have "length (drop (length r) s) < length s" "length r \<le> length s"
        by (auto simp: prefix_length_le)
      with less [of "drop (length r) s"] Some fnd show ?thesis
        by (simp add: trim_pre.simps [of space_runes "s @ [CHR 0x0A]"] trim_pre.simps [of space_runes s])
    qed
  qed
qed

lemma trim_space_newline [simp]: "trim_space (s @ [CHR 0x0A]) = trim_space s"
proof -
  have "trim_suf space_runes (t @ [CHR 0x0A]) = trim_suf space_runes t" for t
    unfolding trim_suf_def by (subst trim_pre.simps) (simp add: space_runes_def)
  then show ?thesis by (simp add: trim_space_def trim_runes_def trim_pre_newline trim_suf_def)
qed

end
