(* ===== verification/Go_Net.thy ===== *)
theory Go_Net
  imports Go_Strings
begin

text \<open>
  \<open>net.SplitHostPort\<close> and \<open>net.JoinHostPort\<close>, following the standard library's code branch
  by branch. The callers only ask whether the split succeeded, so its errors are \<open>None\<close>.
\<close>

definition split_host_port :: "string \<Rightarrow> (string \<times> string) option" where
  "split_host_port hp =
     (case last_index_char CHR '':'' hp of
        None \<Rightarrow> None
      | Some i \<Rightarrow>
          if hd hp = CHR ''['' then
            (case index_char CHR '']'' hp of
               None \<Rightarrow> None
             | Some e \<Rightarrow>
                 if Suc e = length hp then None
                 else if Suc e = i then
                   (if CHR ''['' \<in> set (drop 1 hp) then None
                    else if CHR '']'' \<in> set (drop (Suc e) hp) then None
                    else Some (take (e - 1) (drop 1 hp), drop (Suc i) hp))
                 else None)
          else
            (let host = take i hp
             in if CHR '':'' \<in> set host then None
                else if CHR ''['' \<in> set hp then None
                else if CHR '']'' \<in> set hp then None
                else Some (host, drop (Suc i) hp)))"

definition join_host_port :: "string \<Rightarrow> string \<Rightarrow> string" where
  "join_host_port host port =
     (if CHR '':'' \<in> set host then ''['' @ host @ '']:'' @ port else host @ '':'' @ port)"

text \<open>Characters that take part in the bracket syntax.\<close>

definition plain_port :: "string \<Rightarrow> bool" where
  "plain_port p \<longleftrightarrow> CHR '':'' \<notin> set p \<and> CHR ''['' \<notin> set p \<and> CHR '']'' \<notin> set p"

definition plain_host :: "string \<Rightarrow> bool" where
  "plain_host h \<longleftrightarrow> CHR ''['' \<notin> set h \<and> CHR '']'' \<notin> set h"

lemma split_host_port_no_colon [simp]: "CHR '':'' \<notin> set hp \<Longrightarrow> split_host_port hp = None"
  by (simp add: split_host_port_def)

lemma split_host_port_name [simp]:
  assumes "CHR '':'' \<notin> set h" "plain_host h" "plain_port p"
  shows "split_host_port (h @ CHR '':'' # p) = Some (h, p)"
proof -
  have hd: "hd (h @ CHR '':'' # p) \<noteq> CHR ''[''"
    using assms by (cases h) (auto simp: plain_host_def)
  show ?thesis
    using assms hd unfolding split_host_port_def plain_host_def plain_port_def
    by (simp add: Let_def)
qed

lemma split_host_port_bracket [simp]:
  assumes "plain_host h" "plain_port p"
  shows "split_host_port (CHR ''['' # h @ CHR '']'' # CHR '':'' # p) = Some (h, p)"
proof -
  have i: "last_index_char CHR '':'' (CHR ''['' # h @ CHR '']'' # CHR '':'' # p) = Some (length h + 2)"
    using last_index_char_append [of "CHR '':''" p "CHR ''['' # h @ [CHR '']'']"] assms
    by (simp add: plain_port_def)
  have e: "index_char CHR '']'' (CHR ''['' # h @ CHR '']'' # CHR '':'' # p) = Some (length h + 1)"
    using index_char_append [of "CHR '']''" "CHR ''['' # h" "CHR '':'' # p"] assms
    by (simp add: plain_host_def)
  show ?thesis
    using assms unfolding split_host_port_def plain_host_def plain_port_def by (simp add: i e)
qed

text \<open>Joining and splitting are inverse for hosts and ports without bracket characters.\<close>

lemma split_join_host_port [simp]:
  "plain_host h \<Longrightarrow> plain_port p \<Longrightarrow> split_host_port (join_host_port h p) = Some (h, p)"
  by (simp add: join_host_port_def)

lemma plain_port_dec_nat [simp]: "plain_port (dec_nat n)"
  by (simp add: plain_port_def)

lemma split_host_port_colon: "split_host_port hp = Some (h, p) \<Longrightarrow> CHR '':'' \<in> set hp"
  by (rule ccontr) simp

text \<open>The port that is split off is what follows the last colon.\<close>

lemma split_host_port_port:
  assumes "split_host_port hp = Some (h, p)"
  obtains a where "hp = a @ CHR '':'' # p" "CHR '':'' \<notin> set p"
proof -
  from assms obtain i where i: "last_index_char CHR '':'' hp = Some i"
    by (cases "last_index_char CHR '':'' hp") (auto simp: split_host_port_def)
  then obtain a b where hp: "hp = a @ CHR '':'' # b" "CHR '':'' \<notin> set b" "length a = i"
    using last_index_char_Some_split by blast
  have "p = drop (Suc i) hp"
    using assms i by (auto simp: split_host_port_def Let_def split: if_splits option.splits)
  with hp have "p = b" by simp
  with hp that show ?thesis by simp
qed

end
