(* ===== verification/Go_IO.thy ===== *)
theory Go_IO
  imports Go_Strings
begin

text \<open>
  Byte streams: \<open>io.ReadFull\<close>, \<open>bufio.Reader.ReadString\<close>, \<open>bufio.Scanner\<close> and the
  \<open>io.Writer\<close> contract. A reader is the list of bytes it will still deliver before its
  final error; reading returns the bytes and the reader that is left. A writer is an interface: the
  locale \<open>io_writer\<close> states what \<open>Write\<close> promises, \<open>io_writer_full\<close> adds the rule that a
  short write comes with an error, which \<open>net.Conn\<close> keeps. The model of a connection at the end of
  the theory interprets both.
\<close>

datatype io_error =
    EOF
  | Unexpected_EOF
  | Net_Closed
  | Write_Failed
  | Protocol_Error string

section \<open>Reading\<close>

text \<open>\<open>io.ReadFull\<close> into a buffer of \<open>n\<close> bytes.\<close>

definition read_full :: "nat \<Rightarrow> bytes \<Rightarrow> (io_error, bytes \<times> bytes) result" where
  "read_full n s =
     (if n \<le> length s then Ok (take n s, drop n s)
      else if s = [] then Err EOF else Err Unexpected_EOF)"

text \<open>\<open>br.ReadString('\n')\<close>: the line including its delimiter; a stream that ends first is an
  error (the data read so far is dropped by every caller).\<close>

definition newline :: byte where
  "newline = 10"

definition read_string_nl :: "bytes \<Rightarrow> (io_error, bytes \<times> bytes) result" where
  "read_string_nl s =
     (if newline \<in> set s
      then Ok (takeWhile (\<lambda>b. b \<noteq> newline) s @ [newline], tl (dropWhile (\<lambda>b. b \<noteq> newline) s))
      else Err EOF)"

lemma read_full_append [frame_simps]:
  "length a = n \<Longrightarrow> read_full n (a @ s) = Ok (a, s)"
  by (auto simp: read_full_def)

lemma read_full_exact [frame_simps]: "length a = n \<Longrightarrow> read_full n a = Ok (a, [])"
  by (auto simp: read_full_def)

lemma read_full_0 [simp]: "read_full 0 s = Ok ([], s)"
  by (simp add: read_full_def)

lemma read_full_Ok:
  "read_full n s = Ok (a, r) \<Longrightarrow> s = a @ r \<and> length a = n"
  by (auto simp: read_full_def split: if_splits)

lemma read_full_short: "length s < n \<Longrightarrow> \<exists>e. read_full n s = Err e"
  by (auto simp: read_full_def)

lemma read_string_nl_line [frame_simps]:
  "newline \<notin> set l \<Longrightarrow> read_string_nl (l @ newline # s) = Ok (l @ [newline], s)"
  by (simp add: read_string_nl_def)

lemma read_string_nl_Ok:
  assumes "read_string_nl s = Ok (l, r)"
  shows "s = l @ r \<and> l \<noteq> [] \<and> last l = newline"
proof -
  from assms have nl: "newline \<in> set s" by (auto simp: read_string_nl_def split: if_splits)
  then obtain a b where s: "s = a @ newline # b" "newline \<notin> set a" by (meson split_list_first)
  with assms have "l = a @ [newline]" "r = b" by (auto simp: read_string_nl_line)
  with s show ?thesis by simp
qed

lemma read_string_nl_append:
  assumes "read_string_nl s = Ok (l, r)"
  shows "read_string_nl (s @ t) = Ok (l, r @ t)"
proof -
  from assms have nl: "newline \<in> set s" by (auto simp: read_string_nl_def split: if_splits)
  then obtain a b where s: "s = a @ newline # b" "newline \<notin> set a" by (meson split_list_first)
  with assms read_string_nl_line [OF s(2), of "b @ t"] show ?thesis by (simp add: read_string_nl_line)
qed

section \<open>Scanning lines\<close>

text \<open>
  \<open>bufio.Scanner\<close> with \<open>ScanLines\<close>: the text between newlines, without a final carriage
  return; a last line without newline counts when it is not empty. A line of 65536 bytes or more
  does not fit in the scanner's buffer (\<open>ErrTooLong\<close>): scanning stops in front of it.
\<close>

fun raw_lines :: "string \<Rightarrow> string \<Rightarrow> string list" where
  "raw_lines acc [] = (if acc = [] then [] else [rev acc])"
| "raw_lines acc (c # cs) =
     (if c = CHR 0x0A then rev acc # raw_lines [] cs else raw_lines (c # acc) cs)"

definition drop_cr :: "string \<Rightarrow> string" where
  "drop_cr l = (if l \<noteq> [] \<and> last l = CHR 0x0D then butlast l else l)"

definition max_scan_token :: nat where
  "max_scan_token = 65536"

text \<open>The lines the scanner yields, and whether it stopped with an error.\<close>

definition scan_lines :: "string \<Rightarrow> string list \<times> bool" where
  "scan_lines file =
     (let ls = raw_lines [] file;
          ok = takeWhile (\<lambda>l. length l < max_scan_token) ls
      in (map drop_cr ok, length ok < length ls))"

lemma raw_lines_append_nl:
  "CHR 0x0A \<notin> set l \<Longrightarrow> raw_lines acc (l @ CHR 0x0A # rest) = (rev acc @ l) # raw_lines [] rest"
  by (induction l arbitrary: acc) auto

lemma raw_lines_line [simp]:
  "CHR 0x0A \<notin> set l \<Longrightarrow> raw_lines [] (l @ CHR 0x0A # rest) = l # raw_lines [] rest"
  by (simp add: raw_lines_append_nl)

text \<open>Text whose lines are given, each ended by a newline.\<close>

definition unlines :: "string list \<Rightarrow> string" where
  "unlines ls = concat (map (\<lambda>l. l @ [CHR 0x0A]) ls)"

definition scannable :: "string \<Rightarrow> bool" where
  "scannable l \<longleftrightarrow> CHR 0x0A \<notin> set l \<and> length l < max_scan_token \<and> drop_cr l = l"

lemma raw_lines_unlines:
  "list_all scannable ls \<Longrightarrow> raw_lines [] (unlines ls) = ls"
  by (induction ls) (auto simp: unlines_def scannable_def)

lemma scan_lines_unlines [simp]:
  assumes "list_all scannable ls"
  shows "scan_lines (unlines ls) = (ls, False)"
proof -
  have "takeWhile (\<lambda>l. length l < max_scan_token) ls = ls"
    using assms by (simp add: takeWhile_eq_all_conv list_all_iff scannable_def)
  moreover have "map drop_cr ls = ls"
    using assms by (auto simp: list_all_iff scannable_def intro: map_idI)
  ultimately show ?thesis
    by (simp only: scan_lines_def raw_lines_unlines [OF assms] Let_def) simp
qed

section \<open>Writing\<close>

type_synonym 'w write_op = "'w \<Rightarrow> bytes \<Rightarrow> (nat \<times> io_error option) \<times> 'w"

text \<open>The \<open>io.Writer\<close> contract: \<open>Write(p)\<close> takes the first \<open>n\<close> bytes of \<open>p\<close>.\<close>

locale io_writer =
  fixes wr :: "'w write_op"
    and sent :: "'w \<Rightarrow> bytes"
  assumes write_le: "wr w p = ((n, e), w') \<Longrightarrow> n \<le> length p"
    and write_sent: "wr w p = ((n, e), w') \<Longrightarrow> sent w' = sent w @ take n p"

text \<open>\<open>Write must return a non-nil error if it returns n < len(p)\<close>.\<close>

locale io_writer_full = io_writer +
  assumes write_short: "wr w p = ((n, e), w') \<Longrightarrow> n < length p \<Longrightarrow> e \<noteq> None"
begin

lemma write_ok: "wr w p = ((n, None), w') \<Longrightarrow> sent w' = sent w @ p"
proof -
  assume a: "wr w p = ((n, None), w')"
  then have "n = length p" using write_le write_short by (metis le_neq_implies_less)
  with write_sent [OF a] show ?thesis by simp
qed

lemma write_err: "wr w p = ((n, Some e), w') \<Longrightarrow> \<exists>k \<le> length p. sent w' = sent w @ take k p"
  using write_le write_sent by blast

end

text \<open>Two writes in a row, stopping at the first error: the way frames are written.\<close>

definition write2 :: "'w write_op \<Rightarrow> 'w \<Rightarrow> bytes \<Rightarrow> bytes \<Rightarrow> io_error option \<times> 'w" where
  "write2 wr w p q =
     (case wr w p of
        ((_, Some e), w') \<Rightarrow> (Some e, w')
      | ((_, None), w') \<Rightarrow> (case wr w' q of ((_, e), w'') \<Rightarrow> (e, w'')))"

context io_writer_full
begin

lemma write2_ok: "write2 wr w p q = (None, w') \<Longrightarrow> sent w' = sent w @ p @ q"
  by (auto simp: write2_def split: prod.splits option.splits dest!: write_ok)

end

section \<open>Connections\<close>

text \<open>
  A \<open>net.Conn\<close>: the bytes its peer will still deliver, the bytes written to it, whether it is
  closed, and how many more bytes it accepts before a \<open>Write\<close> fails (\<open>None\<close> if none does).
\<close>

record net_conn =
  rx :: bytes
  tx :: bytes
  budget :: "nat option"
  closed :: bool

definition new_conn :: "bytes \<Rightarrow> net_conn" where
  "new_conn input = \<lparr>rx = input, tx = [], budget = None, closed = False\<rparr>"

definition conn_write :: "net_conn write_op" where
  "conn_write c p =
     (if closed c then ((0, Some Net_Closed), c)
      else (case budget c of
              None \<Rightarrow> ((length p, None), c\<lparr>tx := tx c @ p\<rparr>)
            | Some k \<Rightarrow>
                if length p \<le> k
                then ((length p, None), c\<lparr>tx := tx c @ p, budget := Some (k - length p)\<rparr>)
                else ((k, Some Write_Failed), c\<lparr>tx := tx c @ take k p, budget := Some 0\<rparr>)))"

definition conn_close :: "net_conn \<Rightarrow> net_conn" where
  "conn_close c = c\<lparr>closed := True\<rparr>"

text \<open>What a read of the connection still delivers.\<close>

definition conn_input :: "net_conn \<Rightarrow> bytes" where
  "conn_input cn = (if closed cn then [] else rx cn)"

lemma conn_write_conv:
  "conn_write c p = ((n, e), c') \<longleftrightarrow>
     (if closed c then n = 0 \<and> e = Some Net_Closed \<and> c' = c
      else (case budget c of
              None \<Rightarrow> n = length p \<and> e = None \<and> c' = c\<lparr>tx := tx c @ p\<rparr>
            | Some k \<Rightarrow>
                (if length p \<le> k
                 then n = length p \<and> e = None \<and> c' = c\<lparr>tx := tx c @ p, budget := Some (k - length p)\<rparr>
                 else n = k \<and> e = Some Write_Failed \<and>
                      c' = c\<lparr>tx := tx c @ take k p, budget := Some 0\<rparr>)))"
  by (auto simp: conn_write_def split: option.splits)

interpretation conn: io_writer_full conn_write tx
proof
  fix w p n e w' assume a: "conn_write w p = ((n, e), w')"
  show "n \<le> length p" using a by (auto simp: conn_write_conv split: if_splits option.splits)
  show "tx w' = tx w @ take n p" using a
    by (auto simp: conn_write_conv split: if_splits option.splits)
  show "n < length p \<Longrightarrow> e \<noteq> None" using a
    by (auto simp: conn_write_conv split: if_splits option.splits)
qed

lemma conn_write_frame:
  "conn_write c p = ((n, e), c') \<Longrightarrow> rx c' = rx c \<and> closed c' = closed c"
  by (auto simp: conn_write_conv split: if_splits option.splits)

lemma conn_write_open [simp]:
  "\<not> closed c \<Longrightarrow> budget c = None \<Longrightarrow> conn_write c p = ((length p, None), c\<lparr>tx := tx c @ p\<rparr>)"
  by (simp add: conn_write_def)

text \<open>A writer that takes a limited number of bytes per call and reports no error for a short
  write, as the plain \<open>io.Writer\<close> contract of a careless implementation would.\<close>

record chunk_writer =
  chunks :: "nat list"
  out :: bytes

definition chunk_write :: "chunk_writer write_op" where
  "chunk_write w p =
     (case chunks w of
        [] \<Rightarrow> ((length p, None), w\<lparr>out := out w @ p\<rparr>)
      | k # ks \<Rightarrow> ((min k (length p), None), w\<lparr>chunks := ks, out := out w @ take k p\<rparr>))"

interpretation chunk: io_writer chunk_write out
  by unfold_locales (auto simp: chunk_write_def min_def split: list.splits)

section \<open>Text lines\<close>

lemma bytes_of_newline [simp]: "bytes_of [CHR 0x0A] = [newline]"
  by (simp add: bytes_of_def newline_def)

lemma of_char_newline: "newline = (of_char c :: byte) \<longleftrightarrow> c = CHR 0x0A"
  by (metis bytes_of_eq_iff bytes_of_newline list.inject bytes_of_def list.simps(9))

lemma newline_in_bytes_of [simp]: "newline \<in> set (bytes_of s) \<longleftrightarrow> CHR 0x0A \<in> set s"
proof (induction s)
  case (Cons c s)
  have "bytes_of (c # s) = of_char c # bytes_of s" by (simp add: bytes_of_def)
  with Cons show ?case by (auto simp: of_char_newline)
qed simp

lemma string_of_newline [simp]: "string_of [newline] = [CHR 0x0A]"
  by (simp only: bytes_of_newline [symmetric] string_of_bytes_of)

lemma read_text_line [frame_simps]:
  "CHR 0x0A \<notin> set l \<Longrightarrow>
   read_string_nl (bytes_of (l @ [CHR 0x0A]) @ s) = Ok (bytes_of (l @ [CHR 0x0A]), s)"
  using read_string_nl_line [of "bytes_of l" s] by simp

end
