(* ===== verification/Port_Mapping.thy ===== *)
theory Port_Mapping
  imports Go_Net
begin

text \<open>
  \<open>internal/tunnel/mapping.go\<close>: the parser of the \<open>[ports].mapping\<close> entries. One definition
  per Go function; the body of the loop of \<open>ParseMappings\<close> is \<open>parse_item\<close>. An error
  carries the string the Go code formats into its message.
\<close>

record port_mapping =
  ListenAddr :: string
  TargetAddr :: string

datatype map_error =
    Invalid_Range string
  | Invalid_Range_Start string
  | Invalid_Range_End string
  | Range_Out_Of_Bounds string
  | Invalid_Port string
  | No_Valid_Mapping

section \<open>Operations\<close>

definition parse_range :: "string \<Rightarrow> (map_error, int \<times> int) result" where
  "parse_range s =
     (case split_n2 CHR ''-'' (trim_space s) of
        [a, b] \<Rightarrow>
          (case atoi (trim_space a) of
             None \<Rightarrow> Err (Invalid_Range_Start s)
           | Some start \<Rightarrow>
               (case atoi (trim_space b) of
                  None \<Rightarrow> Err (Invalid_Range_End s)
                | Some end_port \<Rightarrow>
                    if start < 1 \<or> end_port > 65535 \<or> start > end_port
                    then Err (Range_Out_Of_Bounds s)
                    else Ok (start, end_port)))
      | _ \<Rightarrow> Err (Invalid_Range s))"

definition parse_port_maybe_with_host :: "string \<Rightarrow> (map_error, int) result" where
  "parse_port_maybe_with_host s =
     (let s = trim_space s;
          s = (case last_index_char CHR '':'' s of None \<Rightarrow> s | Some i \<Rightarrow> drop (Suc i) s)
      in case atoi s of
           None \<Rightarrow> Err (Invalid_Port s)
         | Some p \<Rightarrow> if p < 1 \<or> p > 65535 then Err (Invalid_Port s) else Ok p)"

text \<open>The addresses the Go code prints with \<open>fmt.Sprintf("0.0.0.0:%d", p)\<close> and
  \<open>fmt.Sprintf("127.0.0.1:%d", p)\<close>.\<close>

definition listen_any :: "int \<Rightarrow> string" where
  "listen_any p = ''0.0.0.0:'' @ itoa p"

definition loopback :: "int \<Rightarrow> string" where
  "loopback p = ''127.0.0.1:'' @ itoa p"

definition normalize_target :: "string \<Rightarrow> (map_error, string) result" where
  "normalize_target s =
     (let s = trim_space s
      in if CHR '':'' \<in> set s then
           (case parse_port_maybe_with_host s of Err e \<Rightarrow> Err e | Ok _ \<Rightarrow> Ok s)
         else
           (case parse_port_maybe_with_host s of
              Err e \<Rightarrow> Err e
            | Ok p \<Rightarrow> Ok (loopback p)))"

text \<open>One iteration of the loop of \<open>ParseMappings\<close>, on the trimmed non-empty entry: the
  mappings it appends, or the error it returns.\<close>

definition parse_item :: "string \<Rightarrow> (map_error, port_mapping list) result" where
  "parse_item raw =
     (if CHR '':'' \<in> set raw \<and> CHR ''-'' \<in> set raw \<and> CHR ''='' \<notin> set raw then
        (let parts = split_n2 CHR '':'' raw
         in case parse_range (trim_space (parts ! 0)) of
              Err e \<Rightarrow> Err e
            | Ok (start, end_port) \<Rightarrow>
                (case normalize_target (trim_space (parts ! 1)) of
                   Err e \<Rightarrow> Err e
                 | Ok t \<Rightarrow>
                     Ok (map (\<lambda>p. \<lparr>ListenAddr = listen_any p, TargetAddr = t\<rparr>) [start..end_port])))
      else if CHR ''='' \<in> set raw then
        (let parts = split_n2 CHR ''='' raw;
             listen_part = trim_space (parts ! 0);
             target_part = trim_space (parts ! 1)
         in if CHR ''-'' \<in> set listen_part then
              (case parse_range listen_part of
                 Err e \<Rightarrow> Err e
               | Ok (start, end_port) \<Rightarrow>
                   (case parse_port_maybe_with_host target_part of
                      Err e \<Rightarrow> Err e
                    | Ok t \<Rightarrow>
                        Ok (map (\<lambda>p. \<lparr>ListenAddr = listen_any p, TargetAddr = loopback t\<rparr>)
                              [start..end_port])))
            else
              (case parse_port_maybe_with_host listen_part of
                 Err e \<Rightarrow> Err e
               | Ok l \<Rightarrow>
                   (case normalize_target target_part of
                      Err e \<Rightarrow> Err e
                    | Ok t \<Rightarrow> Ok [\<lparr>ListenAddr = listen_any l, TargetAddr = t\<rparr>])))
      else if CHR ''-'' \<in> set raw then
        (case parse_range raw of
           Err e \<Rightarrow> Err e
         | Ok (start, end_port) \<Rightarrow>
             Ok (map (\<lambda>p. \<lparr>ListenAddr = listen_any p, TargetAddr = loopback p\<rparr>) [start..end_port]))
      else
        (case parse_port_maybe_with_host raw of
           Err e \<Rightarrow> Err e
         | Ok p \<Rightarrow> Ok [\<lparr>ListenAddr = listen_any p, TargetAddr = loopback p\<rparr>]))"

fun parse_mappings_loop ::
  "string list \<Rightarrow> port_mapping list \<Rightarrow> (map_error, port_mapping list) result" where
  "parse_mappings_loop [] res = (if length res = 0 then Err No_Valid_Mapping else Ok res)"
| "parse_mappings_loop (raw # items) res =
     (let raw = trim_space raw
      in if raw = [] then parse_mappings_loop items res
         else (case parse_item raw of
                 Err e \<Rightarrow> Err e
               | Ok ms \<Rightarrow> parse_mappings_loop items (res @ ms)))"

definition parse_mappings :: "string list \<Rightarrow> (map_error, port_mapping list) result" where
  "parse_mappings items = parse_mappings_loop items []"

section \<open>Ports and targets\<close>

lemma parse_range_Ok:
  "parse_range s = Ok (a, b) \<Longrightarrow> 1 \<le> a \<and> a \<le> b \<and> b \<le> 65535"
  by (auto simp: parse_range_def split: list.splits option.splits if_splits)

lemma parse_port_Ok:
  "parse_port_maybe_with_host s = Ok p \<Longrightarrow> 1 \<le> p \<and> p \<le> 65535"
  by (auto simp: parse_port_maybe_with_host_def Let_def split: option.splits if_splits)

lemma itoa_nonneg: "0 \<le> p \<Longrightarrow> itoa p = dec_nat (nat p)"
  by (simp add: itoa_def)

lemma edge_graphic_append:
  "edge_graphic t \<Longrightarrow> s \<noteq> [] \<Longrightarrow> graphic (hd s) \<Longrightarrow> edge_graphic (s @ t)"
  by (auto simp: edge_graphic_def)

lemma loopback_edge [simp]: "0 \<le> p \<Longrightarrow> edge_graphic (loopback p)"
  unfolding loopback_def by (rule edge_graphic_append) (simp_all add: itoa_nonneg graphic_def)

lemma parse_port_colon:
  assumes "edge_graphic (h @ CHR '':'' # dec_nat n)" "1 \<le> n" "n \<le> 65535"
  shows "parse_port_maybe_with_host (h @ CHR '':'' # dec_nat n) = Ok (int n)"
  using assms by (simp add: parse_port_maybe_with_host_def atoi_dec_nat)

lemma parse_port_dec [simp]:
  "1 \<le> n \<Longrightarrow> n \<le> 65535 \<Longrightarrow> parse_port_maybe_with_host (dec_nat n) = Ok (int n)"
  by (simp add: parse_port_maybe_with_host_def atoi_dec_nat)

lemma loopback_nat: "0 \<le> p \<Longrightarrow> loopback p = ''127.0.0.1'' @ CHR '':'' # dec_nat (nat p)"
  by (simp add: loopback_def itoa_nonneg)

lemma parse_port_loopback [simp]:
  assumes "1 \<le> p" "p \<le> 65535"
  shows "parse_port_maybe_with_host (loopback p) = Ok p"
proof -
  have "edge_graphic (''127.0.0.1'' @ CHR '':'' # dec_nat (nat p))"
    using loopback_edge [of p] loopback_nat [of p] assms by simp
  then have "parse_port_maybe_with_host (''127.0.0.1'' @ CHR '':'' # dec_nat (nat p)) = Ok (int (nat p))"
    by (rule parse_port_colon) (use assms in auto)
  with assms show ?thesis by (simp add: loopback_nat)
qed

text \<open>A target is valid when it has a colon, no white space around it, and the port parser accepts
  it.\<close>

definition valid_target :: "string \<Rightarrow> bool" where
  "valid_target t \<longleftrightarrow>
     CHR '':'' \<in> set t \<and> trim_space t = t \<and>
     (case parse_port_maybe_with_host t of Inl _ \<Rightarrow> False | Inr _ \<Rightarrow> True)"

lemma parse_port_trim [simp]:
  "parse_port_maybe_with_host (trim_space s) = parse_port_maybe_with_host s"
  by (simp add: parse_port_maybe_with_host_def)

lemma loopback_colon [simp]: "CHR '':'' \<in> set (loopback p)"
  by (simp add: loopback_def)

lemma valid_target_loopback [simp]: "1 \<le> p \<Longrightarrow> p \<le> 65535 \<Longrightarrow> valid_target (loopback p)"
  by (simp add: valid_target_def)

lemma normalize_target_valid: "normalize_target s = Ok t \<Longrightarrow> valid_target t"
  by (auto simp: normalize_target_def Let_def valid_target_def
      split: if_splits sum.splits dest: parse_port_Ok)

definition wf_mapping :: "port_mapping \<Rightarrow> bool" where
  "wf_mapping m \<longleftrightarrow>
     (\<exists>p. 1 \<le> p \<and> p \<le> 65535 \<and> ListenAddr m = listen_any p) \<and> valid_target (TargetAddr m)"

lemma wf_mappingI:
  "1 \<le> p \<Longrightarrow> p \<le> 65535 \<Longrightarrow> valid_target t \<Longrightarrow> wf_mapping \<lparr>ListenAddr = listen_any p, TargetAddr = t\<rparr>"
  by (auto simp: wf_mapping_def)

lemma parse_item_wf:
  assumes "parse_item raw = Ok ms"
  shows "ms \<noteq> [] \<and> (\<forall>m \<in> set ms. wf_mapping m)"
  using assms
  by (auto simp: parse_item_def Let_def intro!: wf_mappingI valid_target_loopback
      split: if_splits sum.splits prod.splits
      dest!: parse_range_Ok parse_port_Ok normalize_target_valid)

section \<open>Entries in canonical form\<close>

lemma parse_range_dec [simp]:
  assumes "1 \<le> a" "a \<le> b" "b \<le> 65535"
  shows "parse_range (dec_nat a @ CHR ''-'' # dec_nat b) = Ok (int a, int b)"
proof -
  have "edge_graphic (dec_nat a @ CHR ''-'' # dec_nat b)"
    using dec_nat_edge [of a] dec_nat_edge [of b] by (auto simp: edge_graphic_def)
  with assms show ?thesis by (simp add: parse_range_def atoi_dec_nat)
qed

text \<open>A \<open>host:port\<close> target as a user writes it.\<close>

definition host_target :: "string \<Rightarrow> nat \<Rightarrow> string" where
  "host_target h p = h @ CHR '':'' # dec_nat p"

definition plain_name :: "string \<Rightarrow> bool" where
  "plain_name h \<longleftrightarrow> edge_graphic h \<and> CHR ''='' \<notin> set h"

lemma host_target_edge [simp]: "plain_name h \<Longrightarrow> edge_graphic (host_target h p)"
  using dec_nat_edge [of p] by (auto simp: plain_name_def host_target_def edge_graphic_def)

lemma host_target_colon [simp]: "CHR '':'' \<in> set (host_target h p)"
  by (simp add: host_target_def)

lemma parse_port_host_target [simp]:
  "plain_name h \<Longrightarrow> 1 \<le> p \<Longrightarrow> p \<le> 65535 \<Longrightarrow>
    parse_port_maybe_with_host (host_target h p) = Ok (int p)"
  using host_target_edge [of h p] unfolding host_target_def by (rule parse_port_colon)

lemma normalize_host_target [simp]:
  "plain_name h \<Longrightarrow> 1 \<le> p \<Longrightarrow> p \<le> 65535 \<Longrightarrow>
    normalize_target (host_target h p) = Ok (host_target h p)"
  by (simp add: normalize_target_def Let_def)

definition range_text :: "nat \<Rightarrow> nat \<Rightarrow> string" where
  "range_text a b = dec_nat a @ CHR ''-'' # dec_nat b"

lemma range_text_edge [simp]: "edge_graphic (range_text a b)"
  using dec_nat_edge [of a] dec_nat_edge [of b] by (auto simp: range_text_def edge_graphic_def)

lemma edge_graphic_join [simp]:
  "edge_graphic s \<Longrightarrow> edge_graphic t \<Longrightarrow> edge_graphic (s @ c # t)"
  by (auto simp: edge_graphic_def)

lemma range_text_set [simp]:
  "CHR ''-'' \<in> set (range_text a b)" "CHR '':'' \<notin> set (range_text a b)"
  "CHR ''='' \<notin> set (range_text a b)"
  by (auto simp: range_text_def)

lemma parse_item_range:
  assumes "1 \<le> a" "a \<le> b" "b \<le> 65535"
  shows "parse_item (range_text a b) =
    Ok (map (\<lambda>p. \<lparr>ListenAddr = listen_any p, TargetAddr = loopback p\<rparr>) [int a..int b])"
  using assms by (simp add: parse_item_def) (simp add: range_text_def)

lemma parse_item_range_colon:
  assumes "1 \<le> a" "a \<le> b" "b \<le> 65535" "plain_name h" "1 \<le> p" "p \<le> 65535"
  shows "parse_item (range_text a b @ CHR '':'' # host_target h p) =
    Ok (map (\<lambda>q. \<lparr>ListenAddr = listen_any q, TargetAddr = host_target h p\<rparr>) [int a..int b])"
proof -
  have "CHR ''='' \<notin> set (host_target h p)"
    using assms by (simp add: host_target_def plain_name_def)
  with assms show ?thesis
    by (simp add: parse_item_def Let_def) (simp add: range_text_def)
qed

lemma parse_item_range_equals:
  assumes "1 \<le> a" "a \<le> b" "b \<le> 65535" "plain_name h" "1 \<le> p" "p \<le> 65535"
  shows "parse_item (range_text a b @ CHR ''='' # host_target h p) =
    Ok (map (\<lambda>q. \<lparr>ListenAddr = listen_any q, TargetAddr = loopback (int p)\<rparr>) [int a..int b])"
  using assms by (simp add: parse_item_def Let_def) (simp add: range_text_def)

lemma parse_item_pair:
  assumes "1 \<le> l" "l \<le> 65535" "plain_name h" "1 \<le> p" "p \<le> 65535"
  shows "parse_item (dec_nat l @ CHR ''='' # host_target h p) =
    Ok [\<lparr>ListenAddr = listen_any (int l), TargetAddr = host_target h p\<rparr>]"
  using assms by (simp add: parse_item_def Let_def)

lemma parse_mappings_single:
  "edge_graphic raw \<Longrightarrow> parse_item raw = Ok ms \<Longrightarrow> ms \<noteq> [] \<Longrightarrow> parse_mappings [raw] = Ok ms"
  by (auto simp: parse_mappings_def edge_graphic_def)

lemma parse_mappings_loop_collect:
  "parse_mappings_loop items res =
     (case collect (map parse_item (filter (\<lambda>r. r \<noteq> []) (map trim_space items))) of
        Inl e \<Rightarrow> Err e
      | Inr mss \<Rightarrow> if res @ concat mss = [] then Err No_Valid_Mapping else Ok (res @ concat mss))"
proof (induction items arbitrary: res)
  case Nil
  then show ?case by simp
next
  case (Cons raw items)
  then show ?case
    by (cases "parse_item (trim_space raw)") (auto simp: Let_def split: sum.splits)
qed

section \<open>Properties\<close>

text \<open>\<open>ParseMappings\<close> is compositional: blank entries are skipped, the first entry that does
  not parse decides the error, otherwise the result is the concatenation, in order, of what each
  entry contributes, and a list that contributes nothing is an error.\<close>

theorem parse_mappings_compositional:
  "parse_mappings items =
     (case collect (map parse_item (filter (\<lambda>r. r \<noteq> []) (map trim_space items))) of
        Inl e \<Rightarrow> Err e
      | Inr mss \<Rightarrow> if concat mss = [] then Err No_Valid_Mapping else Ok (concat mss))"
  by (simp add: parse_mappings_def parse_mappings_loop_collect split: sum.split)

text \<open>C30. Whatever the configuration says, every mapping that \<open>ParseMappings\<close> returns listens on
  \<open>0.0.0.0\<close> at a port between 1 and 65535 and has a target that ends in a port in the same range;
  a successful result is never empty.\<close>

theorem parse_mappings_ports_in_range:
  assumes "parse_mappings items = Ok ms"
  shows "ms \<noteq> [] \<and> list_all wf_mapping ms"
proof -
  obtain mss where c: "collect (map parse_item (filter (\<lambda>r. r \<noteq> []) (map trim_space items))) = Ok mss"
    and ms: "ms = concat mss" "concat mss \<noteq> []"
    using assms unfolding parse_mappings_def parse_mappings_loop_collect
    by (auto split: sum.splits if_splits)
  have "\<forall>m \<in> set l. wf_mapping m" if "l \<in> set mss" for l
  proof -
    have "Inr l \<in> Inr ` set mss" using that by simp
    also have "\<dots> = set (map parse_item (filter (\<lambda>r. r \<noteq> []) (map trim_space items)))"
      using c by (simp only: collect_Ok_iff set_map)
    finally obtain r where "parse_item r = Ok l" by auto
    then show ?thesis by (simp add: parse_item_wf)
  qed
  then show ?thesis using ms by (simp add: list_all_iff)
qed

theorem parse_mappings_ports_in_range_witness:
  "wf_mapping \<lparr>ListenAddr = ''0.0.0.0:80'', TargetAddr = ''127.0.0.1:80''\<rparr>"
proof -
  have "parse_mappings [''80''] = Ok [\<lparr>ListenAddr = ''0.0.0.0:80'', TargetAddr = ''127.0.0.1:80''\<rparr>]"
    by code_simp
  from parse_mappings_ports_in_range [OF this] show ?thesis by simp
qed

text \<open>A port range \<open>a-b\<close> in bounds is expanded to exactly the ports from \<open>a\<close> to \<open>b\<close>, in
  order, each relayed to the same port of the client's loopback interface.\<close>

theorem parse_mappings_range:
  assumes "1 \<le> a" "a \<le> b" "b \<le> 65535"
  shows "parse_mappings [range_text a b] =
    Ok (map (\<lambda>p. \<lparr>ListenAddr = listen_any p, TargetAddr = loopback p\<rparr>) [int a..int b])"
  using assms by (intro parse_mappings_single parse_item_range) auto

theorem parse_mappings_range_witness:
  "parse_mappings [''8000-8002''] =
    Ok [\<lparr>ListenAddr = ''0.0.0.0:8000'', TargetAddr = ''127.0.0.1:8000''\<rparr>,
        \<lparr>ListenAddr = ''0.0.0.0:8001'', TargetAddr = ''127.0.0.1:8001''\<rparr>,
        \<lparr>ListenAddr = ''0.0.0.0:8002'', TargetAddr = ''127.0.0.1:8002''\<rparr>]"
proof -
  have r: "range_text 8000 8002 = ''8000-8002''" by code_simp
  have a: "listen_any 8000 = ''0.0.0.0:8000''" "listen_any 8001 = ''0.0.0.0:8001''"
    "listen_any 8002 = ''0.0.0.0:8002''" "loopback 8000 = ''127.0.0.1:8000''"
    "loopback 8001 = ''127.0.0.1:8001''" "loopback 8002 = ''127.0.0.1:8002''" by code_simp+
  show ?thesis using parse_mappings_range [of 8000 8002] by (simp add: r a)
qed

text \<open>The two spellings of "this range to one target" differ: \<open>a-b:host:port\<close> keeps the
  target host, \<open>a-b=host:port\<close> silently replaces it by \<open>127.0.0.1\<close> (only the port of the target
  is read), so traffic meant for another host reaches the client's loopback interface.\<close>

theorem parse_mappings_range_equals_drops_host:
  assumes "1 \<le> a" "a \<le> b" "b \<le> 65535" "plain_name h" "1 \<le> p" "p \<le> 65535"
  shows "parse_mappings [range_text a b @ '':'' @ host_target h p] =
      Ok (map (\<lambda>q. \<lparr>ListenAddr = listen_any q, TargetAddr = host_target h p\<rparr>) [int a..int b]) \<and>
    parse_mappings [range_text a b @ ''='' @ host_target h p] =
      Ok (map (\<lambda>q. \<lparr>ListenAddr = listen_any q, TargetAddr = loopback (int p)\<rparr>) [int a..int b])"
  using assms
  by (auto intro!: parse_mappings_single simp: parse_item_range_colon parse_item_range_equals)

theorem parse_mappings_range_equals_drops_host_witness:
  "parse_mappings [''80-80:10.0.0.8:81''] = Ok [\<lparr>ListenAddr = ''0.0.0.0:80'', TargetAddr = ''10.0.0.8:81''\<rparr>] \<and>
   parse_mappings [''80-80=10.0.0.8:81''] = Ok [\<lparr>ListenAddr = ''0.0.0.0:80'', TargetAddr = ''127.0.0.1:81''\<rparr>]"
proof -
  have t: "range_text 80 80 = ''80-80''" "host_target ''10.0.0.8'' 81 = ''10.0.0.8:81''"
    "listen_any 80 = ''0.0.0.0:80''" "loopback 81 = ''127.0.0.1:81''" by code_simp+
  have "plain_name ''10.0.0.8''" by code_simp
  then show ?thesis
    using parse_mappings_range_equals_drops_host [of 80 80 "''10.0.0.8''" 81] by (simp add: t)
qed

end
