(* ===== verification/Orig_Wire.thy ===== *)
theory Orig_Wire
  imports Go_IO Port_Mapping
begin

text \<open>
  The wire format of the recovered TCP protocol, lines 17 to 126 of
  \<open>internal/tunnel/original_protocol.go\<close>: typed strings, control signals, the translation of
  targets between server and client, and the write loop.
\<close>

section \<open>Signals\<close>

definition original_signal_closed :: byte where "original_signal_closed = 0x00"
definition original_signal_heartbeat :: byte where "original_signal_heartbeat = 0x01"
definition original_signal_channel :: byte where "original_signal_channel = 0x02"
definition original_signal_rtt :: byte where "original_signal_rtt = 0x05"
definition original_signal_hello :: byte where "original_signal_hello = 0x06"
definition original_signal_tcp :: byte where "original_signal_tcp = 0x10"
definition original_signal_udp :: byte where "original_signal_udp = 0x11"

lemmas signal_defs = original_signal_closed_def original_signal_heartbeat_def
  original_signal_channel_def original_signal_rtt_def original_signal_hello_def
  original_signal_tcp_def original_signal_udp_def

definition uses_original_tcp_protocol :: "string \<Rightarrow> bool" where
  "uses_original_tcp_protocol transport \<longleftrightarrow> equal_fold (trim_space transport) ''tcp''"

section \<open>Frames\<close>

text \<open>The write loop: \<open>for len(p) > 0 { n, err := w.Write(p); ... p = p[n:] }\<close>.\<close>

function write_original_full :: "'w write_op \<Rightarrow> 'w \<Rightarrow> bytes \<Rightarrow> io_error option \<times> 'w" where
  "write_original_full wr w p =
     (if p = [] then (None, w)
      else (case wr w p of
              ((n, Some e), w') \<Rightarrow> (Some e, w')
            | ((n, None), w') \<Rightarrow>
                if n = 0 then (Some Unexpected_EOF, w')
                else write_original_full wr w' (drop n p)))"
  by pat_completeness auto
termination
  by (relation "measure (\<lambda>(wr, w, p). length p)") auto

declare write_original_full.simps [simp del]

definition typed_frame :: "byte \<Rightarrow> string \<Rightarrow> bytes" where
  "typed_frame signal value =
     put_uint16 (word_of_nat (length value)) @ [signal] @ bytes_of value"

definition write_original_typed_string ::
  "'w write_op \<Rightarrow> 'w \<Rightarrow> byte \<Rightarrow> string \<Rightarrow> io_error option \<times> 'w" where
  "write_original_typed_string wr w signal value =
     (if length value > 65535 then (Some (Protocol_Error ''protocol string is too long''), w)
      else write_original_full wr w (typed_frame signal value))"

definition read_original_typed_string ::
  "bytes \<Rightarrow> (io_error, (string \<times> byte) \<times> bytes) result" where
  "read_original_typed_string r =
     (case read_full 3 r of
        Inl e \<Rightarrow> Err e
      | Inr (header, r') \<Rightarrow>
          (let n = uint16_be (header ! 0) (header ! 1)
           in case read_full (unat n) r' of
                Inl e \<Rightarrow> Err e
              | Inr (payload, r'') \<Rightarrow> Ok ((string_of payload, header ! 2), r'')))"

definition write_original_signal :: "'w write_op \<Rightarrow> 'w \<Rightarrow> byte \<Rightarrow> io_error option \<times> 'w" where
  "write_original_signal wr w signal = write_original_full wr w [signal]"

definition read_original_signal :: "bytes \<Rightarrow> (io_error, byte \<times> bytes) result" where
  "read_original_signal r =
     (case read_full 1 r of Inl e \<Rightarrow> Err e | Inr (b, r') \<Rightarrow> Ok (b ! 0, r'))"

section \<open>Targets\<close>

datatype target_error =
    Empty_Original_Target
  | Invalid_Original_Port string
  | Invalid_Original_Target string

definition validate_original_port :: "string \<Rightarrow> target_error option" where
  "validate_original_port port =
     (case parse_uint16 port of
        None \<Rightarrow> Some (Invalid_Original_Port port)
      | Some value \<Rightarrow> if value = 0 then Some (Invalid_Original_Port port) else None)"

definition normalize_original_target :: "string \<Rightarrow> (target_error, string) result" where
  "normalize_original_target target =
     (let target = trim_space target
      in if target = [] then Err Empty_Original_Target
         else if prefix '':'' target then
           (let port = trim_prefix '':'' target
            in case validate_original_port port of
                 Some e \<Rightarrow> Err e
               | None \<Rightarrow> Ok (join_host_port ''127.0.0.1'' port))
         else if CHR '':'' \<notin> set target then
           (case validate_original_port target of
              Some e \<Rightarrow> Err e
            | None \<Rightarrow> Ok (join_host_port ''127.0.0.1'' target))
         else
           (case split_host_port target of
              None \<Rightarrow> Err (Invalid_Original_Target target)
            | Some _ \<Rightarrow> Ok target))"

definition original_wire_target :: "string \<Rightarrow> string" where
  "original_wire_target target =
     (case split_host_port (trim_space target) of
        Some (host, port) \<Rightarrow>
          if host = [] \<or> host = ''127.0.0.1'' \<or> host = ''localhost'' \<or> host = ''::1''
          then port else target
      | None \<Rightarrow> target)"

section \<open>Lemmas\<close>

text \<open>The write loop over any writer: success sends everything, an error a proper part.\<close>

context io_writer
begin

lemma write_original_full_sent:
  "write_original_full wr w p = (r, w') \<Longrightarrow>
     \<exists>k \<le> length p. sent w' = sent w @ take k p \<and> (r = None \<longrightarrow> k = length p)"
proof (induction "length p" arbitrary: w p r w' rule: less_induct)
  case less
  show ?case
  proof (cases "p = []")
    case True
    with less.prems show ?thesis by (simp add: write_original_full.simps)
  next
    case False
    obtain n e w1 where w1: "wr w p = ((n, e), w1)" by (metis prod.collapse)
    then have n: "n \<le> length p" and s: "sent w1 = sent w @ take n p"
      by (auto dest: write_le write_sent)
    show ?thesis
    proof (cases "e = None \<and> n \<noteq> 0")
      case True
      with w1 False less.prems have "write_original_full wr w1 (drop n p) = (r, w')"
        by (simp add: write_original_full.simps [of wr w p])
      moreover have "length (drop n p) < length p" using True False by simp
      ultimately obtain k where
        k: "k \<le> length (drop n p)" "sent w' = sent w1 @ take k (drop n p)"
           "r = None \<longrightarrow> k = length (drop n p)" using less.hyps by blast
      have "sent w' = sent w @ take (n + k) p" using k s by (simp add: take_add)
      with k n show ?thesis by (intro exI [of _ "n + k"]) auto
    next
      case part: False
      with w1 False less.prems have "r \<noteq> None \<and> w' = w1"
        by (auto simp: write_original_full.simps [of wr w p] split: option.splits)
      with n s show ?thesis by auto
    qed
  qed
qed

lemma write_original_full_ok:
  "write_original_full wr w p = (None, w') \<Longrightarrow> sent w' = sent w @ p"
  using write_original_full_sent by fastforce

lemma write_original_typed_string_ok:
  "write_original_typed_string wr w signal value = (None, w') \<Longrightarrow>
     sent w' = sent w @ typed_frame signal value \<and> length value \<le> 65535"
  by (auto simp: write_original_typed_string_def split: if_splits dest: write_original_full_ok)

end

lemma write_original_full_conn [simp]:
  assumes "\<not> closed c" "budget c = None"
  shows "write_original_full conn_write c p = (None, c\<lparr>tx := tx c @ p\<rparr>)"
proof (cases "p = []")
  case True
  then show ?thesis by (simp add: write_original_full.simps)
next
  case False
  with assms show ?thesis
    by (simp add: write_original_full.simps [of conn_write c p])
       (simp add: write_original_full.simps)
qed

lemma typed_frame_length [simp]: "length (typed_frame signal value) = 3 + length value"
  by (simp add: typed_frame_def)

lemma read_typed_frame [frame_simps]:
  assumes "length value \<le> 65535"
  shows "read_original_typed_string (typed_frame signal value @ rest) = Ok ((value, signal), rest)"
proof -
  have "read_full 3 (typed_frame signal value @ rest) =
      Ok (put_uint16 (word_of_nat (length value)) @ [signal], bytes_of value @ rest)"
    by (simp add: typed_frame_def put_uint16_def read_full_def)
  then show ?thesis
    using assms unfolding read_original_typed_string_def
    by (simp add: put_uint16_def read_full_append unat_of_nat16)
qed

lemma uint16_be_put:
  "put_uint16 (uint16_be a b) = [a, b]"
proof -
  have "ucast (drop_bit 8 (uint16_be a b)) = a"
    unfolding uint16_be_def
    by (rule bit_word_eqI) (auto simp: bit_simps dest: bit_imp_le_length)
  moreover have "ucast (uint16_be a b) = b"
    unfolding uint16_be_def
    by (rule bit_word_eqI) (auto simp: bit_simps dest: bit_imp_le_length)
  ultimately show ?thesis by (simp add: put_uint16_def)
qed

lemma read_typed_string_Ok:
  assumes "read_original_typed_string r = Ok ((value, signal), rest)"
  shows "r = typed_frame signal value @ rest \<and> length value \<le> 65535"
proof -
  obtain header r' where h: "read_full 3 r = Ok (header, r')"
    using assms by (auto simp: read_original_typed_string_def split: sum.splits)
  then have r: "r = header @ r'" and "length header = 3" by (auto dest: read_full_Ok)
  then obtain a b c where header: "header = [a, b, c]"
    by (metis (no_types) length_0_conv length_Suc_conv numeral_3_eq_3)
  obtain payload where p: "read_full (unat (uint16_be a b)) r' = Ok (payload, rest)"
    and v: "value = string_of payload" "signal = c"
    using assms h header by (auto simp: read_original_typed_string_def Let_def split: sum.splits)
  then have r': "r' = payload @ rest" and len: "length payload = unat (uint16_be a b)"
    by (auto dest: read_full_Ok)
  have "typed_frame signal value = header @ payload"
    using v len header uint16_be_put [of a b] by (simp add: typed_frame_def)
  with r r' v len show ?thesis by (simp add: unat_16_le)
qed

lemma parse_uint16_digits: "parse_uint16 p = Some n \<Longrightarrow> p \<noteq> [] \<and> list_all is_digit p"
  by (auto simp: parse_uint16_def parse_digits_def split: option.splits if_splits)

lemma digits_edge: "p \<noteq> [] \<Longrightarrow> list_all is_digit p \<Longrightarrow> edge_graphic p"
  by (auto simp: edge_graphic_def list_all_iff digit_graphic)

lemma digits_no_mark:
  "list_all is_digit p \<Longrightarrow> \<not> is_digit c \<Longrightarrow> c \<notin> set p"
  by (auto simp: list_all_iff)

lemma valid_port_digits:
  "validate_original_port p = None \<Longrightarrow> p \<noteq> [] \<and> list_all is_digit p"
  by (auto simp: validate_original_port_def parse_uint16_digits split: option.splits if_splits)

lemma valid_port_plain:
  assumes "validate_original_port p = None"
  shows "edge_graphic p" "plain_port p" "CHR '':'' \<notin> set p" "p \<noteq> []"
  using valid_port_digits [OF assms]
  by (auto simp: digits_edge plain_port_def digits_no_mark)

lemma loopback_name [simp]: "plain_host ''127.0.0.1''" "CHR '':'' \<notin> set ''127.0.0.1''"
  by (auto simp: plain_host_def)

lemma join_loopback: "join_host_port ''127.0.0.1'' p = ''127.0.0.1:'' @ p"
  by (simp add: join_host_port_def)

lemma normalize_port:
  assumes "validate_original_port p = None"
  shows "normalize_original_target p = Ok (''127.0.0.1:'' @ p)"
proof -
  have "\<not> prefix '':'' p" using valid_port_plain [OF assms] by (cases p) auto
  with valid_port_plain [OF assms] assms show ?thesis
    by (simp add: normalize_original_target_def join_loopback)
qed

lemma normalize_host_port:
  assumes "split_host_port (trim_space t) = Some (h, p)" "h \<noteq> []"
  shows "normalize_original_target t = Ok (trim_space t)"
proof -
  have c: "CHR '':'' \<in> set (trim_space t)" using assms(1) by (rule split_host_port_colon)
  then have ne: "trim_space t \<noteq> []" by auto
  have "\<not> prefix '':'' (trim_space t)"
  proof
    assume "prefix '':'' (trim_space t)"
    then obtain u where u: "trim_space t = CHR '':'' # u" by (auto simp: prefix_def)
    have "h = []"
      using assms(1) unfolding u split_host_port_def
      by (auto simp: Let_def last_index_char_def take_Cons' split: option.splits if_splits)
    with assms(2) show False by simp
  qed
  with c ne assms show ?thesis by (simp add: normalize_original_target_def)
qed

lemma validate_dec_nat [simp]: "1 \<le> n \<Longrightarrow> n \<le> 65535 \<Longrightarrow> validate_original_port (dec_nat n) = None"
  by (simp add: validate_original_port_def)

lemma split_loopback:
  assumes "0 \<le> p"
  shows "split_host_port (loopback p) = Some (''127.0.0.1'', itoa p)"
  using split_host_port_name [of "''127.0.0.1''" "itoa p"] assms
  by (simp add: loopback_def itoa_nonneg)

definition loopback_names :: "string list" where
  "loopback_names = [[], ''127.0.0.1'', ''localhost'', ''::1'']"

lemma original_wire_target_split:
  "split_host_port (trim_space t) = Some (h, p) \<Longrightarrow>
     original_wire_target t = (if h \<in> set loopback_names then p else t)"
  by (simp add: original_wire_target_def loopback_names_def)

lemma wire_loopback: "1 \<le> p \<Longrightarrow> p \<le> 65535 \<Longrightarrow> original_wire_target (loopback p) = itoa p"
  by (simp add: original_wire_target_def split_loopback)

lemma normalize_itoa:
  assumes "1 \<le> p" "p \<le> 65535"
  shows "normalize_original_target (itoa p) = Ok (loopback p)"
proof -
  have "validate_original_port (itoa p) = None"
    using assms validate_dec_nat [of "nat p"] by (simp add: itoa_nonneg)
  then show ?thesis by (simp add: normalize_port) (simp add: loopback_def)
qed

lemma itoa_port_length: "1 \<le> p \<Longrightarrow> p \<le> 65535 \<Longrightarrow> length (itoa p) \<le> 65535"
  using dec_nat_length_le [of "nat p"] by (simp add: itoa_nonneg max_def split: if_splits)

section \<open>Properties\<close>

text \<open>C33. Typed strings survive a connection that takes the frame in arbitrarily small pieces: when
  the write loop reports success, the peer reads back exactly the string and the signal, and what
  follows the frame is left for the next read.\<close>

theorem typed_string_roundtrip:
  assumes "write_original_typed_string chunk_write w signal value = (None, w')"
  shows "read_original_typed_string (drop (length (out w)) (out w') @ rest) =
    Ok ((value, signal), rest)"
  using chunk.write_original_typed_string_ok [OF assms] by (simp add: frame_simps)

theorem typed_string_roundtrip_witness:
  "read_original_typed_string ([0x00, 0x06, 0x06, 0x73, 0x65, 0x63, 0x72, 0x65, 0x74] @ [1]) =
    Ok ((''secret'', original_signal_hello), [1])"
proof -
  define w where "w = \<lparr>chunks = [2, 1, 3], out = [7]\<rparr>"
  have "write_original_typed_string chunk_write w original_signal_hello ''secret'' =
    (None, \<lparr>chunks = [], out = 7 # [0x00, 0x06, 0x06, 0x73, 0x65, 0x63, 0x72, 0x65, 0x74]\<rparr>)"
    unfolding w_def by code_simp
  from typed_string_roundtrip [OF this, of "[1]"] show ?thesis by (simp add: w_def)
qed

text \<open>The encoding is canonical: every frame the reader accepts is the one the writer produces
  for the string and signal it returns, followed by the unread rest, and the string fits the
  16-bit length.\<close>

theorem typed_string_canonical:
  assumes "read_original_typed_string r = Ok ((value, signal), rest)"
  shows "r = typed_frame signal value @ rest \<and> length value \<le> 65535"
  using assms by (rule read_typed_string_Ok)

theorem typed_string_canonical_witness:
  "[0, 2, 0x10, 0x38, 0x30, 9] = typed_frame 0x10 ''80'' @ [9] \<and> length ''80'' \<le> 65535"
proof -
  have "read_original_typed_string [0, 2, 0x10, 0x38, 0x30, 9] = Ok ((''80'', 0x10), [9])"
    by code_simp
  then show ?thesis by (rule typed_string_canonical)
qed

text \<open>A connection that ends inside a frame is always an error: no proper prefix of a frame is
  read as a string.\<close>

theorem typed_string_truncated:
  assumes "length value \<le> 65535" "k < 3 + length value"
  shows "\<exists>e. read_original_typed_string (take k (typed_frame signal value)) = Err e"
proof (rule ccontr)
  let ?r = "take k (typed_frame signal value)"
  assume "\<not> ?thesis"
  then obtain v s rest where ok: "read_original_typed_string ?r = Ok ((v, s), rest)"
    by (cases "read_original_typed_string ?r") auto
  let ?more = "drop k (typed_frame signal value)"
  from read_typed_string_Ok [OF ok] have r: "?r = typed_frame s v @ rest" "length v \<le> 65535" by auto
  then have "typed_frame signal value = typed_frame s v @ (rest @ ?more)"
    by (metis append_assoc append_take_drop_id)
  then have "read_original_typed_string (typed_frame signal value @ []) =
      read_original_typed_string (typed_frame s v @ (rest @ ?more))" by (simp only: append_Nil2)
  then have "rest @ ?more = []" using assms(1) r(2) by (simp only: read_typed_frame) auto
  with assms(2) show False by simp
qed

theorem typed_string_truncated_witness:
  "\<exists>e. read_original_typed_string [0, 2, 0x10, 0x38] = Err e"
proof -
  have "take 4 (typed_frame 0x10 ''80'') = [0, 2, 0x10, 0x38]" by code_simp
  then show ?thesis using typed_string_truncated [of "''80''" 4 "0x10"] by simp
qed

text \<open>A loopback mapping travels as a bare decimal port and arrives as the same loopback target:
  the server's \<open>originalWireTarget\<close> and the client's \<open>normalizeOriginalTarget\<close> are inverse on
  every target that the mapping parser builds itself.\<close>

theorem loopback_target_roundtrip:
  assumes "1 \<le> p" "p \<le> 65535"
  shows "original_wire_target (loopback p) = itoa p \<and>
    normalize_original_target (original_wire_target (loopback p)) = Ok (loopback p)"
  using assms by (simp add: wire_loopback normalize_itoa)

theorem loopback_target_roundtrip_witness:
  "original_wire_target ''127.0.0.1:39082'' = ''39082'' \<and>
   normalize_original_target (original_wire_target ''127.0.0.1:39082'') = Ok ''127.0.0.1:39082''"
proof -
  have e: "loopback 39082 = ''127.0.0.1:39082''" "itoa 39082 = ''39082''" by code_simp+
  have "1 \<le> (39082 :: int)" "(39082 :: int) \<le> 65535" by simp_all
  from loopback_target_roundtrip [OF this] show ?thesis unfolding e .
qed

text \<open>What the client dials for an arbitrary \<open>host:port\<close> target of the server: a loopback name
  (also the IPv6 one and the empty host) becomes \<open>127.0.0.1\<close> with the same port, any other host is
  kept as it is.\<close>

theorem wire_target_translation:
  assumes "split_host_port (trim_space t) = Some (h, p)" "validate_original_port p = None"
  shows "normalize_original_target (original_wire_target t) =
    Ok (if h \<in> set loopback_names then ''127.0.0.1:'' @ p else trim_space t)"
proof (cases "h \<in> set loopback_names")
  case True
  with assms show ?thesis by (simp add: original_wire_target_split normalize_port)
next
  case False
  then have "h \<noteq> []" by (auto simp: loopback_names_def)
  with False assms show ?thesis
    by (simp add: original_wire_target_split normalize_host_port)
qed

theorem wire_target_translation_witness:
  "normalize_original_target (original_wire_target ''[::1]:8080'') = Ok ''127.0.0.1:8080''"
proof -
  have "split_host_port (trim_space ''[::1]:8080'') = Some (''::1'', ''8080'')"
    "validate_original_port ''8080'' = None" by code_simp+
  from wire_target_translation [OF this] show ?thesis by (simp add: loopback_names_def)
qed

text \<open>The mapping parser accepts targets that no client will ever dial: a target whose last
  colon is followed by a valid port but that is not in \<open>host:port\<close> form (an IPv6 address without
  brackets) passes \<open>ParseMappings\<close> and is refused by the client for every connection.\<close>

theorem unsplittable_target_refused:
  assumes "valid_target t" "split_host_port t = None"
  shows "\<exists>e. normalize_original_target (original_wire_target t) = Err e"
proof -
  have t: "trim_space t = t" "CHR '':'' \<in> set t" using assms(1) by (auto simp: valid_target_def)
  have w: "original_wire_target t = t" using assms(2) t by (simp add: original_wire_target_def)
  show ?thesis
  proof (cases "prefix '':'' t")
    case True
    then obtain u where u: "t = CHR '':'' # u" by (auto simp: prefix_def)
    have "validate_original_port u \<noteq> None"
    proof
      assume "validate_original_port u = None"
      then have "split_host_port ([] @ CHR '':'' # u) = Some ([], u)"
        by (intro split_host_port_name) (auto simp: valid_port_plain plain_host_def)
      with assms(2) u show False by simp
    qed
    with t u show ?thesis
      unfolding w by (auto simp: normalize_original_target_def trim_prefix_def Let_def)
  next
    case False
    with t assms(2) show ?thesis
      unfolding w by (auto simp: normalize_original_target_def Let_def)
  qed
qed

theorem unsplittable_target_refused_witness:
  "parse_mappings [''8080=::1:80''] =
      Ok [\<lparr>ListenAddr = ''0.0.0.0:8080'', TargetAddr = ''::1:80''\<rparr>] \<and>
   (\<exists>e. normalize_original_target (original_wire_target ''::1:80'') = Err e)"
proof -
  have "parse_mappings [''8080=::1:80''] =
      Ok [\<lparr>ListenAddr = ''0.0.0.0:8080'', TargetAddr = ''::1:80''\<rparr>]" by code_simp
  moreover have "valid_target ''::1:80''" "split_host_port ''::1:80'' = None" by code_simp+
  ultimately show ?thesis using unsplittable_target_refused by blast
qed

end
