(* ===== verification/Transport.thy ===== *)
theory Transport
  imports Go_Net Orig_Wire
begin

text \<open>
  Transports and addresses of \<open>internal/tunnel/runner.go\<close>: the transport names and what each selects
  (\<open>parseTransport\<close>), the endpoint the server opens for a kind (\<open>acceptControl\<close>) and the one the client
  dials (\<open>dialControlConn\<close>), and the address conversions (\<open>withDefaultPort\<close>, the HTTP, gRPC and
  websocket targets, \<open>extractHost\<close>). \<open>url.Parse\<close> and the printing of a URL are parameters: of a
  parsed URL the code uses the host, the path and the printed form.
\<close>

section \<open>Transport names\<close>

record transport_kind =
  tk_ws :: bool
  tk_http :: bool
  tk_grpc :: bool
  tk_kcp :: bool
  tk_tls :: bool
  tk_mux :: bool
  tk_slip :: bool
  tk_udp :: bool
  tk_dns :: bool

definition plain_kind :: transport_kind where
  "plain_kind =
     \<lparr>tk_ws = False, tk_http = False, tk_grpc = False, tk_kcp = False, tk_tls = False,
      tk_mux = False, tk_slip = False, tk_udp = False, tk_dns = False\<rparr>"

text \<open>The cases of the \<open>switch\<close>, in its order.\<close>

definition transport_cases :: "(string list \<times> transport_kind) list" where
  "transport_cases =
     [(['''', ''tcp''], plain_kind),
      ([''kcp''], plain_kind\<lparr>tk_kcp := True\<rparr>),
      ([''kcpmux'', ''xkcpmux''], plain_kind\<lparr>tk_kcp := True, tk_mux := True\<rparr>),
      ([''grpc''], plain_kind\<lparr>tk_grpc := True\<rparr>),
      ([''grpcs''], plain_kind\<lparr>tk_grpc := True, tk_tls := True\<rparr>),
      ([''grpcmux'', ''xgrpcmux''], plain_kind\<lparr>tk_grpc := True, tk_mux := True\<rparr>),
      ([''grpcsmux'', ''xgrpcsmux''], plain_kind\<lparr>tk_grpc := True, tk_tls := True, tk_mux := True\<rparr>),
      ([''http''], plain_kind\<lparr>tk_http := True\<rparr>),
      ([''https''], plain_kind\<lparr>tk_http := True, tk_tls := True\<rparr>),
      ([''httpmux'', ''xhttpmux''], plain_kind\<lparr>tk_http := True, tk_mux := True\<rparr>),
      ([''httpsmux'', ''xhttpsmux''], plain_kind\<lparr>tk_http := True, tk_tls := True, tk_mux := True\<rparr>),
      ([''udp''], plain_kind\<lparr>tk_udp := True\<rparr>),
      ([''udpmux'', ''xudpmux''], plain_kind\<lparr>tk_udp := True, tk_mux := True\<rparr>),
      ([''dns''], plain_kind\<lparr>tk_udp := True, tk_dns := True\<rparr>),
      ([''dnsmux'', ''xdnsmux''], plain_kind\<lparr>tk_udp := True, tk_dns := True, tk_mux := True\<rparr>),
      ([''slipstream'', ''slip'', ''sstream''], plain_kind\<lparr>tk_slip := True\<rparr>),
      ([''slipstreammux'', ''slipmux'', ''sstreammux''], plain_kind\<lparr>tk_slip := True, tk_mux := True\<rparr>),
      ([''raw'', ''rawsocket'', ''socketraw''], plain_kind),
      ([''tun''], plain_kind\<lparr>tk_mux := True\<rparr>),
      ([''anytls''], plain_kind\<lparr>tk_tls := True\<rparr>),
      ([''tcpmux'', ''xtcpmux''], plain_kind\<lparr>tk_mux := True\<rparr>),
      ([''ws''], plain_kind\<lparr>tk_ws := True\<rparr>),
      ([''wss''], plain_kind\<lparr>tk_ws := True, tk_tls := True\<rparr>),
      ([''wsmux'', ''xwsmux''], plain_kind\<lparr>tk_ws := True, tk_mux := True\<rparr>),
      ([''wssmux''], plain_kind\<lparr>tk_ws := True, tk_tls := True, tk_mux := True\<rparr>)]"

definition parse_transport :: "string \<Rightarrow> (string, transport_kind) result" where
  "parse_transport raw =
     (let t = to_lower (trim_space raw)
      in case find (\<lambda>(names, kind). t \<in> set names) transport_cases of
           Some (names, kind) \<Rightarrow> Ok kind
         | None \<Rightarrow> Err (''unsupported transport type: '' @ raw))"

definition validate_transport :: "string \<Rightarrow> string option" where
  "validate_transport raw = (case parse_transport raw of Inl e \<Rightarrow> Some e | Inr _ \<Rightarrow> None)"

section \<open>Endpoints\<close>

text \<open>What carries a control connection, whether TLS runs below it and the slipstream wrapper above it,
  and the address it is opened at.\<close>

datatype carrier = Carrier_WS | Carrier_GRPC | Carrier_HTTP | Carrier_KCP | Carrier_UDP | Carrier_TCP

record endpoint =
  ep_carrier :: carrier
  ep_tls :: bool
  ep_slip :: bool
  ep_addr :: string

text \<open>\<open>withDefaultPort\<close>.\<close>

definition with_default_port :: "string \<Rightarrow> string \<Rightarrow> string" where
  "with_default_port addr default_port =
     (if addr = [] then '':'' @ default_port
      else if split_host_port addr \<noteq> None then addr
      else if prefix '':'' addr then addr
      else if count_list addr CHR '':'' > 1 \<and> \<not> prefix ''['' addr
      then ''['' @ addr @ '']:'' @ default_port
      else addr @ '':'' @ default_port)"

text \<open>The listener that \<open>acceptControl\<close> opens; a TLS carrier without certificate or key is an error.
  The listeners of KCP and UDP know no TLS, the HTTP servers do not wrap in slipstream.\<close>

definition accept_endpoint ::
  "string \<Rightarrow> string \<Rightarrow> string \<Rightarrow> transport_kind \<Rightarrow> (string, endpoint) result" where
  "accept_endpoint bind_addr tls_cert tls_key kind =
     (let no_cert = tk_tls kind \<and> (tls_cert = [] \<or> tls_key = []) in
      if tk_ws kind then
        (if no_cert then Err ''wss/wssmux requires tls_cert and tls_key''
         else Ok \<lparr>ep_carrier = Carrier_WS, ep_tls = tk_tls kind, ep_slip = False, ep_addr = bind_addr\<rparr>)
      else if tk_grpc kind then
        (if no_cert then Err ''grpcs/grpcsmux requires tls_cert and tls_key''
         else Ok \<lparr>ep_carrier = Carrier_GRPC, ep_tls = tk_tls kind, ep_slip = False, ep_addr = bind_addr\<rparr>)
      else if tk_http kind then
        (if no_cert then Err ''https/httpsmux requires tls_cert and tls_key''
         else Ok \<lparr>ep_carrier = Carrier_HTTP, ep_tls = tk_tls kind, ep_slip = False, ep_addr = bind_addr\<rparr>)
      else if tk_kcp kind then
        Ok \<lparr>ep_carrier = Carrier_KCP, ep_tls = False, ep_slip = tk_slip kind, ep_addr = bind_addr\<rparr>
      else if tk_udp kind then
        Ok \<lparr>ep_carrier = Carrier_UDP, ep_tls = False, ep_slip = tk_slip kind,
            ep_addr = (if tk_dns kind then with_default_port bind_addr ''53'' else bind_addr)\<rparr>
      else
        (if no_cert then Err ''anytls requires tls_cert and tls_key''
         else Ok \<lparr>ep_carrier = Carrier_TCP, ep_tls = tk_tls kind, ep_slip = tk_slip kind,
                 ep_addr = bind_addr\<rparr>))"

text \<open>Of a parsed URL: the host, the path, and the URL printed after its path was set.\<close>

record parsed_url =
  url_Host :: string
  url_Path :: string
  url_String :: "string \<Rightarrow> string"

type_synonym url_parser = "string \<Rightarrow> (string, parsed_url) result"

definition resolve_http_control_host_port ::
  "url_parser \<Rightarrow> string \<Rightarrow> bool \<Rightarrow> (string, string) result" where
  "resolve_http_control_host_port url_parse remote secure =
     (if prefix ''http://'' remote \<or> prefix ''https://'' remote then
        (case url_parse remote of
           Inl e \<Rightarrow> Err e
         | Inr u \<Rightarrow>
             if url_Host u = [] then Err (''invalid remote_addr for http: '' @ remote)
             else if split_host_port (url_Host u) = None then
               (if secure then Ok (join_host_port (url_Host u) ''443'')
                else Ok (join_host_port (url_Host u) ''80''))
             else Ok (url_Host u))
      else if split_host_port remote \<noteq> None then Ok remote
      else if secure then Ok (with_default_port remote ''443'')
      else Ok (with_default_port remote ''80''))"

definition resolve_grpc_target ::
  "url_parser \<Rightarrow> string \<Rightarrow> bool \<Rightarrow> (string, string) result" where
  "resolve_grpc_target url_parse remote secure =
     (if prefix ''grpc://'' remote \<or> prefix ''grpcs://'' remote then
        (case url_parse remote of
           Inl e \<Rightarrow> Err e
         | Inr u \<Rightarrow>
             if url_Host u = [] then Err (''invalid remote_addr for grpc: '' @ remote)
             else if split_host_port (url_Host u) \<noteq> None then Ok (url_Host u)
             else if secure then Ok (join_host_port (url_Host u) ''443'')
             else Ok (join_host_port (url_Host u) ''80''))
      else if split_host_port remote \<noteq> None then Ok remote
      else if secure then Ok (with_default_port remote ''443'')
      else Ok (with_default_port remote ''80''))"

definition build_websocket_url :: "url_parser \<Rightarrow> string \<Rightarrow> bool \<Rightarrow> (string, string) result" where
  "build_websocket_url url_parse addr secure =
     (if prefix ''ws://'' addr \<or> prefix ''wss://'' addr then
        (case url_parse addr of
           Inl e \<Rightarrow> Err e
         | Inr u \<Rightarrow> Ok (url_String u (if url_Path u = [] then ''/'' else url_Path u)))
      else
        (let scheme = (if secure then ''wss'' else ''ws'') in
         case url_parse (scheme @ ''://'' @ addr) of
           Inl e \<Rightarrow> Err e
         | Inr u \<Rightarrow>
             if url_Host u = [] then Err (''invalid remote_addr for websocket: '' @ addr)
             else Ok (url_String u (if url_Path u = [] then ''/'' else url_Path u))))"

definition extract_host :: "url_parser \<Rightarrow> string \<Rightarrow> string" where
  "extract_host url_parse addr =
     (let h = (if sublist ''://'' addr
               then (case url_parse addr of Inl _ \<Rightarrow> addr | Inr u \<Rightarrow> url_Host u)
               else addr)
      in case split_host_port h of Some (host, _) \<Rightarrow> host | None \<Rightarrow> h)"

text \<open>The endpoint that \<open>dialControlConn\<close> dials, with the server name TLS announces. The wrapping in
  slipstream is common to all carriers here. The websocket dial uses the URL's host as it is.\<close>

definition tls_sni :: "url_parser \<Rightarrow> string \<Rightarrow> string \<Rightarrow> string" where
  "tls_sni url_parse server_name addr =
     (if server_name = [] then extract_host url_parse addr else server_name)"

definition dial_endpoint ::
  "url_parser \<Rightarrow> string \<Rightarrow> string \<Rightarrow> transport_kind \<Rightarrow> (string, endpoint \<times> string option) result" where
  "dial_endpoint url_parse remote_addr server_name kind =
     (let ep = (\<lambda>c tls addr.
            (\<lparr>ep_carrier = c, ep_tls = tls, ep_slip = tk_slip kind, ep_addr = addr\<rparr>,
             if tls then Some (tls_sni url_parse server_name addr) else None))
      in
      if tk_ws kind then
        (case build_websocket_url url_parse remote_addr (tk_tls kind) of
           Inl e \<Rightarrow> Err e
         | Inr u \<Rightarrow>
             (case url_parse u of
                Inl e \<Rightarrow> Err e
              | Inr parsed \<Rightarrow> Ok (ep Carrier_WS (tk_tls kind) (url_Host parsed))))
      else if tk_grpc kind then
        (case resolve_grpc_target url_parse remote_addr (tk_tls kind) of
           Inl e \<Rightarrow> Err e
         | Inr target \<Rightarrow> Ok (ep Carrier_GRPC (tk_tls kind) target))
      else if tk_http kind then
        (case resolve_http_control_host_port url_parse remote_addr (tk_tls kind) of
           Inl e \<Rightarrow> Err e
         | Inr host_port \<Rightarrow> Ok (ep Carrier_HTTP (tk_tls kind) host_port))
      else if tk_kcp kind then Ok (ep Carrier_KCP False remote_addr)
      else if tk_udp kind then
        Ok (ep Carrier_UDP False
              (if tk_dns kind then with_default_port remote_addr ''53'' else remote_addr))
      else Ok (ep Carrier_TCP (tk_tls kind) remote_addr))"

section \<open>Names and kinds\<close>

text \<open>The names the documentation lists.\<close>

definition accepted_names :: "string list" where
  "accepted_names =
     [''tcp'', ''kcp'', ''kcpmux'', ''xkcpmux'', ''grpc'', ''grpcs'', ''grpcmux'', ''xgrpcmux'',
      ''grpcsmux'', ''xgrpcsmux'', ''http'', ''https'', ''httpmux'', ''xhttpmux'', ''httpsmux'',
      ''xhttpsmux'', ''udp'', ''udpmux'', ''xudpmux'', ''dns'', ''dnsmux'', ''xdnsmux'',
      ''slipstream'', ''slip'', ''sstream'', ''slipstreammux'', ''slipmux'', ''sstreammux'',
      ''raw'', ''rawsocket'', ''socketraw'', ''tun'', ''anytls'', ''tcpmux'', ''xtcpmux'',
      ''ws'', ''wss'', ''wsmux'', ''xwsmux'', ''wssmux'']"

lemma parse_transport_case:
  assumes "parse_transport raw = Ok kind"
  obtains names where "(names, kind) \<in> set transport_cases" "to_lower (trim_space raw) \<in> set names"
proof -
  from assms obtain names where
    "find (\<lambda>(names, kind). to_lower (trim_space raw) \<in> set names) transport_cases = Some (names, kind)"
    by (auto simp: parse_transport_def Let_def split: option.splits)
  then have "(names, kind) \<in> set transport_cases" "to_lower (trim_space raw) \<in> set names"
    by (auto simp: find_Some_iff) (metis nth_mem)+
  then show ?thesis by (rule that)
qed

lemma parse_transport_Inr_iff:
  "(\<exists>kind. parse_transport raw = Ok kind) \<longleftrightarrow>
   to_lower (trim_space raw) \<in> set (concat (map fst transport_cases))"
proof -
  have "(\<exists>kind. parse_transport raw = Ok kind) \<longleftrightarrow>
      find (\<lambda>(names, kind). to_lower (trim_space raw) \<in> set names) transport_cases \<noteq> None"
    by (auto simp: parse_transport_def Let_def split: option.splits)
  also have "\<dots> \<longleftrightarrow> to_lower (trim_space raw) \<in> set (concat (map fst transport_cases))"
    by (auto simp: find_None_iff) force
  finally show ?thesis .
qed

lemma case_names: "set (concat (map fst transport_cases)) = insert '''' (set accepted_names)"
  unfolding transport_cases_def accepted_names_def by auto

text \<open>What every kind of the table satisfies.\<close>

definition kind_ok :: "transport_kind \<Rightarrow> bool" where
  "kind_ok k \<longleftrightarrow>
     length (filter (\<lambda>b. b) [tk_ws k, tk_http k, tk_grpc k, tk_kcp k, tk_udp k]) \<le> 1 \<and>
     (tk_dns k \<longrightarrow> tk_udp k) \<and>
     (tk_tls k \<longrightarrow> \<not> tk_kcp k \<and> \<not> tk_udp k) \<and>
     (tk_slip k \<longrightarrow> \<not> tk_ws k \<and> \<not> tk_http k \<and> \<not> tk_grpc k \<and> \<not> tk_kcp k \<and> \<not> tk_udp k \<and> \<not> tk_tls k)"

lemma kinds_ok: "list_all (\<lambda>(names, k). kind_ok k) transport_cases"
  unfolding transport_cases_def plain_kind_def kind_ok_def by simp

lemma parse_transport_kind_ok: "parse_transport raw = Ok kind \<Longrightarrow> kind_ok kind"
  using kinds_ok by (elim parse_transport_case) (auto simp: list_all_iff)

text \<open>Every transport name the documentation lists is accepted, in any case and with any white space
  around it, so is the empty name, and nothing else is; \<open>ValidateTransport\<close> agrees, and the list
  has forty different names.\<close>

theorem parse_transport_names:
  "((\<exists>kind. parse_transport raw = Ok kind) \<longleftrightarrow>
      to_lower (trim_space raw) \<in> insert '''' (set accepted_names)) \<and>
   (validate_transport raw = None \<longleftrightarrow> to_lower (trim_space raw) \<in> insert '''' (set accepted_names)) \<and>
   distinct accepted_names \<and> length accepted_names = 40"
proof (intro conjI)
  show acc: "(\<exists>kind. parse_transport raw = Ok kind) \<longleftrightarrow>
      to_lower (trim_space raw) \<in> insert '''' (set accepted_names)"
    by (simp only: parse_transport_Inr_iff case_names)
  have "validate_transport raw = None \<longleftrightarrow> (\<exists>kind. parse_transport raw = Ok kind)"
    by (cases "parse_transport raw") (simp_all add: validate_transport_def)
  with acc show "validate_transport raw = None \<longleftrightarrow>
      to_lower (trim_space raw) \<in> insert '''' (set accepted_names)" by simp
  show "distinct accepted_names" "length accepted_names = 40"
    unfolding accepted_names_def by simp_all
qed



section \<open>Endpoints of the two sides\<close>

text \<open>C23. For every transport name, the endpoint the server opens and the one the client dials use the same
  carrier, TLS on both sides or on neither, and the slipstream wrapper on both sides or on neither;
  the client sends a server name exactly when there is TLS.\<close>

theorem endpoints_agree:
  assumes "parse_transport raw = Ok kind"
    and "accept_endpoint bind_addr tls_cert tls_key kind = Ok server"
    and "dial_endpoint url_parse remote_addr server_name kind = Ok (client, sni)"
  shows "ep_carrier server = ep_carrier client \<and> ep_tls server = ep_tls client \<and>
    ep_slip server = ep_slip client \<and> (sni \<noteq> None \<longleftrightarrow> ep_tls server)"
  using parse_transport_kind_ok [OF assms(1)] assms(2,3)
  by (auto simp: accept_endpoint_def dial_endpoint_def kind_ok_def Let_def
      split: if_splits sum.splits)

theorem endpoints_agree_witness:
  "accept_endpoint '':443'' ''c.pem'' ''k.pem'' (plain_kind\<lparr>tk_grpc := True, tk_tls := True\<rparr>) =
     Ok \<lparr>ep_carrier = Carrier_GRPC, ep_tls = True, ep_slip = False, ep_addr = '':443''\<rparr> \<and>
   ep_carrier \<lparr>ep_carrier = Carrier_GRPC, ep_tls = True, ep_slip = False, ep_addr = '':443''\<rparr> =
   ep_carrier \<lparr>ep_carrier = Carrier_GRPC, ep_tls = True, ep_slip = False, ep_addr = ''host:443''\<rparr>"
proof -
  have k: "parse_transport ''grpcs'' = Ok (plain_kind\<lparr>tk_grpc := True, tk_tls := True\<rparr>)" by code_simp
  have a: "accept_endpoint '':443'' ''c.pem'' ''k.pem'' (plain_kind\<lparr>tk_grpc := True, tk_tls := True\<rparr>) =
      Ok \<lparr>ep_carrier = Carrier_GRPC, ep_tls = True, ep_slip = False, ep_addr = '':443''\<rparr>" by code_simp
  have d: "dial_endpoint (\<lambda>_. Err ''no url'') ''host'' '''' (plain_kind\<lparr>tk_grpc := True, tk_tls := True\<rparr>) =
      Ok (\<lparr>ep_carrier = Carrier_GRPC, ep_tls = True, ep_slip = False, ep_addr = ''host:443''\<rparr>, Some ''host'')"
    by code_simp
  from endpoints_agree [OF k a d] a show ?thesis by blast
qed

section \<open>Default ports\<close>

lemma plain_host_no_bracket [simp]: "plain_host s \<Longrightarrow> \<not> prefix ''['' s"
  by (auto simp: plain_host_def prefix_def)

lemma split_host_port_many_colons:
  assumes "plain_host addr" "count_list addr CHR '':'' > 1"
  shows "split_host_port addr = None"
proof (rule ccontr)
  assume "split_host_port addr \<noteq> None"
  then obtain h p where sp: "split_host_port addr = Some (h, p)" by auto
  then obtain a where addr: "addr = a @ CHR '':'' # p" "CHR '':'' \<notin> set p"
    by (rule split_host_port_port)
  with assms have "CHR '':'' \<in> set a" by (metis add.right_neutral add_0 count_list.simps(2)
        count_list_0_iff count_list_append less_numeral_extra(4) One_nat_def)
  moreover have "hd addr \<noteq> CHR ''[''"
    using assms addr by (cases a) (auto simp: plain_host_def)
  moreover have "last_index_char CHR '':'' addr = Some (length a)"
    using last_index_char_append [OF addr(2), of a] addr(1) by simp
  ultimately show False
    using sp addr(1) by (simp add: split_host_port_def Let_def)
qed

lemma one_colon:
  assumes "CHR '':'' \<in> set addr" "\<not> count_list addr CHR '':'' > 1"
  obtains a b where "addr = a @ CHR '':'' # b" "CHR '':'' \<notin> set a" "CHR '':'' \<notin> set b"
proof -
  from assms obtain a b where addr: "addr = a @ CHR '':'' # b" "CHR '':'' \<notin> set a"
    by (meson split_list_first)
  with assms(2) have "count_list b CHR '':'' = 0" by simp
  then have "CHR '':'' \<notin> set b" by (simp add: count_list_0_iff)
  with addr that show ?thesis by blast
qed

lemma plain_host_parts:
  "plain_host (a @ CHR '':'' # b) \<Longrightarrow> CHR '':'' \<notin> set b \<Longrightarrow> plain_host a \<and> plain_port b"
  by (auto simp: plain_host_def plain_port_def)

lemma with_default_port_split:
  assumes "plain_host addr" "plain_port port"
  shows "split_host_port (with_default_port addr port) =
    (if prefix '':'' addr \<and> count_list addr CHR '':'' > 1 then None
     else if CHR '':'' \<notin> set addr \<or> count_list addr CHR '':'' > 1 then Some (addr, port)
     else split_host_port addr)"
proof (cases "CHR '':'' \<in> set addr")
  case False
  then show ?thesis
    using assms split_host_port_name [OF False assms] split_host_port_name [of "[]" port]
    by (auto simp: with_default_port_def count_list_0_iff prefix_def plain_host_def)
next
  case True
  show ?thesis
  proof (cases "count_list addr CHR '':'' > 1")
    case many: True
    then show ?thesis
      using True split_host_port_many_colons [OF assms(1) many] split_host_port_bracket [OF assms] assms
      by (auto simp: with_default_port_def)
  next
    case False
    from one_colon [OF True this] obtain a b where
      "addr = a @ CHR '':'' # b" "CHR '':'' \<notin> set a" "CHR '':'' \<notin> set b" .
    with False assms plain_host_parts show ?thesis by (simp add: with_default_port_def)
  qed
qed

text \<open>For an address without brackets and a port without separators, \<open>withDefaultPort\<close> is idempotent,
  leaves an address alone that has a port, and gives an address that can be split, with one
  exception: an address of two or more colons that starts with one (such as \<open>::1\<close>) stays without port.\<close>

theorem with_default_port_completes:
  assumes "plain_host addr" "plain_port port"
  shows "with_default_port (with_default_port addr port) port = with_default_port addr port \<and>
    (split_host_port addr \<noteq> None \<longrightarrow> with_default_port addr port = addr) \<and>
    (split_host_port (with_default_port addr port) = None \<longleftrightarrow>
       prefix '':'' addr \<and> count_list addr CHR '':'' > 1)"
proof (intro conjI)
  show split: "split_host_port (with_default_port addr port) = None \<longleftrightarrow>
      prefix '':'' addr \<and> count_list addr CHR '':'' > 1"
  proof (cases "CHR '':'' \<in> set addr \<and> \<not> count_list addr CHR '':'' > 1")
    case True
    then obtain a b where "addr = a @ CHR '':'' # b" "CHR '':'' \<notin> set a" "CHR '':'' \<notin> set b"
      using one_colon by blast
    with True assms(1) plain_host_parts have "split_host_port addr \<noteq> None" by simp
    with True show ?thesis by (simp add: with_default_port_split [OF assms])
  qed (auto simp: with_default_port_split [OF assms])
  show keep: "split_host_port addr \<noteq> None \<longrightarrow> with_default_port addr port = addr"
    by (auto simp: with_default_port_def)
  show "with_default_port (with_default_port addr port) port = with_default_port addr port"
  proof (cases "split_host_port (with_default_port addr port) = None")
    case True
    with split have "prefix '':'' addr" "addr \<noteq> []" by auto
    then show ?thesis by (simp add: with_default_port_def)
  next
    case False
    then show ?thesis
      using with_default_port_def [of "with_default_port addr port" port]
      by (cases "with_default_port addr port = []") auto
  qed
qed

theorem with_default_port_completes_witness:
  "with_default_port ''::1'' ''53'' = ''::1'' \<and> split_host_port ''::1'' = None \<and>
   with_default_port ''fe80::1'' ''53'' = ''[fe80::1]:53''"
proof -
  have "split_host_port (with_default_port ''::1'' ''53'') = None"
    using with_default_port_completes [of "''::1''" "''53''"]
    by (simp add: plain_host_def plain_port_def)
  moreover have "with_default_port ''::1'' ''53'' = ''::1''" by code_simp
  moreover have "with_default_port ''fe80::1'' ''53'' = ''[fe80::1]:53''" by code_simp
  ultimately show ?thesis by simp
qed

text \<open>The target of an HTTP dial: an address with a port is dialled as it is; a URL whose host is an
  IPv6 literal in brackets without port is joined with a second pair of brackets, an address that
  cannot be split, so the dial fails; \<open>resolveGRPCTarget\<close> does the same.\<close>

theorem bracketed_url_host:
  assumes "url_parse remote = Ok u" "url_Host u = ''['' @ h @ '']''"
    and "CHR '':'' \<in> set h" "plain_host h"
  shows "(prefix ''http://'' remote \<longrightarrow>
      resolve_http_control_host_port url_parse remote secure =
        Ok (''[['' @ h @ '']]:'' @ (if secure then ''443'' else ''80''))) \<and>
    (prefix ''grpc://'' remote \<longrightarrow>
      resolve_grpc_target url_parse remote secure =
        Ok (''[['' @ h @ '']]:'' @ (if secure then ''443'' else ''80''))) \<and>
    split_host_port (''[['' @ h @ '']]:'' @ (if secure then ''443'' else ''80'')) = None"
proof -
  have e: "index_char CHR '']'' (''['' @ h @ '']'') = Some (Suc (length h))"
    using index_char_append [of "CHR '']''" "CHR ''['' # h" "[]"] assms(4) by (simp add: plain_host_def)
  have none: "split_host_port (''['' @ h @ '']'') = None"
  proof -
    have "hd (''['' @ h @ '']'') = CHR ''[''" by simp
    with e show ?thesis
      by (simp add: split_host_port_def split: option.splits)
  qed
  have join: "join_host_port (''['' @ h @ '']'') p = ''[['' @ h @ '']]:'' @ p" for p
    using assms(3) by (simp add: join_host_port_def)
  have e2: "index_char CHR '']'' (''[['' @ h @ '']]:'' @ p) = Some (Suc (Suc (length h)))" for p
    using index_char_append [of "CHR '']''" "''[['' @ h" "'']:'' @ p"] assms(4) by (simp add: plain_host_def)
  have none2: "split_host_port (''[['' @ h @ '']]:'' @ p) = None" if "CHR '':'' \<notin> set p" for p
    using last_index_char_append [OF that, of "''[['' @ h @ '']]''"] e2 [of p]
    by (simp add: split_host_port_def)
  show ?thesis
    using assms(1,2) none join none2
    by (auto simp: resolve_http_control_host_port_def resolve_grpc_target_def)
qed

theorem bracketed_url_host_witness:
  "resolve_http_control_host_port
     (\<lambda>s. Ok \<lparr>url_Host = ''[::1]'', url_Path = '''', url_String = (\<lambda>p. s @ p)\<rparr>) ''http://[::1]'' True =
   Ok ''[[::1]]:443'' \<and> split_host_port ''[[::1]]:443'' = None"
  using bracketed_url_host [of
      "\<lambda>s. Ok \<lparr>url_Host = ''[::1]'', url_Path = '''', url_String = (\<lambda>p. s @ p)\<rparr>" "''http://[::1]''"
      "\<lparr>url_Host = ''[::1]'', url_Path = '''', url_String = (\<lambda>p. ''http://[::1]'' @ p)\<rparr>" "''::1''" True]
  by (simp add: plain_host_def)

text \<open>The websocket dial adds no default port: a URL without port is dialled as a bare host, which
  cannot be split, while the HTTP dial of the same host gets a port.\<close>

theorem ws_dial_without_port:
  assumes "tk_ws kind"
    and "build_websocket_url url_parse remote_addr (tk_tls kind) = Ok url"
    and "url_parse url = Ok u" "CHR '':'' \<notin> set (url_Host u)"
  shows "\<exists>ep sni. dial_endpoint url_parse remote_addr server_name kind = Ok (ep, sni) \<and>
    ep_addr ep = url_Host u \<and> split_host_port (ep_addr ep) = None"
  using assms by (auto simp: dial_endpoint_def)

end
