(* ===== verification/Go_Chan.thy ===== *)
theory Go_Chan
  imports Go_IO
begin

text \<open>
  Buffered Go channels, and the contract of a byte stream that is filled by one party and drained by
  another. The components use channels for their queues (workers, accepted streams, packets); a
  \<open>select\<close> with a \<open>default\<close> branch is \<open>try_send\<close>. Sending on a closed channel panics, also inside
  such a \<open>select\<close>.
\<close>

section \<open>Channels\<close>

record 'a chan =
  queue :: "'a list"
  capacity :: nat
  chan_closed :: bool

definition make_chan :: "nat \<Rightarrow> 'a chan" where
  "make_chan n = \<lparr>queue = [], capacity = n, chan_closed = False\<rparr>"

datatype 'a send_result = Sent "'a chan" | Send_Blocks | Send_Panics

definition try_send :: "'a chan \<Rightarrow> 'a \<Rightarrow> 'a send_result" where
  "try_send c x =
     (if chan_closed c then Send_Panics
      else if length (queue c) < capacity c then Sent (c\<lparr>queue := queue c @ [x]\<rparr>)
      else Send_Blocks)"

datatype 'a recv_result = Received 'a "'a chan" | Recv_Blocks | Recv_Closed

definition try_recv :: "'a chan \<Rightarrow> 'a recv_result" where
  "try_recv c =
     (case queue c of
        x # xs \<Rightarrow> Received x (c\<lparr>queue := xs\<rparr>)
      | [] \<Rightarrow> if chan_closed c then Recv_Closed else Recv_Blocks)"

text \<open>\<open>close(ch)\<close>, called at most once (under a \<open>sync.Once\<close> or an atomic swap).\<close>

definition chan_close :: "'a chan \<Rightarrow> 'a chan" where
  "chan_close c = c\<lparr>chan_closed := True\<rparr>"

definition chan_ok :: "'a chan \<Rightarrow> bool" where
  "chan_ok c \<longleftrightarrow> length (queue c) \<le> capacity c"

lemma chan_ok_make [simp]: "chan_ok (make_chan n)"
  by (simp add: chan_ok_def make_chan_def)

lemma chan_ok_send: "chan_ok c \<Longrightarrow> try_send c x = Sent c' \<Longrightarrow> chan_ok c'"
  by (auto simp: chan_ok_def try_send_def split: if_splits)

lemma chan_ok_recv: "chan_ok c \<Longrightarrow> try_recv c = Received x c' \<Longrightarrow> chan_ok c'"
  by (auto simp: chan_ok_def try_recv_def split: list.splits if_splits)

lemma chan_ok_close [simp]: "chan_ok (chan_close c) = chan_ok c"
  by (simp add: chan_ok_def chan_close_def)

lemma chan_close_simps [simp]:
  "queue (chan_close c) = queue c" "capacity (chan_close c) = capacity c"
  "chan_closed (chan_close c)"
  by (simp_all add: chan_close_def)

lemma make_chan_simps [simp]:
  "queue (make_chan n) = []" "capacity (make_chan n) = n" "\<not> chan_closed (make_chan n)"
  by (simp_all add: make_chan_def)

lemma try_send_conv:
  "try_send c x = Sent c' \<longleftrightarrow>
     \<not> chan_closed c \<and> length (queue c) < capacity c \<and> c' = c\<lparr>queue := queue c @ [x]\<rparr>"
  "try_send c x = Send_Blocks \<longleftrightarrow> \<not> chan_closed c \<and> capacity c \<le> length (queue c)"
  "try_send c x = Send_Panics \<longleftrightarrow> chan_closed c"
  by (auto simp: try_send_def)

section \<open>Byte streams\<close>

text \<open>
  The contract of the connections' read side: \<open>view\<close> is what has arrived and is not yet read,
  \<open>put\<close> the arrival of bytes (\<open>None\<close> if the connection refuses them), \<open>tau\<close> a step of a
  goroutine that moves bytes between buffers, \<open>get n\<close> a \<open>Read\<close> into a buffer of \<open>n\<close> bytes that
  returns at once. Whatever the order of arrivals, inner steps and reads, bytes come out in the
  order they came in, none twice and none skipped.
\<close>

datatype stream_event = Put bytes | Tau | Get nat

fun arrived :: "stream_event list \<Rightarrow> bytes" where
  "arrived [] = []"
| "arrived (Put p # es) = p @ arrived es"
| "arrived (Tau # es) = arrived es"
| "arrived (Get n # es) = arrived es"

text \<open>What the reads of a sequence of events return together, and the final state.\<close>

fun run_stream ::
  "('s \<Rightarrow> bytes \<Rightarrow> 's option) \<Rightarrow> ('s \<Rightarrow> 's) \<Rightarrow> (nat \<Rightarrow> 's \<Rightarrow> bytes \<times> 's) \<Rightarrow>
    stream_event list \<Rightarrow> 's \<Rightarrow> (bytes \<times> 's) option" where
  "run_stream put tau get [] s = Some ([], s)"
| "run_stream put tau get (Put p # es) s =
     (case put s p of None \<Rightarrow> None | Some s' \<Rightarrow> run_stream put tau get es s')"
| "run_stream put tau get (Tau # es) s = run_stream put tau get es (tau s)"
| "run_stream put tau get (Get n # es) s =
     (case get n s of (b, s') \<Rightarrow>
        (case run_stream put tau get es s' of None \<Rightarrow> None | Some (bs, s'') \<Rightarrow> Some (b @ bs, s'')))"

locale byte_stream =
  fixes view :: "'s \<Rightarrow> bytes"
    and put :: "'s \<Rightarrow> bytes \<Rightarrow> 's option"
    and tau :: "'s \<Rightarrow> 's"
    and get :: "nat \<Rightarrow> 's \<Rightarrow> bytes \<times> 's"
    and ok :: "'s \<Rightarrow> bool"
  assumes put_view: "ok s \<Longrightarrow> put s p = Some s' \<Longrightarrow> view s' = view s @ p \<and> ok s'"
    and tau_view: "ok s \<Longrightarrow> view (tau s) = view s \<and> ok (tau s)"
    and get_view: "ok s \<Longrightarrow> get n s = (b, s') \<Longrightarrow> view s = b @ view s' \<and> length b \<le> n \<and> ok s'"
begin

lemma run_fifo:
  "ok s \<Longrightarrow> run_stream put tau get es s = Some (bs, s') \<Longrightarrow>
    bs @ view s' = view s @ arrived es \<and> ok s'"
proof (induction es arbitrary: s bs)
  case Nil
  then show ?case by simp
next
  case (Cons e es)
  show ?case
  proof (cases e)
    case (Put p)
    with Cons show ?thesis by (fastforce split: option.splits dest: put_view)
  next
    case Tau
    with Cons.prems have "run_stream put tau get es (tau s) = Some (bs, s')" by simp
    with Cons.IH [of "tau s"] tau_view [OF Cons.prems(1)] Tau show ?thesis by simp
  next
    case (Get n)
    obtain b s1 where g: "get n s = (b, s1)" by (cases "get n s")
    with Cons.prems Get obtain cs where
      r: "run_stream put tau get es s1 = Some (cs, s')" "bs = b @ cs"
      by (auto split: option.splits prod.splits)
    have "ok s1" "view s = b @ view s1" using get_view [OF Cons.prems(1) g] by simp_all
    with Cons.IH [OF _ r(1)] r(2) Get show ?thesis by simp
  qed
qed

lemma reads_are_prefix:
  "ok s \<Longrightarrow> run_stream put tau get es s = Some (bs, s') \<Longrightarrow> prefix bs (view s @ arrived es)"
  using run_fifo by (metis prefixI)

end

text \<open>\<open>bytes.Buffer\<close>: what the connection types keep their unread bytes in.\<close>

definition buffer_read :: "nat \<Rightarrow> bytes \<Rightarrow> bytes \<times> bytes" where
  "buffer_read n buf = (take n buf, drop n buf)"

interpretation buffer: byte_stream "\<lambda>b. b" "\<lambda>b p. Some (b @ p)" "\<lambda>b. b" buffer_read "\<lambda>_. True"
  by unfold_locales (auto simp: buffer_read_def)

end
