(* ===== verification/Orig_Server.thy ===== *)
theory Orig_Server
  imports Orig_Wire Go_Chan
begin

text \<open>
  The server of the recovered TCP protocol, lines 122 to 326 of
  \<open>internal/tunnel/original_protocol.go\<close>: the control channel and its handshake, the worker queue,
  the heartbeat monitor and the acquisition of a worker for a public connection. Connections are
  Go pointers: the model keeps every accepted connection in a list, and \<open>control\<close>, the worker
  queue and the goroutines hold indices into it. An \<open>originalControl\<close> is made for one connection and
  never copied, so the index of its connection stands for it. \<open>handleAccepted\<close> runs in a goroutine
  of its own for each connection; its steps between two accesses to shared state are the steps of
  the model. Durations are nanoseconds.
\<close>

section \<open>State\<close>

text \<open>Where the goroutine of a connection stands: before the first look at \<open>control\<close>, waiting for
  \<open>handshakeMu\<close>, before the second look, reading the hello frame, writing the reply, calling
  \<open>setControl\<close>, or done.\<close>

datatype handler_pc = H_Check | H_Lock | H_Recheck | H_Read | H_Reply | H_Set | H_Exit

record server_state =
  srv_token :: string
  srv_readTimeout :: int
  srv_workers :: "nat chan"
  srv_handshakeMu :: "nat option"
  srv_control :: "nat option"
  srv_ctx_done :: bool
  srv_conns :: "net_conn list"
  srv_handlers :: "handler_pc list"

definition new_original_server_state :: "string \<Rightarrow> int \<Rightarrow> server_state" where
  "new_original_server_state token readTimeout =
     \<lparr>srv_token = token,
      srv_readTimeout = (if readTimeout \<le> 0 then 25 * 1000000000 else readTimeout),
      srv_workers = make_chan 512, srv_handshakeMu = None, srv_control = None,
      srv_ctx_done = False, srv_conns = [], srv_handlers = []\<rparr>"

definition set_conn :: "nat \<Rightarrow> net_conn \<Rightarrow> server_state \<Rightarrow> server_state" where
  "set_conn c cn s = s\<lparr>srv_conns := (srv_conns s)[c := cn]\<rparr>"

definition close_conn :: "nat \<Rightarrow> server_state \<Rightarrow> server_state" where
  "close_conn c s = set_conn c (conn_close (srv_conns s ! c)) s"

definition goto :: "nat \<Rightarrow> handler_pc \<Rightarrow> server_state \<Rightarrow> server_state" where
  "goto c pc s = s\<lparr>srv_handlers := (srv_handlers s)[c := pc]\<rparr>"

text \<open>The deferred \<open>handshakeMu.Unlock()\<close> and the return.\<close>

definition release :: "nat \<Rightarrow> server_state \<Rightarrow> server_state" where
  "release c s = goto c H_Exit (s\<lparr>srv_handshakeMu := None\<rparr>)"

definition set_control :: "nat \<Rightarrow> server_state \<Rightarrow> bool \<times> server_state" where
  "set_control c s =
     (if srv_control s \<noteq> None then (False, s) else (True, s\<lparr>srv_control := Some c\<rparr>))"

definition clear_control :: "nat \<Rightarrow> server_state \<Rightarrow> server_state" where
  "clear_control c s =
     close_conn c (if srv_control s = Some c then s\<lparr>srv_control := None\<rparr> else s)"

text \<open>The \<open>select\<close> of \<open>enqueueWorker\<close>: when the queue has room and the context is done, the runtime
  may take either case; the argument is its choice.\<close>

definition enqueue_worker :: "bool \<Rightarrow> nat \<Rightarrow> server_state \<Rightarrow> server_state" where
  "enqueue_worker prefer_done c s =
     (case try_send (srv_workers s) c of
        Sent q \<Rightarrow>
          if srv_ctx_done s \<and> prefer_done then close_conn c s else s\<lparr>srv_workers := q\<rparr>
      | _ \<Rightarrow> close_conn c s)"

section \<open>The handshake\<close>

text \<open>A hello frame that does not arrive before the read deadline is one that does not arrive.\<close>

text \<open>The next step of the handler of connection \<open>c\<close>; \<open>None\<close> when it waits or has returned.\<close>

definition handle_accepted_step :: "bool \<Rightarrow> nat \<Rightarrow> server_state \<Rightarrow> server_state option" where
  "handle_accepted_step prefer_done c s =
     (case srv_handlers s ! c of
        H_Check \<Rightarrow>
          Some (if srv_control s \<noteq> None then goto c H_Exit (enqueue_worker prefer_done c s)
                else goto c H_Lock s)
      | H_Lock \<Rightarrow>
          (if srv_handshakeMu s = None
           then Some (goto c H_Recheck (s\<lparr>srv_handshakeMu := Some c\<rparr>)) else None)
      | H_Recheck \<Rightarrow>
          Some (if srv_control s \<noteq> None then release c (enqueue_worker prefer_done c s)
                else goto c H_Read s)
      | H_Read \<Rightarrow>
          Some (case read_original_typed_string (conn_input (srv_conns s ! c)) of
                  Inl e \<Rightarrow> release c (close_conn c s)
                | Inr ((token, signal), rest) \<Rightarrow>
                    if signal \<noteq> original_signal_hello \<or> token \<noteq> srv_token s
                    then release c (close_conn c s)
                    else goto c H_Reply (set_conn c ((srv_conns s ! c)\<lparr>rx := rest\<rparr>) s))
      | H_Reply \<Rightarrow>
          Some (case write_original_typed_string conn_write (srv_conns s ! c)
                       original_signal_channel (srv_token s) of
                  (Some e, cn) \<Rightarrow> release c (close_conn c (set_conn c cn s))
                | (None, cn) \<Rightarrow> goto c H_Set (set_conn c cn s))
      | H_Set \<Rightarrow>
          Some (case set_control c s of
                  (False, s') \<Rightarrow> release c (enqueue_worker prefer_done c s')
                | (True, s') \<Rightarrow> release c s')
      | H_Exit \<Rightarrow> None)"

section \<open>Acquiring a worker\<close>

text \<open>\<open>acquireWorker\<close> up to its signal: wait for a control channel (\<open>None\<close>: keep polling), ask the
  client for a worker.\<close>

definition acquire_signal :: "bool \<Rightarrow> server_state \<Rightarrow> (io_error option) option \<times> server_state" where
  "acquire_signal req_done s =
     (case srv_control s of
        None \<Rightarrow> (if req_done then Some (Some (Protocol_Error ''context done'')) else None, s)
      | Some control \<Rightarrow>
          (case write_original_signal conn_write (srv_conns s ! control) original_signal_channel of
             (Some e, cn) \<Rightarrow> (Some (Some e), clear_control control (set_conn control cn s))
           | (None, cn) \<Rightarrow> (Some None, set_conn control cn s)))"

text \<open>Then the oldest worker of the queue gets the target. \<open>None\<close>: still waiting.\<close>

definition acquire_take ::
  "bool \<Rightarrow> bool \<Rightarrow> string \<Rightarrow> byte \<Rightarrow> server_state \<Rightarrow>
    ((io_error, nat) result) option \<times> server_state" where
  "acquire_take req_done prefer_done target signal s =
     (if req_done \<and> (prefer_done \<or> queue (srv_workers s) = [])
      then (Some (Err (Protocol_Error ''context done'')), s)
      else (case try_recv (srv_workers s) of
              Received worker q \<Rightarrow>
                (let s' = s\<lparr>srv_workers := q\<rparr> in
                 case write_original_typed_string conn_write (srv_conns s' ! worker) signal
                        (original_wire_target target) of
                   (Some e, cn) \<Rightarrow> (Some (Err e), close_conn worker (set_conn worker cn s'))
                 | (None, cn) \<Rightarrow> (Some (Ok worker), set_conn worker cn s'))
            | _ \<Rightarrow> (None, s)))"

section \<open>Steps of the server\<close>

text \<open>What may happen next: a connection is accepted, a handler takes its next step, the monitor of a
  control channel ends (it clears the control), an \<open>acquireWorker\<close> asks for or takes a worker, bytes
  are written to or read from a connection by its owner, or the context is cancelled.\<close>

inductive server_step :: "server_state \<Rightarrow> server_state \<Rightarrow> bool" where
  srv_accept: "\<not> closed cn \<Longrightarrow>
    server_step s (s\<lparr>srv_conns := srv_conns s @ [cn], srv_handlers := srv_handlers s @ [H_Check]\<rparr>)"
| srv_handle: "c < length (srv_handlers s) \<Longrightarrow> handle_accepted_step b c s = Some s' \<Longrightarrow> server_step s s'"
| srv_clear: "c < length (srv_handlers s) \<Longrightarrow> srv_handlers s ! c = H_Exit \<Longrightarrow>
    server_step s (clear_control c s)"
| srv_ask: "acquire_signal d s = (res, s') \<Longrightarrow> server_step s s'"
| srv_take: "acquire_take d b target signal s = (res, s') \<Longrightarrow> server_step s s'"
| srv_use: "c < length (srv_handlers s) \<Longrightarrow> srv_handlers s ! c = H_Exit \<Longrightarrow>
    server_step s (set_conn c cn s)"
| srv_cancel: "server_step s (s\<lparr>srv_ctx_done := True\<rparr>)"

text \<open>Runs of the server, as the list of its states with the newest first.\<close>

inductive server_run :: "string \<Rightarrow> server_state list \<Rightarrow> bool" for token where
  run_start: "server_run token [new_original_server_state token t]"
| run_next: "server_run token (s # ss) \<Longrightarrow> server_step s s' \<Longrightarrow> server_run token (s' # s # ss)"

text \<open>Handlers inside the handshake's critical section.\<close>

definition holds_lock :: "handler_pc \<Rightarrow> bool" where
  "holds_lock pc \<longleftrightarrow> pc \<in> {H_Recheck, H_Read, H_Reply, H_Set}"

definition in_handshake :: "handler_pc \<Rightarrow> bool" where
  "in_handshake pc \<longleftrightarrow> pc \<in> {H_Read, H_Reply, H_Set}"

definition finished :: "server_state \<Rightarrow> nat \<Rightarrow> bool" where
  "finished s c \<longleftrightarrow> c < length (srv_handlers s) \<and> srv_handlers s ! c = H_Exit"

definition lock_inv :: "server_state \<Rightarrow> bool" where
  "lock_inv s \<longleftrightarrow>
     (\<forall>c < length (srv_handlers s).
        holds_lock (srv_handlers s ! c) = (srv_handshakeMu s = Some c)) \<and>
     (\<forall>c. srv_handshakeMu s = Some c \<longrightarrow> c < length (srv_handlers s))"

definition control_inv :: "server_state \<Rightarrow> bool" where
  "control_inv s \<longleftrightarrow>
     (\<forall>c < length (srv_handlers s). in_handshake (srv_handlers s ! c) \<longrightarrow> srv_control s = None) \<and>
     (\<forall>c. srv_control s = Some c \<longrightarrow> finished s c \<and> c \<notin> set (queue (srv_workers s)))"

definition queue_inv :: "server_state \<Rightarrow> bool" where
  "queue_inv s \<longleftrightarrow>
     (\<forall>c \<in> set (queue (srv_workers s)). finished s c) \<and> distinct (queue (srv_workers s)) \<and>
     length (queue (srv_workers s)) \<le> 512 \<and> capacity (srv_workers s) = 512 \<and>
     \<not> chan_closed (srv_workers s)"

definition server_inv :: "server_state \<Rightarrow> bool" where
  "server_inv s \<longleftrightarrow>
     length (srv_conns s) = length (srv_handlers s) \<and> lock_inv s \<and> control_inv s \<and> queue_inv s"

lemma set_conn_fields [simp]:
  "srv_handlers (set_conn c cn s) = srv_handlers s" "srv_control (set_conn c cn s) = srv_control s"
  "srv_workers (set_conn c cn s) = srv_workers s" "srv_token (set_conn c cn s) = srv_token s"
  "srv_handshakeMu (set_conn c cn s) = srv_handshakeMu s"
  "length (srv_conns (set_conn c cn s)) = length (srv_conns s)"
  by (simp_all add: set_conn_def)

lemma close_conn_fields [simp]:
  "srv_handlers (close_conn c s) = srv_handlers s" "srv_control (close_conn c s) = srv_control s"
  "srv_workers (close_conn c s) = srv_workers s" "srv_token (close_conn c s) = srv_token s"
  "srv_handshakeMu (close_conn c s) = srv_handshakeMu s"
  "length (srv_conns (close_conn c s)) = length (srv_conns s)"
  by (simp_all add: close_conn_def)

lemma goto_fields [simp]:
  "srv_handlers (goto c pc s) = (srv_handlers s)[c := pc]" "srv_control (goto c pc s) = srv_control s"
  "srv_workers (goto c pc s) = srv_workers s" "srv_token (goto c pc s) = srv_token s"
  "srv_handshakeMu (goto c pc s) = srv_handshakeMu s" "srv_conns (goto c pc s) = srv_conns s"
  by (simp_all add: goto_def)

lemma release_fields [simp]:
  "srv_handlers (release c s) = (srv_handlers s)[c := H_Exit]"
  "srv_control (release c s) = srv_control s" "srv_workers (release c s) = srv_workers s"
  "srv_token (release c s) = srv_token s" "srv_handshakeMu (release c s) = None"
  "srv_conns (release c s) = srv_conns s"
  by (simp_all add: release_def)

lemma clear_control_fields [simp]:
  "srv_handlers (clear_control c s) = srv_handlers s"
  "srv_control (clear_control c s) = (if srv_control s = Some c then None else srv_control s)"
  "srv_workers (clear_control c s) = srv_workers s" "srv_token (clear_control c s) = srv_token s"
  "srv_handshakeMu (clear_control c s) = srv_handshakeMu s"
  "length (srv_conns (clear_control c s)) = length (srv_conns s)"
  by (simp_all add: clear_control_def)

lemma enqueue_worker_fields [simp]:
  "srv_handlers (enqueue_worker b c s) = srv_handlers s"
  "srv_control (enqueue_worker b c s) = srv_control s" "srv_token (enqueue_worker b c s) = srv_token s"
  "srv_handshakeMu (enqueue_worker b c s) = srv_handshakeMu s"
  "length (srv_conns (enqueue_worker b c s)) = length (srv_conns s)"
  by (simp_all add: enqueue_worker_def split: send_result.splits)

lemma enqueue_worker_queue:
  "srv_workers (enqueue_worker b c s) = srv_workers s \<or>
   (\<not> chan_closed (srv_workers s) \<and> length (queue (srv_workers s)) < capacity (srv_workers s) \<and>
    srv_workers (enqueue_worker b c s) = (srv_workers s)\<lparr>queue := queue (srv_workers s) @ [c]\<rparr>)"
  by (auto simp: enqueue_worker_def try_send_def)

text \<open>One handler moves from \<open>pc\<close> to \<open>pc'\<close>: what the move must respect.\<close>

lemma server_inv_move:
  assumes inv: "server_inv s" and c: "c < length (srv_handlers s)"
    and pc: "srv_handlers s ! c = pc" "pc \<noteq> H_Exit"
    and pcs: "srv_handlers s' = (srv_handlers s)[c := pc']"
    and conns: "length (srv_conns s') = length (srv_conns s)"
    and lock: "holds_lock pc' = (srv_handshakeMu s' = Some c)"
      "holds_lock pc \<Longrightarrow> srv_handshakeMu s' \<in> {Some c, None}"
      "\<not> holds_lock pc \<Longrightarrow> srv_handshakeMu s' = srv_handshakeMu s \<or>
         (srv_handshakeMu s = None \<and> srv_handshakeMu s' = Some c)"
    and control: "srv_control s' = srv_control s \<or>
      (srv_control s' = Some c \<and> in_handshake pc \<and> pc' = H_Exit)"
      "in_handshake pc' \<Longrightarrow> srv_control s' = None"
    and workers: "srv_workers s' = srv_workers s \<or>
      (srv_workers s' = (srv_workers s)\<lparr>queue := queue (srv_workers s) @ [c]\<rparr> \<and> pc' = H_Exit \<and>
       srv_control s' = srv_control s \<and> length (queue (srv_workers s)) < capacity (srv_workers s))"
  shows "server_inv s'"
proof -
  have li: "lock_inv s" and ci: "control_inv s" and qi: "queue_inv s"
    using inv by (simp_all add: server_inv_def)
  have len: "length (srv_handlers s') = length (srv_handlers s)" by (simp add: pcs)
  have at_pc: "srv_handlers s' ! d = (if d = c then pc' else srv_handlers s ! d)"
    if "d < length (srv_handlers s)" for d using that by (simp add: pcs nth_list_update)
  have fin: "finished s' d" if "finished s d" for d
    using that pc len at_pc by (auto simp: finished_def)
  have notin: "c \<notin> set (queue (srv_workers s))" "srv_control s \<noteq> Some c"
    using qi ci pc unfolding queue_inv_def control_inv_def finished_def by blast+
  have finc: "finished s' c" if "pc' = H_Exit" using that c at_pc len by (simp add: finished_def)
  have "lock_inv s'"
    unfolding lock_inv_def len
  proof (intro conjI allI impI)
    fix d assume d: "d < length (srv_handlers s)"
    have "holds_lock (srv_handlers s ! d) = (srv_handshakeMu s = Some d)"
      "holds_lock pc = (srv_handshakeMu s = Some c)"
      using li d c pc by (auto simp: lock_inv_def)
    then show "holds_lock (srv_handlers s' ! d) = (srv_handshakeMu s' = Some d)"
      using lock at_pc [OF d] by (cases "d = c"; cases "holds_lock pc") auto
  next
    fix d assume "srv_handshakeMu s' = Some d"
    then show "d < length (srv_handlers s)"
      using lock li c pc by (cases "holds_lock pc") (auto simp: lock_inv_def)
  qed
  moreover have "control_inv s'"
    unfolding control_inv_def len
  proof (intro conjI allI impI)
    fix d assume d: "d < length (srv_handlers s)" "in_handshake (srv_handlers s' ! d)"
    show "srv_control s' = None"
    proof (cases "d = c")
      case True
      with d at_pc control(2) show ?thesis by simp
    next
      case False
      with d at_pc have h: "in_handshake (srv_handlers s ! d)" by simp
      then have "holds_lock (srv_handlers s ! d)" by (auto simp: in_handshake_def holds_lock_def)
      then have "srv_handshakeMu s = Some d" using li d by (simp add: lock_inv_def)
      moreover have "in_handshake pc \<Longrightarrow> srv_handshakeMu s = Some c"
        using li c pc by (auto simp: lock_inv_def in_handshake_def holds_lock_def)
      ultimately have "\<not> in_handshake pc" using False by auto
      moreover have "srv_control s = None" using ci d(1) h by (auto simp: control_inv_def)
      ultimately show ?thesis using control(1) by simp
    qed
  next
    fix d assume d: "srv_control s' = Some d"
    show "finished s' d"
    proof (cases "srv_control s' = srv_control s")
      case True
      with d ci fin show ?thesis by (auto simp: control_inv_def)
    next
      case False
      with control(1) d finc show ?thesis by auto
    qed
    show "d \<notin> set (queue (srv_workers s'))"
    proof (cases "srv_control s' = srv_control s")
      case True
      then have "d \<notin> set (queue (srv_workers s))" "d \<noteq> c"
        using d ci notin by (auto simp: control_inv_def)
      with workers show ?thesis by auto
    next
      case False
      with control(1) d have "d = c" by auto
      with workers notin False show ?thesis by auto
    qed
  qed
  moreover have "queue_inv s'"
    using workers
  proof
    assume "srv_workers s' = srv_workers s"
    with qi fin show ?thesis by (simp add: queue_inv_def)
  next
    assume w: "srv_workers s' = (srv_workers s)\<lparr>queue := queue (srv_workers s) @ [c]\<rparr> \<and> pc' = H_Exit \<and>
       srv_control s' = srv_control s \<and> length (queue (srv_workers s)) < capacity (srv_workers s)"
    with qi fin finc notin show ?thesis by (auto simp: queue_inv_def)
  qed
  ultimately show ?thesis using inv conns len by (simp add: server_inv_def)
qed

lemma server_inv_worker:
  assumes "server_inv s" "c < length (srv_handlers s)" "srv_handlers s ! c = pc" "pc \<noteq> H_Exit"
    and "\<not> holds_lock pc \<and> s' = goto c H_Exit (enqueue_worker b c s) \<or>
      holds_lock pc \<and> s' = release c (enqueue_worker b c s)"
  shows "server_inv s'"
proof -
  have "holds_lock pc = (srv_handshakeMu s = Some c)"
    using assms by (auto simp: server_inv_def lock_inv_def)
  then show ?thesis
    using assms(5) enqueue_worker_queue [of b c s]
    by (intro server_inv_move [OF assms(1-4), where pc' = H_Exit])
      (auto simp: holds_lock_def in_handshake_def)
qed

lemma server_inv_handle:
  assumes inv: "server_inv s" and c: "c < length (srv_handlers s)"
    and step: "handle_accepted_step b c s = Some s'"
  shows "server_inv s'"
proof -
  have lock: "holds_lock (srv_handlers s ! c) = (srv_handshakeMu s = Some c)"
    using inv c by (simp add: server_inv_def lock_inv_def)
  note move = server_inv_move [OF inv c]
  note simps = holds_lock_def in_handshake_def
  show ?thesis
  proof (cases "srv_handlers s ! c")
    case H_Check
    show ?thesis
    proof (cases "srv_control s = None")
      case True
      with step H_Check have "s' = goto c H_Lock s" by (simp add: handle_accepted_step_def)
      with lock H_Check show ?thesis
        by (intro move [OF H_Check, where pc' = H_Lock]) (simp_all add: simps)
    next
      case False
      with step H_Check show ?thesis
        by (intro server_inv_worker [OF inv c H_Check, where b = b])
          (auto simp: handle_accepted_step_def simps)
    qed
  next
    case H_Lock
    with step have "s' = goto c H_Recheck (s\<lparr>srv_handshakeMu := Some c\<rparr>)" "srv_handshakeMu s = None"
      by (auto simp: handle_accepted_step_def split: if_splits)
    then show ?thesis
      by (intro move [OF H_Lock, where pc' = H_Recheck]) (simp_all add: simps)
  next
    case H_Recheck
    show ?thesis
    proof (cases "srv_control s = None")
      case True
      with step H_Recheck have "s' = goto c H_Read s" by (simp add: handle_accepted_step_def)
      with lock H_Recheck True show ?thesis
        by (intro move [OF H_Recheck, where pc' = H_Read]) (simp_all add: simps)
    next
      case False
      with step H_Recheck show ?thesis
        by (intro server_inv_worker [OF inv c H_Recheck, where b = b])
          (auto simp: handle_accepted_step_def simps)
    qed
  next
    case H_Read
    have n: "srv_control s = None"
      using inv c H_Read by (auto simp: server_inv_def control_inv_def in_handshake_def)
    have "s' = release c (close_conn c s) \<or> (\<exists>cn. s' = goto c H_Reply (set_conn c cn s))"
      using step H_Read by (auto simp: handle_accepted_step_def split: sum.splits if_splits)
    then show ?thesis
    proof (elim disjE exE)
      assume "s' = release c (close_conn c s)"
      then show ?thesis
        by (intro move [OF H_Read, where pc' = H_Exit]) (simp_all add: simps)
    next
      fix cn assume "s' = goto c H_Reply (set_conn c cn s)"
      with n lock H_Read show ?thesis
        by (intro move [OF H_Read, where pc' = H_Reply]) (simp_all add: simps)
    qed
  next
    case H_Reply
    have n: "srv_control s = None"
      using inv c H_Reply by (auto simp: server_inv_def control_inv_def in_handshake_def)
    have "(\<exists>cn. s' = release c (close_conn c (set_conn c cn s))) \<or>
        (\<exists>cn. s' = goto c H_Set (set_conn c cn s))"
      using step H_Reply by (auto simp: handle_accepted_step_def split: prod.splits option.splits)
    then show ?thesis
    proof (elim disjE exE)
      fix cn assume "s' = release c (close_conn c (set_conn c cn s))"
      then show ?thesis
        by (intro move [OF H_Reply, where pc' = H_Exit]) (simp_all add: simps)
    next
      fix cn assume "s' = goto c H_Set (set_conn c cn s)"
      with n lock H_Reply show ?thesis
        by (intro move [OF H_Reply, where pc' = H_Set]) (simp_all add: simps)
    qed
  next
    case H_Set
    have "srv_control s = None"
      using inv c H_Set by (auto simp: server_inv_def control_inv_def in_handshake_def)
    then have "s' = release c (s\<lparr>srv_control := Some c\<rparr>)"
      using step H_Set by (simp add: handle_accepted_step_def set_control_def)
    then show ?thesis
      by (intro move [OF H_Set, where pc' = H_Exit]) (simp_all add: simps)
  next
    case H_Exit
    with step show ?thesis by (simp add: handle_accepted_step_def)
  qed
qed

lemma server_inv_fields:
  assumes "server_inv s" "srv_handlers s' = srv_handlers s" "srv_handshakeMu s' = srv_handshakeMu s"
    and "length (srv_conns s') = length (srv_conns s)" "srv_workers s' = srv_workers s"
    and "srv_control s' = srv_control s \<or> srv_control s' = None"
  shows "server_inv s'"
proof -
  have "finished s' = finished s" using assms(2) by (simp add: finished_def fun_eq_iff)
  with assms show ?thesis
    by (auto simp: server_inv_def lock_inv_def control_inv_def queue_inv_def)
qed

lemma server_inv_accept:
  assumes "server_inv s"
  shows "server_inv (s\<lparr>srv_conns := srv_conns s @ [cn], srv_handlers := srv_handlers s @ [H_Check]\<rparr>)"
    (is "server_inv ?s")
proof -
  have li: "lock_inv s" and ci: "control_inv s" and qi: "queue_inv s"
    using assms by (simp_all add: server_inv_def)
  have fin: "finished ?s c" if "finished s c" for c
    using that by (simp add: finished_def nth_append)
  have nl: "srv_handshakeMu s \<noteq> Some (length (srv_handlers s))"
    using li by (auto simp: lock_inv_def)
  have "lock_inv ?s"
    using li nl by (auto simp: lock_inv_def nth_append less_Suc_eq holds_lock_def)
  moreover have "control_inv ?s"
    using ci fin by (auto simp: control_inv_def nth_append less_Suc_eq in_handshake_def)
  moreover have "queue_inv ?s" using qi fin by (auto simp: queue_inv_def)
  ultimately show ?thesis using assms by (simp add: server_inv_def)
qed

lemma acquire_signal_fields:
  "acquire_signal d s = (res, s') \<Longrightarrow>
     srv_handlers s' = srv_handlers s \<and> srv_handshakeMu s' = srv_handshakeMu s \<and>
     length (srv_conns s') = length (srv_conns s) \<and> srv_workers s' = srv_workers s \<and>
     (srv_control s' = srv_control s \<or> srv_control s' = None) \<and> srv_token s' = srv_token s"
  by (auto simp: acquire_signal_def split: option.splits prod.splits if_splits)

lemma acquire_take_fields:
  assumes "acquire_take d b target signal s = (res, s')"
  shows "srv_handlers s' = srv_handlers s" "srv_handshakeMu s' = srv_handshakeMu s"
    "length (srv_conns s') = length (srv_conns s)" "srv_control s' = srv_control s"
    "srv_token s' = srv_token s"
    "srv_workers s' = srv_workers s \<or>
     (\<exists>w q. queue (srv_workers s) = w # q \<and> srv_workers s' = (srv_workers s)\<lparr>queue := q\<rparr>)"
  using assms
  by (auto simp: acquire_take_def try_recv_def Let_def split: if_splits list.splits prod.splits
      option.splits)

lemma server_inv_take:
  assumes "server_inv s" "acquire_take d b target signal s = (res, s')"
  shows "server_inv s'"
proof -
  note f = acquire_take_fields [OF assms(2)]
  let ?s = "s\<lparr>srv_workers := srv_workers s'\<rparr>"
  have "set (queue (srv_workers s')) \<subseteq> set (queue (srv_workers s))"
    "distinct (queue (srv_workers s)) \<Longrightarrow> distinct (queue (srv_workers s'))"
    "length (queue (srv_workers s')) \<le> length (queue (srv_workers s))"
    "capacity (srv_workers s') = capacity (srv_workers s)"
    "chan_closed (srv_workers s') = chan_closed (srv_workers s)"
    using f(6) by auto
  moreover have "finished ?s = finished s" by (simp add: finished_def fun_eq_iff)
  ultimately have "lock_inv ?s \<and> control_inv ?s \<and> queue_inv ?s"
    using assms(1) unfolding server_inv_def lock_inv_def control_inv_def queue_inv_def
    by (intro conjI) (simp_all, (meson subsetD le_trans)+)
  then have "server_inv ?s" using assms(1) by (simp add: server_inv_def)
  then show ?thesis by (rule server_inv_fields) (simp_all add: f)
qed

lemma server_inv_step:
  assumes "server_inv s" "server_step s s'"
  shows "server_inv s'"
  using assms(2)
proof (cases rule: server_step.cases)
  case (srv_ask d res)
  from acquire_signal_fields [OF this] assms(1) show ?thesis
    by (intro server_inv_fields [OF assms(1)]) auto
next
  case (srv_accept cn)
  with server_inv_accept [OF assms(1)] show ?thesis by simp
next
  case (srv_handle c b)
  with server_inv_handle [OF assms(1)] show ?thesis by blast
next
  case (srv_take d b target signal res)
  with server_inv_take [OF assms(1)] show ?thesis by blast
qed (auto intro: server_inv_fields [OF assms(1)] split: if_splits)

lemma server_run_inv: "server_run token (s # ss) \<Longrightarrow> server_inv s"
proof (induction "s # ss" arbitrary: s ss rule: server_run.induct)
  case (run_start t)
  then show ?case
    by (simp add: server_inv_def lock_inv_def control_inv_def queue_inv_def
        new_original_server_state_def)
next
  case (run_next s ss s')
  then show ?case using server_inv_step by blast
qed

text \<open>C14. The handshake lock does its work: in every state the server can reach, at most one handler
  is inside the handshake, and from the moment it has seen no control channel to its \<open>setControl\<close>
  there is none, so \<open>setControl\<close> never fails and the branch that would hand a shaken-hands
  connection to the workers is dead. The control connection is never queued as a worker, no
  connection is queued twice, and the queue holds at most 512.\<close>

theorem handshake_exclusive:
  assumes "server_run token (s # ss)"
  shows "list_all (\<lambda>c. srv_handlers s ! c = H_Set \<longrightarrow> fst (set_control c s))
      [0..<length (srv_handlers s)] \<and>
    length (filter holds_lock (srv_handlers s)) \<le> 1 \<and>
    distinct (queue (srv_workers s)) \<and> length (queue (srv_workers s)) \<le> 512 \<and>
    list_all (\<lambda>c. srv_control s \<noteq> Some c) (queue (srv_workers s))"
proof -
  have inv: "server_inv s" using assms by (rule server_run_inv)
  have "length (filter holds_lock (srv_handlers s)) =
      card {c. c < length (srv_handlers s) \<and> holds_lock (srv_handlers s ! c)}"
    by (simp add: length_filter_conv_card)
  also have "\<dots> \<le> card (set_option (srv_handshakeMu s))"
    using inv by (intro card_mono) (auto simp: server_inv_def lock_inv_def)
  also have "\<dots> \<le> 1" by (cases "srv_handshakeMu s") simp_all
  finally have "length (filter holds_lock (srv_handlers s)) \<le> 1" .
  then show ?thesis using inv
    by (auto simp: server_inv_def control_inv_def queue_inv_def set_control_def list_all_length
        in_handshake_def)
qed

definition example_state :: server_state where
  "example_state = (new_original_server_state ''t'' 0)
     \<lparr>srv_conns := [new_conn (typed_frame original_signal_hello ''t'')], srv_handlers := [H_Check]\<rparr>"

lemma example_run: "server_run ''t'' [example_state, new_original_server_state ''t'' 0]"
proof -
  have "server_step (new_original_server_state ''t'' 0) example_state"
    using srv_accept [of "new_conn (typed_frame original_signal_hello ''t'')"
        "new_original_server_state ''t'' 0"]
    by (simp add: new_conn_def example_state_def new_original_server_state_def)
  then show ?thesis by (rule run_next [OF run_start])
qed

theorem handshake_exclusive_witness:
  "length (filter holds_lock (srv_handlers example_state)) \<le> 1 \<and>
   distinct (queue (srv_workers example_state))"
  using handshake_exclusive [OF example_run] by simp

section \<open>Who becomes the control channel\<close>

text \<open>A connection that presents a hello frame with the server's token.\<close>

definition presents_token :: "string \<Rightarrow> net_conn \<Rightarrow> bool" where
  "presents_token token cn \<longleftrightarrow> prefix (typed_frame original_signal_hello token) (conn_input cn)"

definition seen_token :: "string \<Rightarrow> nat \<Rightarrow> server_state list \<Rightarrow> bool" where
  "seen_token token c ss \<longleftrightarrow>
     list_ex (\<lambda>t. c < length (srv_handlers t) \<and> srv_handlers t ! c = H_Read \<and>
       presents_token token (srv_conns t ! c)) ss"

definition auth_inv :: "string \<Rightarrow> server_state \<Rightarrow> server_state list \<Rightarrow> bool" where
  "auth_inv token s ss \<longleftrightarrow>
     srv_token s = token \<and>
     (\<forall>c < length (srv_handlers s). srv_handlers s ! c \<in> {H_Reply, H_Set} \<longrightarrow> seen_token token c ss) \<and>
     (\<forall>c. srv_control s = Some c \<longrightarrow> seen_token token c ss)"

lemma handle_step_auth:
  assumes step: "handle_accepted_step b c s = Some s'" and c: "c < length (srv_handlers s)"
    and inv: "auth_inv (srv_token s) s ss"
  shows "auth_inv (srv_token s) s' (s # ss)"
proof -
  have keep: "seen_token (srv_token s) d ss \<Longrightarrow> seen_token (srv_token s) d (s # ss)" for d
    by (simp add: seen_token_def)
  have others: "d < length (srv_handlers s) \<Longrightarrow> srv_handlers s ! d \<in> {H_Reply, H_Set} \<Longrightarrow>
      seen_token (srv_token s) d (s # ss)" "srv_control s = Some d \<Longrightarrow> seen_token (srv_token s) d (s # ss)"
    for d using inv keep by (auto simp: auth_inv_def)
  have move: "auth_inv (srv_token s) s' (s # ss)"
    if "srv_token s' = srv_token s" "srv_handlers s' = (srv_handlers s)[c := pc]"
      "srv_control s' = srv_control s \<or> (srv_control s' = Some c \<and> srv_handlers s ! c = H_Set)"
      "pc \<in> {H_Reply, H_Set} \<Longrightarrow> seen_token (srv_token s) c (s # ss)" for pc
    using that others c by (auto simp: auth_inv_def nth_list_update)
  show ?thesis
  proof (cases "srv_handlers s ! c")
    case H_Read
    show ?thesis
    proof (cases "read_original_typed_string (conn_input (srv_conns s ! c))")
      case (Inl e)
      with step H_Read show ?thesis
        by (intro move [of H_Exit]) (auto simp: handle_accepted_step_def)
    next
      case (Inr f)
      obtain token signal rest where f: "f = ((token, signal), rest)" by (metis surj_pair)
      show ?thesis
      proof (cases "signal \<noteq> original_signal_hello \<or> token \<noteq> srv_token s")
        case True
        with step H_Read Inr f show ?thesis
          by (intro move [of H_Exit]) (auto simp: handle_accepted_step_def)
      next
        case False
        with Inr f have "presents_token (srv_token s) (srv_conns s ! c)"
          by (auto simp: presents_token_def dest!: read_typed_string_Ok)
        then have "seen_token (srv_token s) c (s # ss)" using c H_Read by (simp add: seen_token_def)
        with False step H_Read Inr f show ?thesis
          by (intro move [of H_Reply]) (auto simp: handle_accepted_step_def)
      qed
    qed
  next
    case H_Reply
    then have "(\<exists>cn. s' = release c (close_conn c (set_conn c cn s))) \<or>
        (\<exists>cn. s' = goto c H_Set (set_conn c cn s))"
      using step by (auto simp: handle_accepted_step_def split: prod.splits option.splits)
    then show ?thesis
    proof (elim disjE exE)
      fix cn assume "s' = release c (close_conn c (set_conn c cn s))"
      then show ?thesis by (intro move [of H_Exit]) simp_all
    next
      fix cn assume "s' = goto c H_Set (set_conn c cn s)"
      with H_Reply others(1) [OF c] show ?thesis by (intro move [of H_Set]) simp_all
    qed
  next
    case H_Set
    with step show ?thesis
      by (intro move [of H_Exit]) (auto simp: handle_accepted_step_def set_control_def split: if_splits)
  next
    case H_Check
    with step have "s' = goto c H_Lock s \<or> s' = goto c H_Exit (enqueue_worker b c s)"
      by (auto simp: handle_accepted_step_def split: if_splits)
    then show ?thesis
      by (elim disjE) (rule move [of H_Lock] move [of H_Exit]; simp; fail)+
  next
    case H_Lock
    with step show ?thesis
      by (intro move [of H_Recheck]) (auto simp: handle_accepted_step_def goto_def split: if_splits)
  next
    case H_Recheck
    with step have "s' = goto c H_Read s \<or> s' = release c (enqueue_worker b c s)"
      by (auto simp: handle_accepted_step_def split: if_splits)
    then show ?thesis
      by (elim disjE) (rule move [of H_Read] move [of H_Exit]; simp; fail)+
  next
    case H_Exit
    with step show ?thesis by (simp add: handle_accepted_step_def)
  qed
qed

lemma auth_inv_step:
  assumes "auth_inv token s ss" "server_step s s'"
  shows "auth_inv token s' (s # ss)"
proof -
  have same: "auth_inv token t (s # ss)"
    if "srv_token t = srv_token s" "srv_handlers t = srv_handlers s"
      "srv_control t = srv_control s \<or> srv_control t = None" for t
    using assms(1) that by (auto simp: auth_inv_def seen_token_def)
  from assms(2) show ?thesis
  proof (cases rule: server_step.cases)
    case (srv_accept cn)
    with assms(1) show ?thesis
      by (auto simp: auth_inv_def seen_token_def nth_append less_Suc_eq)
  next
    case (srv_handle c b)
    with handle_step_auth [of b c s s' ss] assms(1) show ?thesis by (auto simp: auth_inv_def)
  next
    case (srv_ask d res)
    from acquire_signal_fields [OF this] show ?thesis by (intro same) auto
  next
    case (srv_take d b target signal res)
    from acquire_take_fields [OF this] show ?thesis by (intro same) auto
  next
    case (srv_clear c)
    then show ?thesis by (intro same) simp_all
  qed (auto intro: same)
qed

text \<open>C12. The control channel is authenticated: however handshakes, workers and monitors interleave, a
  connection becomes the control channel only after its own handler has found the hello frame
  with the server's token at the start of its input.\<close>

theorem control_authenticated:
  assumes "server_run token (s # ss)" "srv_control s = Some c"
  shows "seen_token token c ss"
proof -
  have "auth_inv token s ss"
    using assms(1)
  proof (induction "s # ss" arbitrary: s ss rule: server_run.induct)
    case (run_start t)
    then show ?case by (simp add: auth_inv_def new_original_server_state_def)
  next
    case (run_next s ss s')
    then show ?case using auth_inv_step by blast
  qed
  with assms(2) show ?thesis by (simp add: auth_inv_def)
qed

section \<open>A handler that runs undisturbed\<close>

fun handle_steps :: "nat \<Rightarrow> bool \<Rightarrow> nat \<Rightarrow> server_state \<Rightarrow> server_state" where
  "handle_steps 0 b c s = s"
| "handle_steps (Suc n) b c s =
     (case handle_accepted_step b c s of None \<Rightarrow> s | Some s' \<Rightarrow> handle_steps n b c s')"

lemma handle_step_length:
  "handle_accepted_step b c s = Some s' \<Longrightarrow> length (srv_handlers s') = length (srv_handlers s)"
  by (auto simp: handle_accepted_step_def set_control_def split: handler_pc.splits if_splits
      sum.splits prod.splits option.splits)

lemma run_handle_steps:
  "server_run token (s # ss) \<Longrightarrow> c < length (srv_handlers s) \<Longrightarrow>
     \<exists>ss'. server_run token (handle_steps n b c s # ss')"
proof (induction n arbitrary: s ss)
  case (Suc n)
  show ?case
  proof (cases "handle_accepted_step b c s")
    case (Some s')
    with Suc.IH [OF run_next [OF Suc.prems(1) srv_handle [OF Suc.prems(2) Some]]] Suc.prems(2)
      handle_step_length [OF Some] show ?thesis by simp
  qed (use Suc.prems in auto)
qed auto

text \<open>The state in which a connection's handler can shake hands: nobody else is about to.\<close>

definition idle_for :: "nat \<Rightarrow> server_state \<Rightarrow> bool" where
  "idle_for c s \<longleftrightarrow>
     c < length (srv_handlers s) \<and> c < length (srv_conns s) \<and> srv_handlers s ! c = H_Check \<and>
     srv_control s = None \<and> srv_handshakeMu s = None \<and>
     \<not> closed (srv_conns s ! c) \<and> budget (srv_conns s ! c) = None"

lemma handle_steps_6:
  "handle_steps 6 b c s = handle_steps (Suc (Suc (Suc (Suc (Suc (Suc 0)))))) b c s"
proof -
  have "(6 :: nat) = Suc (Suc (Suc (Suc (Suc (Suc 0)))))" by simp
  then show ?thesis by (simp only:)
qed

text \<open>The six steps, for either kind of input.\<close>

lemma handle_steps_hello:
  assumes "idle_for c s" "length (srv_token s) \<le> 65535"
    and "rx (srv_conns s ! c) = typed_frame original_signal_hello (srv_token s) @ rest"
  shows "handle_steps 6 b c s = release c (set_conn c ((srv_conns s ! c)\<lparr>rx := rest,
      tx := tx (srv_conns s ! c) @ typed_frame original_signal_channel (srv_token s)\<rparr>)
      (s\<lparr>srv_control := Some c\<rparr>))"
  using assms
  by (simp add: handle_steps_6 handle_accepted_step_def idle_for_def goto_def release_def
      set_conn_def conn_input_def read_typed_frame write_original_typed_string_def set_control_def)

lemma handle_steps_refused:
  assumes "idle_for c s"
    and "\<not> prefix (typed_frame original_signal_hello (srv_token s)) (rx (srv_conns s ! c))"
  shows "handle_steps 6 b c s = release c (close_conn c s)"
proof -
  have "\<exists>e. read_original_typed_string (rx (srv_conns s ! c)) = Err e \<or>
      (\<exists>t sg r. read_original_typed_string (rx (srv_conns s ! c)) = Ok ((t, sg), r) \<and>
        (sg \<noteq> original_signal_hello \<or> t \<noteq> srv_token s))"
    using assms(2) by (cases "read_original_typed_string (rx (srv_conns s ! c))")
      (auto dest!: read_typed_string_Ok)
  then show ?thesis
    using assms(1)
    by (auto simp: handle_steps_6 handle_accepted_step_def idle_for_def goto_def release_def
        conn_input_def close_conn_def set_conn_def)
qed

text \<open>What a handshake does when no other one interferes: a connection whose input starts with the
  hello frame of the server's token is answered with the same token under the channel signal and
  becomes the control channel, its remaining input untouched; any other connection is closed
  without an answer and changes nothing else. Either way the lock is free again.\<close>

theorem handshake_outcome:
  assumes "idle_for c s" "length (srv_token s) \<le> 65535"
  shows "\<exists>s'. handle_steps 6 b c s = s' \<and> srv_handlers s' ! c = H_Exit \<and>
    srv_handshakeMu s' = None \<and> srv_workers s' = srv_workers s \<and>
    (\<forall>rest. rx (srv_conns s ! c) = typed_frame original_signal_hello (srv_token s) @ rest \<longrightarrow>
       srv_control s' = Some c \<and> rx (srv_conns s' ! c) = rest \<and> \<not> closed (srv_conns s' ! c) \<and>
       tx (srv_conns s' ! c) =
         tx (srv_conns s ! c) @ typed_frame original_signal_channel (srv_token s)) \<and>
    (\<not> prefix (typed_frame original_signal_hello (srv_token s)) (rx (srv_conns s ! c)) \<longrightarrow>
       srv_control s' = None \<and> srv_conns s' = (srv_conns s)[c := conn_close (srv_conns s ! c)])"
proof (cases "prefix (typed_frame original_signal_hello (srv_token s)) (rx (srv_conns s ! c))")
  case True
  then obtain rest where
    "rx (srv_conns s ! c) = typed_frame original_signal_hello (srv_token s) @ rest"
    by (auto simp: prefix_def)
  with handle_steps_hello [OF assms this, of b] assms(1) show ?thesis
    by (simp add: idle_for_def set_conn_def release_def goto_def)
next
  case False
  then show ?thesis
    using handle_steps_refused [OF assms(1) False, of b] assms(1)
    by (auto simp: idle_for_def close_conn_def set_conn_def release_def goto_def)
qed

lemma example_idle: "idle_for 0 example_state \<and> srv_token example_state = ''t'' \<and>
    srv_conns example_state = [new_conn (typed_frame original_signal_hello ''t'')]"
  by (simp add: idle_for_def example_state_def new_original_server_state_def new_conn_def)

theorem handshake_outcome_witness:
  "srv_control (handle_steps 6 False 0 example_state) = Some 0 \<and>
   tx (srv_conns (handle_steps 6 False 0 example_state) ! 0) =
     typed_frame original_signal_channel ''t''"
  using handshake_outcome [of 0 example_state False] example_idle by (simp add: new_conn_def)

theorem control_authenticated_witness:
  "\<exists>ss. srv_control (handle_steps 6 False 0 example_state) = Some 0 \<and> seen_token ''t'' 0 ss"
proof -
  have "srv_control (handle_steps 6 False 0 example_state) = Some 0"
    using handle_steps_hello [of 0 example_state "[]" False] example_idle
    by (simp add: new_conn_def)
  moreover have "0 < length (srv_handlers example_state)" by (simp add: example_state_def)
  from run_handle_steps [OF example_run this] obtain ss where
    "server_run ''t'' (handle_steps 6 False 0 example_state # ss)" by blast
  ultimately show ?thesis using control_authenticated by blast
qed

section \<open>Workers\<close>

text \<open>A connection that takes whatever is written to it.\<close>

definition writable :: "net_conn \<Rightarrow> bool" where
  "writable cn \<longleftrightarrow> \<not> closed cn \<and> budget cn = None"

lemma acquire_take_first:
  assumes "queue (srv_workers s) = w # q" "\<not> (req_done \<and> prefer_done)"
    and "writable (srv_conns s ! w)" "length (original_wire_target target) \<le> 65535"
  shows "acquire_take req_done prefer_done target signal s =
    (Some (Ok w), set_conn w ((srv_conns s ! w)\<lparr>tx := tx (srv_conns s ! w) @
        typed_frame signal (original_wire_target target)\<rparr>)
      (s\<lparr>srv_workers := (srv_workers s)\<lparr>queue := q\<rparr>\<rparr>))"
  using assms
  by (simp add: acquire_take_def try_recv_def write_original_typed_string_def writable_def)

text \<open>A public connection gets the oldest waiting worker: with a control channel up, the client is
  asked for one more worker, the head of the queue is told where to dial in the translated form,
  the rest of the queue stays as it is, and no other connection is touched.\<close>

theorem acquire_worker_fifo:
  assumes "srv_control s = Some ctl" "queue (srv_workers s) = w # q" "ctl \<noteq> w"
    and "ctl < length (srv_conns s)" "w < length (srv_conns s)"
    and "writable (srv_conns s ! ctl)" "writable (srv_conns s ! w)"
    and "length (original_wire_target target) \<le> 65535"
  shows "\<exists>s1 s2. acquire_signal d s = (Some None, s1) \<and>
    acquire_take False b target signal s1 = (Some (Ok w), s2) \<and>
    queue (srv_workers s2) = q \<and> srv_control s2 = Some ctl \<and>
    tx (srv_conns s2 ! ctl) = tx (srv_conns s ! ctl) @ [original_signal_channel] \<and>
    tx (srv_conns s2 ! w) =
      tx (srv_conns s ! w) @ typed_frame signal (original_wire_target target) \<and>
    list_all (\<lambda>i. i = ctl \<or> i = w \<or> srv_conns s2 ! i = srv_conns s ! i) [0..<length (srv_conns s)]"
proof -
  define s1 where "s1 = set_conn ctl ((srv_conns s ! ctl)\<lparr>tx := tx (srv_conns s ! ctl) @
      [original_signal_channel]\<rparr>) s"
  have 1: "acquire_signal d s = (Some None, s1)"
    using assms(1,6)
    by (simp add: acquire_signal_def write_original_signal_def writable_def s1_def)
  have w: "srv_conns s1 ! w = srv_conns s ! w" using assms(3) by (simp add: s1_def set_conn_def)
  then have 2: "acquire_take False b target signal s1 =
      (Some (Ok w), set_conn w ((srv_conns s1 ! w)\<lparr>tx := tx (srv_conns s1 ! w) @
          typed_frame signal (original_wire_target target)\<rparr>)
        (s1\<lparr>srv_workers := (srv_workers s1)\<lparr>queue := q\<rparr>\<rparr>))"
    using assms(2,7,8) by (intro acquire_take_first) (simp_all add: s1_def)
  show ?thesis
    using 1 2 w assms(1-5)
    by (simp add: s1_def set_conn_def list_all_length nth_list_update)
qed

definition example_pool :: server_state where
  "example_pool = (new_original_server_state ''t'' 0)
     \<lparr>srv_conns := [new_conn [], new_conn [], new_conn []], srv_handlers := [H_Exit, H_Exit, H_Exit],
      srv_control := Some 0, srv_workers := (make_chan 512)\<lparr>queue := [2, 1]\<rparr>\<rparr>"

lemma example_pool_fields [simp]:
  "srv_control example_pool = Some 0" "queue (srv_workers example_pool) = [2, 1]"
  "srv_conns example_pool = [new_conn [], new_conn [], new_conn []]"
  "srv_token example_pool = ''t''" "srv_handlers example_pool = [H_Exit, H_Exit, H_Exit]"
  "srv_handshakeMu example_pool = None"
  by (simp_all add: example_pool_def new_original_server_state_def)

lemma writable_new [simp]: "writable (new_conn i)"
  by (simp add: writable_def new_conn_def)

lemma wire_target_80: "original_wire_target ''127.0.0.1:80'' = ''80''"
  using split_host_port_name [of "''127.0.0.1''" "''80''"]
  by (simp add: original_wire_target_def plain_port_def plain_host_def edge_graphic_def graphic_def)

theorem acquire_worker_fifo_witness:
  "\<exists>s1 s2. acquire_signal False example_pool = (Some None, s1) \<and>
    acquire_take False False ''127.0.0.1:80'' original_signal_tcp s1 = (Some (Ok 2), s2) \<and>
    queue (srv_workers s2) = [1] \<and>
    tx (srv_conns s2 ! 2) = typed_frame original_signal_tcp ''80''"
  using acquire_worker_fifo [of example_pool 0 2 "[1]" "''127.0.0.1:80''" False False
      original_signal_tcp] wire_target_80
  by (fastforce simp: writable_def new_conn_def)

text \<open>Losing the control channel does not empty the worker queue: after the old client's control
  connection is gone and a new client has shaken hands, the next public connection is still given
  the worker that the old client had opened.\<close>

theorem stale_worker_after_reconnect:
  assumes "srv_control s = Some old" "queue (srv_workers s) = w # q" "idle_for c (clear_control old s)"
    and "rx (srv_conns s ! c) = typed_frame original_signal_hello (srv_token s)"
    and "length (srv_token s) \<le> 65535" "writable (srv_conns s ! w)" "c \<noteq> w" "old \<noteq> w" "old \<noteq> c"
    and "length (original_wire_target target) \<le> 65535"
  shows "\<exists>s1 s2. handle_steps 6 b c (clear_control old s) = s1 \<and> srv_control s1 = Some c \<and>
    acquire_take False b target signal s1 = (Some (Ok w), s2)"
proof -
  define s0 where "s0 = clear_control old s"
  have f: "srv_conns s0 ! c = srv_conns s ! c" "srv_conns s0 ! w = srv_conns s ! w"
    "srv_token s0 = srv_token s" "srv_workers s0 = srv_workers s"
    using assms(7-9) by (simp_all add: s0_def clear_control_def close_conn_def set_conn_def)
  have h: "handle_steps 6 b c s0 = release c (set_conn c ((srv_conns s0 ! c)\<lparr>rx := [],
      tx := tx (srv_conns s0 ! c) @ typed_frame original_signal_channel (srv_token s0)\<rparr>)
      (s0\<lparr>srv_control := Some c\<rparr>))" (is "_ = ?s1")
    using assms(3-5) f by (intro handle_steps_hello) (simp_all add: s0_def)
  have "srv_conns ?s1 ! w = srv_conns s ! w" using f assms(7) by (simp add: set_conn_def)
  then have "\<exists>s2. acquire_take False b target signal ?s1 = (Some (Ok w), s2)"
    using assms(2,6,10) f by (subst acquire_take_first [of _ w q]) simp_all
  moreover have "srv_control ?s1 = Some c" by (simp add: set_conn_def release_def goto_def)
  ultimately show ?thesis unfolding s0_def [symmetric] using h by metis
qed

definition example_reconnect :: server_state where
  "example_reconnect = example_pool
     \<lparr>srv_conns := [new_conn [], new_conn [], new_conn [],
        new_conn (typed_frame original_signal_hello ''t'')],
      srv_handlers := [H_Exit, H_Exit, H_Exit, H_Check]\<rparr>"

theorem stale_worker_after_reconnect_witness:
  "\<exists>s1 s2. handle_steps 6 False 3 (clear_control 0 example_reconnect) = s1 \<and>
    srv_control s1 = Some 3 \<and>
    acquire_take False False ''127.0.0.1:80'' original_signal_tcp s1 = (Some (Ok 2), s2)"
proof -
  have "idle_for 3 (clear_control 0 example_reconnect)"
    by (simp add: idle_for_def example_reconnect_def clear_control_def close_conn_def set_conn_def
        new_conn_def)
  with stale_worker_after_reconnect [of example_reconnect 0 2 "[1]" 3 "''127.0.0.1:80''" False
      original_signal_tcp] wire_target_80
  show ?thesis by (simp add: example_reconnect_def new_conn_def writable_def)
qed

end
