(* ===== verification/Orig_Client.thy ===== *)
theory Orig_Client
  imports Orig_Server
begin

text \<open>
  The client of the recovered TCP protocol, lines 386 to 488 of
  \<open>internal/tunnel/original_protocol.go\<close>: connecting and shaking hands, the loop that answers the
  control channel's signals, and the workers. The network is a parameter: the list of what each
  call of \<open>DialContext\<close> returns, a connection being the bytes it will deliver. What the goroutines
  of the workers do is a function of their own connection.
\<close>

section \<open>Options\<close>

text \<open>\<open>ClientOpts\<close>; durations in nanoseconds, the logger left out.\<close>

record client_opts =
  cl_RemoteAddr :: string
  cl_Transport :: string
  cl_Token :: string
  cl_DialTimeout :: int
  cl_RetryInterval :: int
  cl_PoolSize :: int
  cl_NoDelay :: bool
  cl_Keepalive :: int
  cl_HeartbeatInterval :: int
  cl_HeartbeatTimeout :: int
  cl_TLSServerName :: string

section \<open>Connecting\<close>

text \<open>What a dial returns: an error, with the answer of \<open>ctx.Done()\<close> while the client then waits, or a
  connection.\<close>

datatype dial = Dial_Failed bool | Dialed net_conn

datatype connect_action = Act_Dial | Act_Wait int | Act_Close

datatype connect_result = Connected net_conn | Cancelled | Dialing

text \<open>\<open>SetDeadline(time.Now().Add(HeartbeatTimeout))\<close>: a deadline that is not in the future makes the
  writes and reads that follow fail.\<close>

definition client_handshake :: "client_opts \<Rightarrow> net_conn \<Rightarrow> net_conn option" where
  "client_handshake opts conn =
     (if cl_HeartbeatTimeout opts \<le> 0 then None
      else (case write_original_typed_string conn_write conn original_signal_hello (cl_Token opts) of
              (Some e, _) \<Rightarrow> None
            | (None, cn) \<Rightarrow>
                (case read_original_typed_string (conn_input cn) of
                   Inl e \<Rightarrow> None
                 | Inr ((token, signal), rest) \<Rightarrow>
                     if signal \<noteq> original_signal_channel \<or> token \<noteq> cl_Token opts then None
                     else Some (cn\<lparr>rx := rest\<rparr>))))"

fun client_connect :: "client_opts \<Rightarrow> dial list \<Rightarrow> connect_action list \<times> connect_result" where
  "client_connect opts [] = ([Act_Dial], Dialing)"
| "client_connect opts (Dial_Failed ctx_done # ds) =
     (if ctx_done then ([Act_Dial], Cancelled)
      else (case client_connect opts ds of
              (acts, res) \<Rightarrow> (Act_Dial # Act_Wait (cl_RetryInterval opts) # acts, res)))"
| "client_connect opts (Dialed conn # ds) =
     (case client_handshake opts conn of
        Some control \<Rightarrow> ([Act_Dial], Connected control)
      | None \<Rightarrow>
          (case client_connect opts ds of (acts, res) \<Rightarrow> (Act_Dial # Act_Close # acts, res)))"

section \<open>Answering the control channel\<close>

lemma write_original_full_conn_rx:
  "write_original_full conn_write c p = (e, c') \<Longrightarrow> rx c' = rx c \<and> closed c' = closed c"
proof (induction p arbitrary: c rule: length_induct)
  case (1 p)
  show ?case
  proof (cases "p = []")
    case True
    with "1.prems" show ?thesis by (simp add: write_original_full.simps)
  next
    case False
    obtain n e1 c1 where w: "conn_write c p = ((n, e1), c1)" by (cases "conn_write c p") auto
    from conn_write_frame [OF w] have c1: "rx c1 = rx c" "closed c1 = closed c" by simp_all
    show ?thesis
    proof (cases "e1 = None \<and> n \<noteq> 0")
      case True
      then have "write_original_full conn_write c1 (drop n p) = (e, c')"
        using "1.prems" False w by (simp add: write_original_full.simps [of conn_write c p])
      moreover have "length (drop n p) < length p" using True False by simp
      ultimately show ?thesis using "1.IH" c1 by metis
    next
      case False
      with "1.prems" w c1 \<open>p \<noteq> []\<close> show ?thesis
        by (cases e1) (auto simp: write_original_full.simps [of conn_write c p])
    qed
  qed
qed

text \<open>The loop: how it ends, how many workers it has started (after the \<open>n\<close> of before), and what became
  of the control connection. An error is swallowed when the context is done, which has closed the
  connection.\<close>

function client_loop :: "bool \<Rightarrow> nat \<Rightarrow> net_conn \<Rightarrow> io_error option \<times> nat \<times> net_conn" where
  "client_loop ctx_done n cn =
     (case read_original_signal (conn_input cn) of
        Inl e \<Rightarrow> (if ctx_done \<or> closed cn then None else Some e, n, cn)
      | Inr (signal, rest) \<Rightarrow>
          (let cn1 = cn\<lparr>rx := rest\<rparr> in
           if signal = original_signal_channel then client_loop ctx_done (Suc n) cn1
           else if signal = original_signal_rtt then
             (case write_original_signal conn_write cn1 original_signal_rtt of
                (Some e, cn2) \<Rightarrow> (Some e, n, cn2)
              | (None, cn2) \<Rightarrow> client_loop ctx_done n cn2)
           else if signal = original_signal_heartbeat then
             (case write_original_signal conn_write cn1 original_signal_heartbeat of
                (Some e, cn2) \<Rightarrow> (Some e, n, cn2)
              | (None, cn2) \<Rightarrow> client_loop ctx_done n cn2)
           else if signal = original_signal_closed then (None, n, cn1)
           else client_loop ctx_done n cn1))"
  by pat_completeness auto
termination
proof (relation "measure (\<lambda>(_, _, cn). length (rx cn))", goal_cases)
  case 1
  then show ?case by simp
qed (auto simp: read_original_signal_def conn_input_def write_original_signal_def
    split: sum.splits if_splits dest!: read_full_Ok sym [of "(None, _)"] write_original_full_conn_rx)

declare client_loop.simps [simp del]

text \<open>The whole client: its connection attempts, how it returned (\<open>None\<close>: it is still dialing), and
  the number of workers it has started.\<close>

definition run_original_tcp_client ::
  "client_opts \<Rightarrow> dial list \<Rightarrow> bool \<Rightarrow> connect_action list \<times> (io_error option) option \<times> nat" where
  "run_original_tcp_client opts dials ctx_done =
     (case client_connect opts dials of
        (acts, Connected control) \<Rightarrow>
          (case client_loop ctx_done (nat (cl_PoolSize opts)) control of
             (e, workers, _) \<Rightarrow> (acts, Some e, workers))
      | (acts, Cancelled) \<Rightarrow> (acts, Some None, 0)
      | (acts, Dialing) \<Rightarrow> (acts, None, 0))"

section \<open>Workers\<close>

text \<open>What \<open>runOriginalWorker\<close> goes on to do with the connection it has dialed and the input left on it.\<close>

datatype worker_action =
    Worker_Return
  | Worker_Bridge string bytes
  | Worker_Relay_UDP string bytes

definition run_original_worker :: "net_conn option \<Rightarrow> worker_action" where
  "run_original_worker dialed =
     (case dialed of
        None \<Rightarrow> Worker_Return
      | Some worker \<Rightarrow>
          (case read_original_typed_string (conn_input worker) of
             Inl e \<Rightarrow> Worker_Return
           | Inr ((target, signal), rest) \<Rightarrow>
               (case normalize_original_target target of
                  Inl e \<Rightarrow> Worker_Return
                | Inr target' \<Rightarrow>
                    if signal = original_signal_tcp then Worker_Bridge target' rest
                    else if signal = original_signal_udp then Worker_Relay_UDP target' rest
                    else Worker_Return)))"

section \<open>Properties\<close>

definition waits :: "connect_action list \<Rightarrow> nat" where
  "waits acts = length (filter (\<lambda>a. \<exists>d. a = Act_Wait d) acts)"

definition dials_in :: "connect_action list \<Rightarrow> nat" where
  "dials_in acts = length (filter (\<lambda>a. a = Act_Dial) acts)"

text \<open>The retry interval only separates dials that fail: a server that accepts the connection and
  then refuses the handshake, as one with another token does, is dialed again at once. After any
  number of refused handshakes the client has not waited a single time.\<close>

theorem refused_handshake_not_delayed:
  assumes "list_all (\<lambda>cn. client_handshake opts cn = None) cns"
  shows "\<exists>acts. client_connect opts (map Dialed cns) = (acts, Dialing) \<and>
    dials_in acts = Suc (length cns) \<and> waits acts = 0"
  using assms
proof (induction cns)
  case Nil
  then show ?case by (simp add: dials_in_def waits_def)
next
  case (Cons cn cns)
  then obtain acts where a: "client_connect opts (map Dialed cns) = (acts, Dialing)"
    "dials_in acts = Suc (length cns)" "waits acts = 0" by auto
  with Cons.prems show ?case by (simp add: dials_in_def waits_def)
qed

definition example_opts :: client_opts where
  "example_opts = \<lparr>cl_RemoteAddr = ''h:1'', cl_Transport = ''tcp'', cl_Token = ''t'',
     cl_DialTimeout = 10, cl_RetryInterval = 3, cl_PoolSize = 2, cl_NoDelay = True,
     cl_Keepalive = 40, cl_HeartbeatInterval = 10, cl_HeartbeatTimeout = 25, cl_TLSServerName = []\<rparr>"

theorem refused_handshake_not_delayed_witness:
  "\<exists>acts. client_connect example_opts [Dialed (new_conn []), Dialed (new_conn [])] = (acts, Dialing) \<and>
    dials_in acts = 3 \<and> waits acts = 0"
proof -
  have "client_handshake example_opts (new_conn []) = None"
    by (simp add: client_handshake_def example_opts_def new_conn_def
        write_original_typed_string_def conn_input_def read_original_typed_string_def read_full_def)
  with refused_handshake_not_delayed [of example_opts "[new_conn [], new_conn []]"]
  show ?thesis by (simp add: numeral_3_eq_3)
qed

lemma client_handshake_reply:
  assumes "writable cn" "length (cl_Token opts) \<le> 65535" "0 < cl_HeartbeatTimeout opts"
  shows "client_handshake opts cn =
    (case read_original_typed_string (rx cn) of
       Inl e \<Rightarrow> None
     | Inr ((token, signal), rest) \<Rightarrow>
         if signal \<noteq> original_signal_channel \<or> token \<noteq> cl_Token opts then None
         else Some (cn\<lparr>rx := rest,
           tx := tx cn @ typed_frame original_signal_hello (cl_Token opts)\<rparr>))"
  using assms
  by (simp add: client_handshake_def writable_def write_original_typed_string_def conn_input_def
      split: sum.splits)

lemma read_nothing: "\<exists>e. read_original_typed_string [] = Err e"
  by (simp add: read_original_typed_string_def read_full_def)

lemma typed_frame_prefix_iff:
  assumes "length v \<le> 65535" "length w \<le> 65535"
  shows "prefix (typed_frame a v) (typed_frame b w) \<longleftrightarrow> a = b \<and> v = w"
proof
  assume "prefix (typed_frame a v) (typed_frame b w)"
  then obtain r where r: "typed_frame b w = typed_frame a v @ r" by (auto simp: prefix_def)
  have "read_original_typed_string (typed_frame b w @ []) = Ok ((w, b), [])"
    by (rule read_typed_frame [OF assms(2)])
  then have "Ok ((v, a), r) = (Ok ((w, b), []) :: (io_error, (string \<times> byte) \<times> bytes) result)"
    unfolding append_Nil2 r read_typed_frame [OF assms(1)] .
  then show "a = b \<and> v = w" by simp
qed auto

text \<open>C13. Client and server agree on the outcome of a handshake: when the server's handler reads what
  the client sends and the client reads what the server answers, the server takes the connection
  as its control channel exactly if the client's handshake succeeds, and that is the case exactly
  if both have the same token.\<close>

theorem handshake_agreement:
  assumes "idle_for c s" "length (srv_token s) \<le> 65535" "length (cl_Token opts) \<le> 65535"
    and "0 < cl_HeartbeatTimeout opts" "writable cn" "tx cn = []" "tx (srv_conns s ! c) = []"
    and "rx (srv_conns s ! c) = typed_frame original_signal_hello (cl_Token opts)"
    and "rx cn = tx (srv_conns (handle_steps 6 b c s) ! c)"
  shows "(srv_control (handle_steps 6 b c s) = Some c \<longleftrightarrow> cl_Token opts = srv_token s) \<and>
    (client_handshake opts cn \<noteq> None \<longleftrightarrow> cl_Token opts = srv_token s) \<and>
    (\<forall>cn'. client_handshake opts cn = Some cn' \<longrightarrow> tx cn' = rx (srv_conns s ! c) \<and> rx cn' = [])"
proof (cases "cl_Token opts = srv_token s")
  case True
  have h: "handle_steps 6 b c s = release c (set_conn c ((srv_conns s ! c)\<lparr>rx := [],
      tx := tx (srv_conns s ! c) @ typed_frame original_signal_channel (srv_token s)\<rparr>)
      (s\<lparr>srv_control := Some c\<rparr>))"
    using assms(1,2,8) True by (intro handle_steps_hello) simp_all
  have "rx cn = typed_frame original_signal_channel (srv_token s) @ []"
    using assms(1,7,9) by (simp add: h set_conn_def idle_for_def)
  then have r: "read_original_typed_string (rx cn) = Ok ((srv_token s, original_signal_channel), [])"
    by (simp only: read_typed_frame [OF assms(2)])
  show ?thesis
    using True assms(6,8) by (simp add: client_handshake_reply [OF assms(5,3,4)] r h)
next
  case False
  then have "\<not> prefix (typed_frame original_signal_hello (srv_token s)) (rx (srv_conns s ! c))"
    using assms(2,3,8) typed_frame_prefix_iff by auto
  with assms(1) have h: "handle_steps 6 b c s = release c (close_conn c s)"
    by (rule handle_steps_refused)
  have "rx cn = []"
    using assms(1,7,9) by (simp add: h close_conn_def set_conn_def conn_close_def idle_for_def)
  with read_nothing obtain e where "read_original_typed_string (rx cn) = Err e" by auto
  with False assms(1) show ?thesis
    by (simp add: client_handshake_reply [OF assms(5,3,4)] h idle_for_def)
qed

theorem handshake_agreement_witness:
  "srv_control (handle_steps 6 False 0 example_state) = Some 0 \<and>
   client_handshake example_opts (new_conn (typed_frame original_signal_channel ''t'')) \<noteq> None"
proof -
  have "tx (srv_conns (handle_steps 6 False 0 example_state) ! 0) =
      typed_frame original_signal_channel ''t''"
    using handle_steps_hello [of 0 example_state "[]" False] example_idle
    by (simp add: new_conn_def set_conn_def)
  with handshake_agreement [of 0 example_state example_opts
      "new_conn (typed_frame original_signal_channel ''t'')" False] example_idle
  show ?thesis by (simp add: example_opts_def new_conn_def writable_def)
qed

definition answers :: "bytes \<Rightarrow> bytes" where
  "answers signals =
     filter (\<lambda>b. b = original_signal_rtt \<or> b = original_signal_heartbeat) signals"

definition requests :: "bytes \<Rightarrow> nat" where
  "requests signals = length (filter (\<lambda>b. b = original_signal_channel) signals)"

lemma read_signal_Cons: "read_original_signal (b # bs) = Ok (b, bs)"
  by (simp add: read_original_signal_def read_full_def)

lemma read_signal_Nil: "read_original_signal [] = Err EOF"
  by (simp add: read_original_signal_def read_full_def)

lemma client_loop_step:
  assumes "writable cn" "rx cn = b # bs" "b \<noteq> original_signal_closed"
  shows "client_loop d n cn = client_loop d (n + requests [b])
    (cn\<lparr>rx := bs, tx := tx cn @ answers [b]\<rparr>)"
  using assms
  by (subst client_loop.simps)
    (simp add: conn_input_def writable_def read_signal_Cons requests_def answers_def
      write_original_signal_def signal_defs)

lemma client_loop_signals:
  assumes "writable cn" "rx cn = signals @ rest" "original_signal_closed \<notin> set signals"
  shows "client_loop d n cn = client_loop d (n + requests signals)
    (cn\<lparr>rx := rest, tx := tx cn @ answers signals\<rparr>)"
  using assms
proof (induction signals arbitrary: n cn)
  case Nil
  then have "cn\<lparr>rx := rest, tx := tx cn @ answers []\<rparr> = cn"
    by (simp add: answers_def flip: Nil.prems(2))
  then show ?case by (simp add: requests_def)
next
  case (Cons b bs)
  have "client_loop d n cn = client_loop d (n + requests [b])
      (cn\<lparr>rx := bs @ rest, tx := tx cn @ answers [b]\<rparr>)"
    using Cons.prems by (intro client_loop_step) auto
  also have "\<dots> = client_loop d (n + requests [b] + requests bs)
      (cn\<lparr>rx := rest, tx := tx cn @ answers [b] @ answers bs\<rparr>)"
    using Cons.prems by (subst Cons.IH) (simp_all add: writable_def)
  finally show ?case
    by (simp add: requests_def answers_def split: if_splits)
qed

text \<open>The client answers the control channel faithfully: it echoes exactly the heartbeat and RTT
  signals, in order, starts one worker for each channel signal on top of its pool, ignores unknown
  bytes, and returns without an error at the closed signal; if the stream ends first, the error of
  the read is returned unless the client is shutting down.\<close>

theorem client_loop_answers:
  assumes "writable cn" "original_signal_closed \<notin> set signals"
  shows "(rx cn = signals @ original_signal_closed # rest \<longrightarrow>
      client_loop d n cn = (None, n + requests signals,
        cn\<lparr>rx := rest, tx := tx cn @ answers signals\<rparr>)) \<and>
    (rx cn = signals \<longrightarrow>
      client_loop d n cn = (if d then None else Some EOF, n + requests signals,
        cn\<lparr>rx := [], tx := tx cn @ answers signals\<rparr>))"
proof (intro conjI impI)
  assume "rx cn = signals @ original_signal_closed # rest"
  from client_loop_signals [OF assms(1) this assms(2), of d n] assms(1)
  show "client_loop d n cn = (None, n + requests signals,
      cn\<lparr>rx := rest, tx := tx cn @ answers signals\<rparr>)"
    by (simp add: client_loop.simps [of d "n + requests signals"] conn_input_def writable_def
        read_signal_Cons signal_defs)
next
  assume "rx cn = signals"
  then have "rx cn = signals @ []" by simp
  from client_loop_signals [OF assms(1) this assms(2), of d n] assms(1)
  show "client_loop d n cn = (if d then None else Some EOF, n + requests signals,
      cn\<lparr>rx := [], tx := tx cn @ answers signals\<rparr>)"
    by (simp add: client_loop.simps [of d "n + requests signals"] conn_input_def writable_def
        read_signal_Nil)
qed

theorem client_loop_answers_witness:
  "client_loop False 8 (new_conn [5, 2, 1, 9, 2, 0, 1]) =
     (None, 10, (new_conn [1])\<lparr>tx := [5, 1]\<rparr>)"
  using client_loop_answers [of "new_conn [5, 2, 1, 9, 2, 0, 1]" "[5, 2, 1, 9, 2]" "[1]" False 8]
  by (simp add: writable_def new_conn_def signal_defs requests_def answers_def)

text \<open>The target of a mapping reaches the upstream dial: when the server hands a waiting worker the
  target of a mapping, the client's end of that connection dials exactly this target if it is a
  loopback port, relays datagrams to it if the public connection was a UDP one, and leaves what
  the server sends after the frame for the upstream.\<close>

theorem worker_dials_target:
  assumes "queue (srv_workers s) = w # q" "writable (srv_conns s ! w)" "w < length (srv_conns s)"
    and "tx (srv_conns s ! w) = []" "1 \<le> p" "p \<le> 65535"
    and "signal = original_signal_tcp \<or> signal = original_signal_udp"
  shows "\<exists>s'. acquire_take False b (loopback p) signal s = (Some (Ok w), s') \<and>
    (\<forall>worker later. rx worker = tx (srv_conns s' ! w) @ later \<and> \<not> closed worker \<longrightarrow>
       run_original_worker (Some worker) =
         (if signal = original_signal_tcp then Worker_Bridge (loopback p) later
          else Worker_Relay_UDP (loopback p) later))"
proof -
  have l: "length (itoa p) \<le> 65535" by (rule itoa_port_length [OF assms(5,6)])
  define s' where "s' = set_conn w ((srv_conns s ! w)\<lparr>tx := tx (srv_conns s ! w) @
      typed_frame signal (itoa p)\<rparr>) (s\<lparr>srv_workers := (srv_workers s)\<lparr>queue := q\<rparr>\<rparr>)"
  have "acquire_take False b (loopback p) signal s = (Some (Ok w), s')"
    using assms(1,2) l
    by (subst acquire_take_first [of _ w q]) (simp_all add: s'_def wire_loopback assms(5,6))
  moreover have "tx (srv_conns s' ! w) = typed_frame signal (itoa p)"
    using assms(3,4) by (simp add: s'_def set_conn_def)
  moreover have "run_original_worker (Some worker) =
      (if signal = original_signal_tcp then Worker_Bridge (loopback p) later
       else Worker_Relay_UDP (loopback p) later)"
    if "rx worker = typed_frame signal (itoa p) @ later" "\<not> closed worker" for worker later
    using that assms(7)
    by (auto simp: run_original_worker_def conn_input_def read_typed_frame [OF l]
        normalize_itoa [OF assms(5,6)] signal_defs)
  ultimately show ?thesis by metis
qed

theorem worker_dials_target_witness:
  "\<exists>s'. acquire_take False False (loopback 80) original_signal_udp example_pool = (Some (Ok 2), s') \<and>
    (\<exists>w. run_original_worker w = Worker_Relay_UDP (loopback 80) [1, 2])"
proof -
  obtain s' where s': "acquire_take False False (loopback 80) original_signal_udp example_pool =
      (Some (Ok 2), s')"
    "\<And>worker later. rx worker = tx (srv_conns s' ! 2) @ later \<Longrightarrow> \<not> closed worker \<Longrightarrow>
       run_original_worker (Some worker) = Worker_Relay_UDP (loopback 80) later"
    using worker_dials_target [of example_pool 2 "[1]" 80 original_signal_udp False]
    by (auto simp: new_conn_def writable_def signal_defs)
  have "run_original_worker (Some (new_conn (tx (srv_conns s' ! 2) @ [1, 2]))) =
      Worker_Relay_UDP (loopback 80) [1, 2]"
    by (rule s'(2)) (simp_all add: new_conn_def)
  with s'(1) show ?thesis by blast
qed

end
