(* ===== verification/Control.thy ===== *)
theory Control
  imports Transport Orig_Client Go_Chan
begin

text \<open>
  The control channel of the transports other than the recovered TCP protocol, from
  \<open>internal/tunnel/runner.go\<close>: the preamble of token and role, its check by the server
  (\<open>authenticateControlConn\<close> and the handlers of \<open>runWorkerServer\<close> and \<open>runMuxServer\<close>), the pool of
  idle workers, the target line that turns a worker or a stream into a relay, and the dispatch of
  \<open>RunServer\<close> and \<open>RunClient\<close>. A connection wrapped with its buffered reader (\<open>prefixedConn\<close>) is the
  connection with what the reader has not yet handed out.
\<close>

section \<open>Options and dispatch\<close>

record server_opts =
  sv_BindAddr :: string
  sv_Transport :: string
  sv_Token :: string
  sv_Mappings :: "port_mapping list"
  sv_AcceptUDP :: bool
  sv_NoDelay :: bool
  sv_Keepalive :: int
  sv_HeartbeatInterval :: int
  sv_HeartbeatTimeout :: int
  sv_TLSCert :: string
  sv_TLSKey :: string

definition second :: int where
  "second = 1000000000"

datatype server_run =
    Original_Server server_opts
  | Mux_Server server_opts transport_kind
  | Worker_Server server_opts transport_kind
  | Server_Error string

definition run_server :: "server_opts \<Rightarrow> server_run" where
  "run_server opts =
     (if uses_original_tcp_protocol (sv_Transport opts) then Original_Server opts
      else (case parse_transport (sv_Transport opts) of
              Inl err \<Rightarrow> Server_Error err
            | Inr kind \<Rightarrow>
                (let opts = (if sv_HeartbeatTimeout opts \<le> 0
                             then opts\<lparr>sv_HeartbeatTimeout := 25 * second\<rparr> else opts)
                 in if tk_mux kind then Mux_Server opts kind else Worker_Server opts kind)))"

datatype client_run =
    Original_Client client_opts
  | Mux_Client client_opts transport_kind
  | Worker_Client client_opts transport_kind
  | Client_Error string

definition client_defaults :: "client_opts \<Rightarrow> client_opts" where
  "client_defaults opts =
     opts\<lparr>cl_PoolSize := if cl_PoolSize opts \<le> 0 then 8 else cl_PoolSize opts,
          cl_DialTimeout := if cl_DialTimeout opts \<le> 0 then 10 * second else cl_DialTimeout opts,
          cl_RetryInterval := if cl_RetryInterval opts \<le> 0 then 3 * second else cl_RetryInterval opts,
          cl_HeartbeatTimeout :=
            if cl_HeartbeatTimeout opts \<le> 0 then 25 * second else cl_HeartbeatTimeout opts\<rparr>"

definition run_client :: "client_opts \<Rightarrow> client_run" where
  "run_client opts =
     (if uses_original_tcp_protocol (cl_Transport opts) then Original_Client opts
      else (case parse_transport (cl_Transport opts) of
              Inl err \<Rightarrow> Client_Error err
            | Inr kind \<Rightarrow>
                (let opts = client_defaults opts
                 in if tk_mux kind then Mux_Client opts kind else Worker_Client opts kind)))"

section \<open>The preamble\<close>

definition role_worker :: string where
  "role_worker = ''WORKER''"

definition role_mux :: string where
  "role_mux = ''MUX''"

abbreviation nl :: string where "nl \<equiv> [CHR 0x0A]"

text \<open>What \<open>dialControlConn\<close> writes on a connection it has dialled; a failed write closes it.\<close>

definition send_preamble :: "string \<Rightarrow> string \<Rightarrow> net_conn \<Rightarrow> (io_error, net_conn) result" where
  "send_preamble token role conn =
     (case conn_write conn (bytes_of (token @ nl @ role @ nl)) of
        ((_, Some e), _) \<Rightarrow> Err e
      | ((_, None), conn') \<Rightarrow> Ok conn')"

text \<open>A preamble that has not arrived at the read deadline is one that does not arrive.\<close>

definition authenticate_control_conn ::
  "net_conn \<Rightarrow> string \<Rightarrow> (io_error, net_conn \<times> string) result" where
  "authenticate_control_conn conn token =
     (case read_string_nl (conn_input conn) of
        Inl err \<Rightarrow> Err err
      | Inr (tok, r1) \<Rightarrow>
          (case read_string_nl r1 of
             Inl err \<Rightarrow> Err err
           | Inr (role, r2) \<Rightarrow>
               (let tok = trim_space (string_of tok) in
                if token \<noteq> [] \<and> tok \<noteq> token then Err (Protocol_Error ''invalid token'')
                else Ok (conn\<lparr>rx := r2\<rparr>, trim_space (string_of role)))))"

text \<open>The handlers of the worker server and of the mux server: keep the connection, or close it.\<close>

datatype handled = Handled_Kept net_conn | Handled_Closed net_conn

definition control_handler :: "string \<Rightarrow> string \<Rightarrow> net_conn \<Rightarrow> handled" where
  "control_handler token role conn =
     (case authenticate_control_conn conn token of
        Inl err \<Rightarrow> Handled_Closed (conn_close conn)
      | Inr (auth_conn, r) \<Rightarrow>
          if r \<noteq> role then Handled_Closed (conn_close auth_conn) else Handled_Kept auth_conn)"

section \<open>The pool of workers\<close>

definition make_worker_pool :: "net_conn chan" where
  "make_worker_pool = make_chan 512"

text \<open>The worker server's handler offers the connection to the pool; while the pool is full it waits
  (\<open>None\<close>).\<close>

definition worker_handler :: "string \<Rightarrow> net_conn \<Rightarrow> net_conn chan \<Rightarrow> (handled \<times> net_conn chan) option" where
  "worker_handler token conn pool =
     (case control_handler token role_worker conn of
        Handled_Closed c \<Rightarrow> Some (Handled_Closed c, pool)
      | Handled_Kept c \<Rightarrow>
          (case try_send pool c of Sent pool' \<Rightarrow> Some (Handled_Kept c, pool') | _ \<Rightarrow> None))"

text \<open>The line that names the target, for the TCP and the UDP listener of a mapping.\<close>

definition target_line :: "bool \<Rightarrow> string \<Rightarrow> bytes" where
  "target_line udp target = bytes_of ((if udp then ''UDP '' else []) @ target @ nl)"

text \<open>The listeners' \<open>acquire\<close>: the workers that were closed, and the worker obtained with the pool
  that is left; no worker while the pool is empty.\<close>

fun acquire_worker ::
  "bool \<Rightarrow> string \<Rightarrow> net_conn list \<Rightarrow> net_conn list \<times> net_conn option \<times> net_conn list" where
  "acquire_worker udp target [] = ([], None, [])"
| "acquire_worker udp target (worker # pool) =
     (case conn_write worker (target_line udp target) of
        ((_, Some e), w) \<Rightarrow>
          (case acquire_worker udp target pool of (dead, rest) \<Rightarrow> (conn_close w # dead, rest))
      | ((_, None), w) \<Rightarrow> ([], Some w, pool))"

section \<open>The target line on the client\<close>

datatype relay = Relay_TCP string | Relay_UDP string

text \<open>What a client does with the line it reads from a worker connection or from a mux stream; the
  bytes behind it stay in the reader.\<close>

definition read_target :: "bytes \<Rightarrow> (io_error, relay \<times> bytes) result" where
  "read_target inp =
     (case read_string_nl inp of
        Inl err \<Rightarrow> Err err
      | Inr (line, rest) \<Rightarrow>
          (let target = trim_space (string_of line) in
           Ok (if prefix ''UDP '' target
               then Relay_UDP (trim_space (trim_prefix ''UDP '' target))
               else Relay_TCP target,
               rest)))"

text \<open>
  One round of \<open>runWorkerLoop\<close>, with time: the control connection was dialled at \<open>t0\<close>, its bytes
  arrive in pieces at given times (nanoseconds, in order). The read deadline that is set before the
  target line is read stays in force, so a read finds only what has arrived before it; a gRPC
  connection has no deadlines (its \<open>SetReadDeadline\<close> does nothing).
\<close>

type_synonym arrivals = "(int \<times> bytes) list"

definition arrived_before :: "int \<Rightarrow> arrivals \<Rightarrow> bytes" where
  "arrived_before deadline arr = concat (map snd (takeWhile (\<lambda>(t, _). t < deadline) arr))"

datatype worker_round =
    Round_Dial_Failed int
  | Round_Bad_Target int
  | Round_Relay relay bytes

definition worker_input :: "client_opts \<Rightarrow> transport_kind \<Rightarrow> int \<Rightarrow> arrivals \<Rightarrow> bytes" where
  "worker_input opts kind t0 arr =
     (if tk_grpc kind then concat (map snd arr)
      else arrived_before (t0 + cl_HeartbeatTimeout opts) arr)"

definition run_worker_round ::
  "client_opts \<Rightarrow> transport_kind \<Rightarrow> int \<Rightarrow> (io_error, arrivals) result \<Rightarrow> worker_round" where
  "run_worker_round opts kind t0 dialled =
     (case dialled of
        Inl err \<Rightarrow> Round_Dial_Failed (cl_RetryInterval opts)
      | Inr arr \<Rightarrow>
          (case read_target (worker_input opts kind t0 arr) of
             Inl err \<Rightarrow> Round_Bad_Target (cl_RetryInterval opts)
           | Inr (r, rest) \<Rightarrow> Round_Relay r rest))"

text \<open>A stream of the mux client has no deadline.\<close>

definition run_mux_stream :: "arrivals \<Rightarrow> (io_error, relay \<times> bytes) result" where
  "run_mux_stream arr = read_target (concat (map snd arr))"

section \<open>Authentication\<close>

lemma conn_input_new [simp]: "conn_input (new_conn input) = input"
  by (simp add: conn_input_def new_conn_def)

lemma trim_space_role [simp]: "trim_space role_worker = role_worker" "trim_space role_mux = role_mux"
  by (simp_all add: role_worker_def role_mux_def edge_graphic_def graphic_def)

lemma authenticate_preamble:
  assumes "CHR 0x0A \<notin> set tc" "CHR 0x0A \<notin> set role"
    and "conn_input conn = bytes_of (tc @ nl @ role @ nl) @ rest"
  shows "authenticate_control_conn conn ts =
    (if ts \<noteq> [] \<and> trim_space tc \<noteq> ts then Err (Protocol_Error ''invalid token'')
     else Ok (conn\<lparr>rx := rest\<rparr>, trim_space role))"
proof -
  have "conn_input conn = bytes_of (tc @ nl) @ (bytes_of (role @ nl) @ rest)"
    using assms(3) by (simp only: bytes_of_append append_assoc)
  then have "read_string_nl (conn_input conn) = Ok (bytes_of (tc @ nl), bytes_of (role @ nl) @ rest)"
    using read_text_line [OF assms(1)] by simp
  moreover have "read_string_nl (bytes_of (role @ nl) @ rest) = Ok (bytes_of (role @ nl), rest)"
    by (rule read_text_line [OF assms(2)])
  ultimately show ?thesis
    by (simp only: authenticate_control_conn_def sum.case prod.case string_of_bytes_of
        trim_space_newline Let_def)
qed

lemma authenticate_Ok:
  assumes "authenticate_control_conn conn token = Ok (c, role)"
  obtains l1 l2 where "conn_input conn = bytes_of (l1 @ nl) @ bytes_of (l2 @ nl) @ rx c"
    "token = [] \<or> trim_space l1 = token" "trim_space l2 = role" "c = conn\<lparr>rx := rx c\<rparr>"
proof -
  from assms obtain tok r1 rl r2 where
    1: "read_string_nl (conn_input conn) = Ok (tok, r1)" "read_string_nl r1 = Ok (rl, r2)"
    and 2: "token = [] \<or> trim_space (string_of tok) = token" "role = trim_space (string_of rl)"
      "c = conn\<lparr>rx := r2\<rparr>"
    by (auto simp: authenticate_control_conn_def Let_def split: sum.splits if_splits)
  from read_string_nl_Ok [OF 1(1)] obtain a where tok: "conn_input conn = tok @ r1" "tok = a @ [newline]"
    by (metis append_butlast_last_id)
  from read_string_nl_Ok [OF 1(2)] obtain b where rl: "r1 = rl @ r2" "rl = b @ [newline]"
    by (metis append_butlast_last_id)
  have "conn_input conn = bytes_of (string_of a @ nl) @ bytes_of (string_of b @ nl) @ rx c"
    using tok rl 2(3) by simp
  moreover have "token = [] \<or> trim_space (string_of a) = token" "trim_space (string_of b) = role"
    using 2(1,2) tok(2) rl(2) by simp_all
  ultimately show ?thesis using that 2(3) by (metis net_conn.select_convs(1) net_conn.surjective net_conn.update_convs(1))
qed

lemma send_preamble_Ok:
  "send_preamble token role conn = Ok conn' \<Longrightarrow>
   tx conn' = tx conn @ bytes_of (token @ nl @ role @ nl) \<and> rx conn' = rx conn \<and> closed conn' = closed conn"
  unfolding send_preamble_def
  by (auto split: prod.splits option.splits dest: conn.write_ok conn_write_frame)

lemma role_no_newline [simp]: "CHR 0x0A \<notin> set role_worker" "CHR 0x0A \<notin> set role_mux"
  by (simp_all add: role_worker_def role_mux_def)

lemma role_neq [simp]: "role_worker \<noteq> role_mux" "role_mux \<noteq> role_worker"
  by (simp_all add: role_worker_def role_mux_def)

text \<open>C9. The control handshake. When the server reads what a client has sent on a new connection, the
  server keeps the connection exactly if the roles are the same and either it has no token or the
  client's token without the white space around it is the server's token as it stands; what the
  client sends behind the preamble is then what the kept connection still delivers.\<close>

theorem control_handshake:
  assumes "send_preamble tc role_c client = Ok client'" "tx client = []"
    and "CHR 0x0A \<notin> set tc" "role_c \<in> {role_worker, role_mux}"
    and "conn_input server = tx client' @ later"
  shows "control_handler ts role_s server =
    (if (ts = [] \<or> trim_space tc = ts) \<and> role_c = role_s then Handled_Kept (server\<lparr>rx := later\<rparr>)
     else if ts = [] \<or> trim_space tc = ts then Handled_Closed (conn_close (server\<lparr>rx := later\<rparr>))
     else Handled_Closed (conn_close server))"
proof -
  have "conn_input server = bytes_of (tc @ nl @ role_c @ nl) @ later"
    using send_preamble_Ok [OF assms(1)] assms(2,5) by simp
  moreover have "CHR 0x0A \<notin> set role_c" "trim_space role_c = role_c" using assms(4) by auto
  ultimately have "authenticate_control_conn server ts =
      (if ts \<noteq> [] \<and> trim_space tc \<noteq> ts then Err (Protocol_Error ''invalid token'')
       else Ok (server\<lparr>rx := later\<rparr>, role_c))"
    using authenticate_preamble [OF assms(3)] by simp
  then show ?thesis by (auto simp: control_handler_def)
qed

theorem control_handshake_witness:
  "control_handler ''secret'' role_worker (new_conn (bytes_of (''secret'' @ nl @ role_worker @ nl) @ [1, 2])) =
     Handled_Kept (new_conn [1, 2])"
proof -
  have s: "send_preamble ''secret'' role_worker (new_conn []) =
      Ok ((new_conn [])\<lparr>tx := bytes_of (''secret'' @ nl @ role_worker @ nl)\<rparr>)"
    by (simp add: send_preamble_def new_conn_def)
  have t: "trim_space ''secret'' = ''secret''" by (simp add: edge_graphic_def graphic_def)
  show ?thesis
    using control_handshake [OF s, where ts = "''secret''" and role_s = role_worker
        and later = "[1, 2]"
        and server = "new_conn (bytes_of (''secret'' @ nl @ role_worker @ nl) @ [1, 2])"] t
    by (simp add: new_conn_def conn_input_def)
qed

text \<open>C10. Only an authenticated connection is kept: whatever bytes a connection delivers, if the handler
  keeps it then they start with two lines, the first one is the server's token (unless the server has
  none), the second one the expected role, both up to white space, and nothing behind them is lost.\<close>

theorem kept_only_authenticated:
  assumes "control_handler token role conn = Handled_Kept c"
  shows "\<exists>l1 l2. conn_input conn = bytes_of (l1 @ nl) @ bytes_of (l2 @ nl) @ rx c \<and>
    (token = [] \<or> trim_space l1 = token) \<and> trim_space l2 = role"
proof -
  from assms have "authenticate_control_conn conn token = Ok (c, role)"
    by (auto simp: control_handler_def split: sum.splits if_splits)
  then show ?thesis by (rule authenticate_Ok) blast
qed

theorem kept_only_authenticated_witness:
  "\<exists>l1 l2. conn_input (new_conn (bytes_of (''k'' @ nl @ role_mux @ nl))) =
      bytes_of (l1 @ nl) @ bytes_of (l2 @ nl) @ [] \<and>
    (''k'' = [] \<or> trim_space l1 = ''k'') \<and> trim_space l2 = role_mux"
proof -
  have "trim_space ''k'' = ''k''" by (simp add: edge_graphic_def graphic_def)
  then have "control_handler ''k'' role_mux (new_conn (bytes_of (''k'' @ nl @ role_mux @ nl))) =
      Handled_Kept (new_conn [])"
    using authenticate_preamble [of "''k''" role_mux
        "new_conn (bytes_of (''k'' @ nl @ role_mux @ nl))" "[]" "''k''"]
    by (simp add: control_handler_def new_conn_def conn_input_def)
  from kept_only_authenticated [OF this] show ?thesis by (simp add: new_conn_def)
qed

text \<open>A token with white space at an end locks every client out: the server compares the trimmed line
  with the token as it is configured.\<close>

theorem edge_space_token_refused:
  assumes "trim_space token \<noteq> token"
  shows "\<exists>c. control_handler token role conn = Handled_Closed c"
proof (cases "control_handler token role conn")
  case (Handled_Kept c)
  then have "authenticate_control_conn conn token = Ok (c, role)"
    by (auto simp: control_handler_def split: sum.splits if_splits)
  then obtain l where "token = [] \<or> trim_space l = token" by (rule authenticate_Ok) blast
  with assms show ?thesis by auto
qed blast

theorem edge_space_token_refused_witness:
  "\<exists>c. control_handler ''secret '' role_worker
     (new_conn (bytes_of (''secret '' @ nl @ role_worker @ nl))) = Handled_Closed c"
proof -
  have "trim_space ''secret '' = ''secret''"
    using trim_space_append_blank [of "''secret''"] by (simp add: edge_graphic_def graphic_def)
  then have "trim_space ''secret '' \<noteq> ''secret ''" by simp
  then show ?thesis by (rule edge_space_token_refused)
qed

section \<open>Workers and target lines\<close>

definition refuses :: "bool \<Rightarrow> string \<Rightarrow> net_conn \<Rightarrow> bool" where
  "refuses udp target worker \<longleftrightarrow> (\<exists>n e w. conn_write worker (target_line udp target) = ((n, Some e), w))"

lemma acquire_worker_refused:
  "list_all (refuses udp target) dead \<Longrightarrow>
   acquire_worker udp target (dead @ pool) =
     (case acquire_worker udp target pool of
        (cs, rest) \<Rightarrow>
          (map (\<lambda>w. conn_close (snd (conn_write w (target_line udp target)))) dead @ cs, rest))"
proof (induction dead)
  case Nil
  then show ?case by (cases "acquire_worker udp target pool") simp
next
  case (Cons w dead)
  then obtain n e w' where "conn_write w (target_line udp target) = ((n, Some e), w')"
    by (auto simp: refuses_def)
  with Cons show ?case by (auto split: prod.splits)
qed

lemma dropWhile_refuses_hd:
  assumes "dropWhile (refuses udp target) pool = w # rest"
  obtains w' n where "conn_write w (target_line udp target) = ((n, None), w')"
    "tx w' = tx w @ target_line udp target" "rx w' = rx w"
proof -
  have "\<not> refuses udp target w" using assms by (metis hd_dropWhile list.sel(1) list.simps(3))
  then obtain n w' where w: "conn_write w (target_line udp target) = ((n, None), w')"
    unfolding refuses_def by (metis old.prod.exhaust option.exhaust)
  from conn.write_ok [OF this] conn_write_frame [OF w] w show ?thesis using that by blast
qed

text \<open>A public connection gets the oldest worker that still takes the target line: the ones before it
  refused it and are closed, the worker has been sent exactly the line, the ones behind it stay; only
  if all of them refuse does the request go on waiting, with an empty pool.\<close>

theorem acquire_worker_oldest:
  "(case dropWhile (refuses udp target) pool of
      [] \<Rightarrow> snd (acquire_worker udp target pool) = (None, [])
    | w # rest \<Rightarrow>
        \<exists>w'. snd (acquire_worker udp target pool) = (Some w', rest) \<and>
          tx w' = tx w @ target_line udp target \<and> rx w' = rx w) \<and>
   fst (acquire_worker udp target pool) =
     map (\<lambda>w. conn_close (snd (conn_write w (target_line udp target)))) (takeWhile (refuses udp target) pool)"
proof -
  define dead where "dead = takeWhile (refuses udp target) pool"
  define live where "live = dropWhile (refuses udp target) pool"
  have dead: "list_all (refuses udp target) dead"
    unfolding dead_def by (auto simp: list_all_iff dest: set_takeWhileD)
  have pool: "dead @ live = pool" by (simp add: dead_def live_def)
  note split = acquire_worker_refused [OF dead, of live, unfolded pool]
  show ?thesis
  proof (cases live)
    case Nil
    with split have "acquire_worker udp target pool =
        (map (\<lambda>w. conn_close (snd (conn_write w (target_line udp target)))) dead, None, [])" by simp
    with Nil show ?thesis unfolding live_def [symmetric] dead_def [symmetric] by simp
  next
    case (Cons w rest)
    then obtain w' n where w: "conn_write w (target_line udp target) = ((n, None), w')"
      "tx w' = tx w @ target_line udp target" "rx w' = rx w"
      unfolding live_def by (rule dropWhile_refuses_hd)
    with split Cons have "acquire_worker udp target pool =
        (map (\<lambda>w. conn_close (snd (conn_write w (target_line udp target)))) dead, Some w', rest)"
      by simp
    with Cons w show ?thesis unfolding live_def [symmetric] dead_def [symmetric] by auto
  qed
qed

lemma read_target_line:
  assumes "CHR 0x0A \<notin> set target"
  shows "read_target (target_line udp target @ later) =
    Ok (let t = trim_space ((if udp then ''UDP '' else []) @ target) in
        if prefix ''UDP '' t then Relay_UDP (trim_space (trim_prefix ''UDP '' t)) else Relay_TCP t,
        later)"
proof -
  define l where "l = (if udp then ''UDP '' else []) @ target"
  then have "CHR 0x0A \<notin> set l" using assms by auto
  then have "read_string_nl (bytes_of (l @ nl) @ later) = Ok (bytes_of (l @ nl), later)"
    by (rule read_text_line)
  moreover have "target_line udp target = bytes_of (l @ nl)"
    by (simp only: target_line_def l_def append_assoc)
  ultimately show ?thesis
    by (simp only: read_target_def sum.case prod.case string_of_bytes_of trim_space_newline Let_def l_def)
qed

text \<open>The target line arrives: for a target of graphic characters at its ends, without a newline and not
  starting with \<open>UDP\<close> and a blank, the client relays over the listener's network to that very
  target, and the bytes behind the line are relayed, none lost.\<close>

theorem target_line_roundtrip:
  assumes "edge_graphic target" "CHR 0x0A \<notin> set target" "\<not> prefix ''UDP '' target"
  shows "read_target (target_line udp target @ later) =
    Ok (if udp then Relay_UDP target else Relay_TCP target, later)"
proof -
  have "edge_graphic (''UDP '' @ target)"
    using assms(1) by (auto simp: edge_graphic_def graphic_def)
  then show ?thesis
    using assms by (simp add: read_target_line Let_def trim_prefix_def)
qed

theorem target_line_roundtrip_witness:
  "read_target (target_line True ''127.0.0.1:53'' @ [7, 8]) = Ok (Relay_UDP ''127.0.0.1:53'', [7, 8])"
  using target_line_roundtrip [of "''127.0.0.1:53''" True "[7, 8]"]
  by (simp add: edge_graphic_def graphic_def)

lemma read_target_append:
  assumes "read_target inp = Ok (r, rest)"
  shows "read_target (inp @ later) = Ok (r, rest @ later)"
proof (cases "read_string_nl inp")
  case (Inr p)
  then obtain line where l: "read_string_nl inp = Ok (line, rest)"
    using assms by (cases p) (auto simp: read_target_def Let_def)
  from read_string_nl_append [OF this] l assms show ?thesis by (simp add: read_target_def Let_def)
qed (use assms in \<open>simp add: read_target_def\<close>)

lemma arrived_before_split:
  assumes "list_all (\<lambda>(t, _). t < deadline) early" "late \<noteq> [] \<longrightarrow> deadline \<le> fst (hd late)"
  shows "arrived_before deadline (early @ late) = concat (map snd early)"
proof -
  have "takeWhile (\<lambda>(t, _). t < deadline) (early @ late) = early"
    using assms by (cases late) (auto simp: list_all_iff takeWhile_append takeWhile_eq_all_conv)
  then show ?thesis by (simp add: arrived_before_def)
qed

text \<open>C29. Over every transport but gRPC, a worker relays only what its control connection delivers within
  one heartbeat timeout of the dial: the read deadline of the target line stays in force during
  the relay. What arrives later is lost to the worker, while a mux stream with the same arrivals
  relays it.\<close>

theorem worker_relay_cut_at_deadline:
  assumes "run_client opts = Worker_Client eff k"
    and "list_all (\<lambda>(t, _). t < t0 + cl_HeartbeatTimeout eff) early"
    and "late \<noteq> [] \<longrightarrow> t0 + cl_HeartbeatTimeout eff \<le> fst (hd late)"
    and "read_target (concat (map snd early)) = Ok (r, rest)"
    and "\<not> tk_grpc k"
  shows "0 < cl_HeartbeatTimeout eff \<and>
    run_worker_round eff k t0 (Ok (early @ late)) = Round_Relay r rest \<and>
    run_mux_stream (early @ late) = Ok (r, rest @ concat (map snd late))"
proof (intro conjI)
  from assms(1) have "eff = client_defaults opts"
    by (auto simp: run_client_def Let_def split: if_splits sum.splits)
  then show "0 < cl_HeartbeatTimeout eff" by (simp add: client_defaults_def second_def)
  show "run_worker_round eff k t0 (Ok (early @ late)) = Round_Relay r rest"
    using arrived_before_split [OF assms(2,3)] assms(4,5)
    by (simp add: run_worker_round_def worker_input_def)
  show "run_mux_stream (early @ late) = Ok (r, rest @ concat (map snd late))"
    using read_target_append [OF assms(4)] by (simp add: run_mux_stream_def)
qed

definition example_client :: client_opts where
  "example_client =
     \<lparr>cl_RemoteAddr = ''host:9000'', cl_Transport = ''ws'', cl_Token = ''k'', cl_DialTimeout = 0,
      cl_RetryInterval = 0, cl_PoolSize = 0, cl_NoDelay = True, cl_Keepalive = 0,
      cl_HeartbeatInterval = 0, cl_HeartbeatTimeout = 0, cl_TLSServerName = ''''\<rparr>"

lemma example_client_run:
  "run_client example_client =
     Worker_Client (client_defaults example_client) (plain_kind\<lparr>tk_ws := True\<rparr>)"
proof -
  have "parse_transport ''ws'' = Ok (plain_kind\<lparr>tk_ws := True\<rparr>)" by code_simp
  moreover have "\<not> uses_original_tcp_protocol ''ws''" by code_simp
  ultimately show ?thesis by (simp add: run_client_def example_client_def plain_kind_def)
qed

theorem worker_relay_cut_at_deadline_witness:
  "run_worker_round (client_defaults example_client) (plain_kind\<lparr>tk_ws := True\<rparr>) 0
     (Ok [(1000, target_line False ''h:80'' @ [1]), (26000000000, [2, 3])]) =
   Round_Relay (Relay_TCP ''h:80'') [1] \<and>
   run_mux_stream [(1000, target_line False ''h:80'' @ [1]), (26000000000, [2, 3])] =
   Ok (Relay_TCP ''h:80'', [1, 2, 3])"
proof -
  have "read_target (target_line False ''h:80'' @ [1]) = Ok (Relay_TCP ''h:80'', [1])"
    by (subst read_target_line) (simp_all add: Let_def edge_graphic_def graphic_def)
  with example_client_run show ?thesis
    using worker_relay_cut_at_deadline [of example_client "client_defaults example_client"
        "plain_kind\<lparr>tk_ws := True\<rparr>" 0 "[(1000, target_line False ''h:80'' @ [1])]"
        "[(26000000000, [2, 3])]" "Relay_TCP ''h:80''" "[1]"]
    by (simp add: client_defaults_def example_client_def second_def plain_kind_def)
qed

text \<open>A worker whose line does not come in time gives up and dials again; the server, which does not read
  from waiting workers, hands out the abandoned connection first.\<close>

theorem idle_worker_handed_out:
  assumes "worker_handler token old pool = Some (Handled_Kept old', p1)"
    and "worker_handler token new p1 = Some (Handled_Kept new', p2)"
    and "queue pool = []" "\<not> refuses udp target old'"
  shows "(\<exists>w. snd (acquire_worker udp target (queue p2)) = (Some w, [new']) \<and>
      tx w = tx old' @ target_line udp target) \<and>
    (worker_input eff k t0 arr = [] \<longrightarrow>
      run_worker_round eff k t0 (Ok arr) = Round_Bad_Target (cl_RetryInterval eff))"
proof -
  from assms(1,2,3) have "queue p2 = [old', new']"
    by (auto simp: worker_handler_def try_send_conv split: handled.splits send_result.splits)
  with acquire_worker_oldest [of udp target "queue p2"] assms(4)
  show ?thesis
    by (auto simp: run_worker_round_def read_target_def read_string_nl_def)
qed

text \<open>With a heartbeat timeout that is not positive, the recovered TCP protocol never connects, whatever
  the network does, because its client applies no default; the client of every other transport runs
  with 25 seconds instead.\<close>

theorem zero_heartbeat_timeout:
  assumes "cl_HeartbeatTimeout opts \<le> 0"
  shows "(case run_client opts of
      Original_Client eff \<Rightarrow> \<forall>ds c. snd (client_connect eff ds) \<noteq> Connected c
    | Mux_Client eff k \<Rightarrow> cl_HeartbeatTimeout eff = 25 * second
    | Worker_Client eff k \<Rightarrow> cl_HeartbeatTimeout eff = 25 * second
    | Client_Error e \<Rightarrow> \<exists>e. parse_transport (cl_Transport opts) = Err e)"
proof -
  have "snd (client_connect opts ds) \<noteq> Connected c" for ds c
    using assms
  proof (induction opts ds rule: client_connect.induct)
    case (2 opts ctx_done ds)
    then show ?case by (auto split: prod.splits)
  next
    case (3 opts conn ds)
    then have "client_handshake opts conn = None" by (simp add: client_handshake_def)
    with 3 show ?case by (auto split: prod.splits)
  qed simp
  with assms show ?thesis
    by (auto simp: run_client_def client_defaults_def Let_def split: sum.splits)
qed

theorem zero_heartbeat_timeout_witness:
  "run_client (example_client\<lparr>cl_Transport := ''tcp''\<rparr>) = Original_Client (example_client\<lparr>cl_Transport := ''tcp''\<rparr>) \<and>
   (\<forall>ds c. snd (client_connect (example_client\<lparr>cl_Transport := ''tcp''\<rparr>) ds) \<noteq> Connected c)"
proof -
  have "uses_original_tcp_protocol ''tcp''" by code_simp
  then have r: "run_client (example_client\<lparr>cl_Transport := ''tcp''\<rparr>) =
      Original_Client (example_client\<lparr>cl_Transport := ''tcp''\<rparr>)"
    by (simp add: run_client_def)
  have "cl_HeartbeatTimeout (example_client\<lparr>cl_Transport := ''tcp''\<rparr>) \<le> 0"
    by (simp add: example_client_def)
  from zero_heartbeat_timeout [OF this] r show ?thesis by simp
qed

end
