(* ===== verification/Bridge.thy ===== *)
theory Bridge
  imports Go_IO
begin

text \<open>
  \<open>bridge\<close> of \<open>internal/tunnel/runner.go\<close>: two goroutines that copy between connections \<open>a\<close> and
  \<open>b\<close>. When the copy into a connection ends, the read deadline of that connection is set to now, which
  ends the copy out of it, if the connection honours deadlines (TCP and what wraps it does; a
  multiplexed stream, a gRPC connection and a connection of the UDP listener do not). The deadline is
  one for reads: a write that the peer does not take goes on waiting. The bridge returns when both
  goroutines have.
\<close>

section \<open>State and steps\<close>

text \<open>One connection: what can be read, whether its peer has finished sending, what was written to it,
  whether writes fail or wait, whether it honours deadlines and whether one has passed;
  \<open>be_seen\<close> is the history of what arrived.\<close>

record bridge_end =
  be_in :: bytes
  be_eof :: bool
  be_out :: bytes
  be_broken :: bool
  be_stalled :: bool
  be_honours :: bool
  be_deadline :: bool
  be_seen :: bytes

definition bridge_end_new :: "bool \<Rightarrow> bridge_end" where
  "bridge_end_new honours =
     \<lparr>be_in = [], be_eof = False, be_out = [], be_broken = False, be_stalled = False,
      be_honours = honours, be_deadline = False, be_seen = []\<rparr>"

text \<open>Where a copy is: before a read, with bytes that are read and not yet written, or over.\<close>

datatype copy_state =
    Reading
  | Writing bytes
  | Copy_Ended

fun in_flight :: "copy_state \<Rightarrow> bytes" where
  "in_flight (Writing bs) = bs"
| "in_flight _ = []"

text \<open>The bridge seen from one side: the near connection is the source of the copy \<open>br_to\<close> and the
  destination of \<open>br_from\<close>.\<close>

record bridge =
  br_near :: bridge_end
  br_far :: bridge_end
  br_to :: copy_state
  br_from :: copy_state

definition bridge_start :: "bool \<Rightarrow> bool \<Rightarrow> bridge" where
  "bridge_start honours_a honours_b =
     \<lparr>br_near = bridge_end_new honours_a, br_far = bridge_end_new honours_b,
      br_to = Reading, br_from = Reading\<rparr>"

definition flip :: "bridge \<Rightarrow> bridge" where
  "flip s = \<lparr>br_near = br_far s, br_far = br_near s, br_to = br_from s, br_from = br_to s\<rparr>"

definition expired :: "bridge_end \<Rightarrow> bool" where
  "expired e \<longleftrightarrow> be_honours e \<and> be_deadline e"

text \<open>\<open>io.Copy\<close> reads at most 32768 bytes and writes them; the connection may take them in pieces.\<close>

definition copy_size :: nat where
  "copy_size = 32768"

definition copy_read :: "nat \<Rightarrow> bridge \<Rightarrow> bridge" where
  "copy_read n s =
     s\<lparr>br_near := (br_near s)\<lparr>be_in := drop n (be_in (br_near s))\<rparr>,
       br_to := Writing (take n (be_in (br_near s)))\<rparr>"

definition copy_write :: "nat \<Rightarrow> bridge \<Rightarrow> bridge" where
  "copy_write k s =
     s\<lparr>br_far := (br_far s)\<lparr>be_out := be_out (br_far s) @ take k (in_flight (br_to s))\<rparr>,
       br_to := (if drop k (in_flight (br_to s)) = [] then Reading
                 else Writing (drop k (in_flight (br_to s))))\<rparr>"

definition ended :: "bridge \<Rightarrow> bridge" where
  "ended s = s\<lparr>br_to := Copy_Ended, br_far := (br_far s)\<lparr>be_deadline := True\<rparr>\<rparr>"

inductive flow :: "bridge \<Rightarrow> bridge \<Rightarrow> bool" where
  Read: "br_to s = Reading \<Longrightarrow> \<not> expired (br_near s) \<Longrightarrow> 0 < n \<Longrightarrow> n \<le> copy_size \<Longrightarrow>
    n \<le> length (be_in (br_near s)) \<Longrightarrow> flow s (copy_read n s)"
| Write: "br_to s = Writing bs \<Longrightarrow> 0 < k \<Longrightarrow> k \<le> length bs \<Longrightarrow>
    \<not> be_broken (br_far s) \<Longrightarrow> \<not> be_stalled (br_far s) \<Longrightarrow> flow s (copy_write k s)"
| Fail: "br_to s = Writing bs \<Longrightarrow> be_broken (br_far s) \<Longrightarrow> flow s (ended s)"
| Stop: "br_to s = Reading \<Longrightarrow> expired (br_near s) \<or> be_in (br_near s) = [] \<and> be_eof (br_near s) \<Longrightarrow>
    flow s (ended s)"

text \<open>What happens to the near connection from outside: bytes arrive, the peer finishes, writes begin to
  fail, the peer stops taking bytes or takes them again.\<close>

inductive outside :: "bridge \<Rightarrow> bridge \<Rightarrow> bool" where
  Arrive: "\<not> be_eof (br_near s) \<Longrightarrow> outside s
    (s\<lparr>br_near := (br_near s)\<lparr>be_in := be_in (br_near s) @ bs, be_seen := be_seen (br_near s) @ bs\<rparr>\<rparr>)"
| Finish: "outside s (s\<lparr>br_near := (br_near s)\<lparr>be_eof := True\<rparr>\<rparr>)"
| Break: "outside s (s\<lparr>br_near := (br_near s)\<lparr>be_broken := True\<rparr>\<rparr>)"
| Stall: "outside s (s\<lparr>br_near := (br_near s)\<lparr>be_stalled := b\<rparr>\<rparr>)"

definition bridge_step :: "bridge \<Rightarrow> bridge \<Rightarrow> bool" where
  "bridge_step s s' \<longleftrightarrow> flow s s' \<or> flow (flip s) (flip s')"

definition outside_step :: "bridge \<Rightarrow> bridge \<Rightarrow> bool" where
  "outside_step s s' \<longleftrightarrow> outside s s' \<or> outside (flip s) (flip s')"

inductive bridge_run :: "bridge \<Rightarrow> bridge \<Rightarrow> bool" for s where
  Here: "bridge_run s s"
| Step: "bridge_run s t \<Longrightarrow> bridge_step t u \<Longrightarrow> bridge_run s u"
| Outside: "bridge_run s t \<Longrightarrow> outside_step t u \<Longrightarrow> bridge_run s u"

definition bridge_returned :: "bridge \<Rightarrow> bool" where
  "bridge_returned s \<longleftrightarrow> br_to s = Copy_Ended \<and> br_from s = Copy_Ended"

inductive_simps flow_simps: "flow s s'"

lemma flip_flip [simp]: "flip (flip s) = s"
  by (simp add: flip_def)

lemma flip_simps [simp]:
  "br_near (flip s) = br_far s" "br_far (flip s) = br_near s"
  "br_to (flip s) = br_from s" "br_from (flip s) = br_to s"
  by (simp_all add: flip_def)

text \<open>A property of a step that holds for one direction and is symmetric holds for both.\<close>

lemma bridge_step_cases [consumes 1, case_names near far]:
  assumes "bridge_step s s'"
    and "flow s s' \<Longrightarrow> P s s'" "flow (flip s) (flip s') \<Longrightarrow> P s s'"
  shows "P s s'"
  using assms by (auto simp: bridge_step_def)

text \<open>What a step of the copy from near to far leaves as it is.\<close>

lemma flow_frame:
  assumes "flow s s'"
  shows "be_in (br_far s') = be_in (br_far s)" "be_out (br_near s') = be_out (br_near s)"
    and "be_seen (br_near s') = be_seen (br_near s)" "be_seen (br_far s') = be_seen (br_far s)"
    and "be_honours (br_near s') = be_honours (br_near s)" "be_honours (br_far s') = be_honours (br_far s)"
    and "be_deadline (br_near s') = be_deadline (br_near s)"
    and "be_deadline (br_far s) \<Longrightarrow> be_deadline (br_far s')"
    and "br_from s' = br_from s" "br_to s \<noteq> Copy_Ended"
  using assms by (induction rule: flow.induct) (auto simp: copy_read_def copy_write_def ended_def)

text \<open>The bytes on their way stay in order; they are lost only when the copy ends.\<close>

lemma flow_bytes:
  assumes "flow s s'"
  shows "be_out (br_far s') @ in_flight (br_to s') @ be_in (br_near s') =
      be_out (br_far s) @ in_flight (br_to s) @ be_in (br_near s) \<or>
    br_to s' = Copy_Ended \<and> be_deadline (br_far s') \<and> be_out (br_far s') = be_out (br_far s) \<and>
      be_in (br_near s') = be_in (br_near s)"
  using assms by (induction rule: flow.induct) (auto simp: copy_read_def copy_write_def ended_def)

lemma flow_writing:
  "flow s s' \<Longrightarrow> br_to s \<noteq> Writing [] \<Longrightarrow> br_to s' \<noteq> Writing []"
  by (induction rule: flow.induct) (auto simp: copy_read_def copy_write_def ended_def)

lemma outside_effect:
  assumes "outside s s'"
  shows "\<exists>bs. be_in (br_near s') = be_in (br_near s) @ bs \<and> be_seen (br_near s') = be_seen (br_near s) @ bs"
    and "br_far s' = br_far s" "br_to s' = br_to s" "br_from s' = br_from s"
    and "be_out (br_near s') = be_out (br_near s)" "be_honours (br_near s') = be_honours (br_near s)"
    and "be_deadline (br_near s') = be_deadline (br_near s)"
  using assms by (induction rule: outside.induct) auto

section \<open>Nothing is invented, reordered or sent twice\<close>

text \<open>The copy from near to far: what arrived is what was written, what is on its way (or was when the
  copy ended), and what is still to be read; the end of the copy sets the far deadline.\<close>

definition half_ok :: "bridge \<Rightarrow> bool" where
  "half_ok s \<longleftrightarrow>
     (\<exists>pending. be_seen (br_near s) = be_out (br_far s) @ pending @ be_in (br_near s) \<and>
        (br_to s \<noteq> Copy_Ended \<longrightarrow> pending = in_flight (br_to s))) \<and>
     br_to s \<noteq> Writing [] \<and>
     (br_to s = Copy_Ended \<longrightarrow> be_deadline (br_far s))"

lemma half_ok_start [simp]: "half_ok (bridge_start ha hb)" "half_ok (flip (bridge_start ha hb))"
  by (simp_all add: half_ok_def bridge_start_def bridge_end_new_def)

lemma half_ok_flow:
  assumes "flow s s'" "half_ok s"
  shows "half_ok s'"
proof -
  note F = flow_frame [OF assms(1)]
  from assms(2) F(10) have seen:
    "be_seen (br_near s) = be_out (br_far s) @ in_flight (br_to s) @ be_in (br_near s)"
    by (auto simp: half_ok_def)
  have w: "br_to s' \<noteq> Writing []"
    using flow_writing [OF assms(1)] assms(2) by (simp add: half_ok_def)
  have d: "br_to s' = Copy_Ended \<Longrightarrow> be_deadline (br_far s')"
    using assms(1) by (induction rule: flow.induct)
      (auto simp: copy_read_def copy_write_def ended_def split: if_splits)
  from flow_bytes [OF assms(1)] show ?thesis
  proof
    assume "be_out (br_far s') @ in_flight (br_to s') @ be_in (br_near s') =
      be_out (br_far s) @ in_flight (br_to s) @ be_in (br_near s)"
    with seen F(3) have "be_seen (br_near s') = be_out (br_far s') @ in_flight (br_to s') @ be_in (br_near s')"
      by simp
    with w d show ?thesis unfolding half_ok_def by blast
  next
    assume e: "br_to s' = Copy_Ended \<and> be_deadline (br_far s') \<and> be_out (br_far s') = be_out (br_far s) \<and>
      be_in (br_near s') = be_in (br_near s)"
    with seen F(3) have "be_seen (br_near s') = be_out (br_far s') @ in_flight (br_to s) @ be_in (br_near s')"
      by simp
    with e w show ?thesis unfolding half_ok_def by blast
  qed
qed

lemma half_ok_flow_flip: "flow s s' \<Longrightarrow> half_ok (flip s) \<Longrightarrow> half_ok (flip s')"
  using flow_frame [of s s'] by (simp add: half_ok_def)

lemma half_ok_outside:
  assumes "outside s s'" "half_ok s"
  shows "half_ok s'"
  using assms(2) outside_effect [OF assms(1)] by (auto simp: half_ok_def)

lemma half_ok_outside_flip:
  assumes "outside s s'" "half_ok (flip s)"
  shows "half_ok (flip s')"
  using assms(2) outside_effect [OF assms(1)] by (simp add: half_ok_def)

abbreviation both_ok :: "bridge \<Rightarrow> bool" where
  "both_ok b \<equiv> half_ok b \<and> half_ok (flip b)"

lemma both_ok_step: "bridge_step b b' \<Longrightarrow> both_ok b \<Longrightarrow> both_ok b'"
  using half_ok_flow [of b b'] half_ok_flow [of "flip b" "flip b'"]
    half_ok_flow_flip [of b b'] half_ok_flow_flip [of "flip b" "flip b'"]
  by (auto simp: bridge_step_def)

lemma both_ok_outside: "outside b b' \<Longrightarrow> both_ok b \<Longrightarrow> both_ok b'"
  using half_ok_outside half_ok_outside_flip by blast

lemma both_ok_outside_flip: "outside (flip b) b' \<Longrightarrow> both_ok b \<Longrightarrow> both_ok (flip b')"
  using both_ok_outside [of "flip b" b'] by simp

lemma bridge_run_half_ok: "bridge_run (bridge_start ha hb) s \<Longrightarrow> both_ok s"
proof (induction rule: bridge_run.induct)
  case (Step t u)
  then show ?case using both_ok_step by blast
next
  case (Outside t u)
  then show ?case using both_ok_outside [of t u] both_ok_outside_flip [of t "flip u"]
    by (auto simp: outside_step_def)
qed simp

lemma bridge_run_honours:
  "bridge_run s t \<Longrightarrow>
   be_honours (br_near t) = be_honours (br_near s) \<and> be_honours (br_far t) = be_honours (br_far s)"
proof (induction rule: bridge_run.induct)
  case (Step t u)
  then show ?case using flow_frame(5,6) [of t u] flow_frame(5,6) [of "flip t" "flip u"]
    by (auto simp: bridge_step_def)
next
  case (Outside t u)
  then show ?case using outside_effect(2,6) [of t u] outside_effect(2,6) [of "flip t" "flip u"]
    by (auto simp: outside_step_def)
qed simp

text \<open>C17. Whatever the order of arrivals, reads, partial writes and failures, what each connection was
  written is a prefix of what arrived on the other, and while a copy runs everything that arrived
  has been written, is on its way, or is still to be read, in this order.\<close>

theorem bridge_faithful:
  assumes "bridge_run (bridge_start honours_a honours_b) s"
  shows "prefix (be_out (br_far s)) (be_seen (br_near s)) \<and>
    prefix (be_out (br_near s)) (be_seen (br_far s)) \<and>
    (br_to s \<noteq> Copy_Ended \<longrightarrow>
      be_seen (br_near s) = be_out (br_far s) @ in_flight (br_to s) @ be_in (br_near s)) \<and>
    (br_from s \<noteq> Copy_Ended \<longrightarrow>
      be_seen (br_far s) = be_out (br_near s) @ in_flight (br_from s) @ be_in (br_far s))"
  using bridge_run_half_ok [OF assms] by (auto simp: half_ok_def)

section \<open>Termination\<close>

fun copy_weight :: "copy_state \<Rightarrow> nat" where
  "copy_weight Reading = 1"
| "copy_weight (Writing bs) = 1 + length bs"
| "copy_weight Copy_Ended = 0"

definition bridge_measure :: "bridge \<Rightarrow> nat" where
  "bridge_measure s =
     2 * length (be_in (br_near s)) + 2 * length (be_in (br_far s)) +
     copy_weight (br_to s) + copy_weight (br_from s)"

lemma flow_decreases: "flow s s' \<Longrightarrow> bridge_measure s' < bridge_measure s"
  by (induction rule: flow.induct)
    (auto simp: bridge_measure_def copy_read_def copy_write_def ended_def)

lemma bridge_measure_flip [simp]: "bridge_measure (flip s) = bridge_measure s"
  by (simp add: bridge_measure_def)

lemma bridge_step_decreases: "bridge_step s s' \<Longrightarrow> bridge_measure s' < bridge_measure s"
  using flow_decreases [of s s'] flow_decreases [of "flip s" "flip s'"] by (auto simp: bridge_step_def)

text \<open>A copy whose source has finished or whose read deadline has passed can take a step, unless it
  waits in a write.\<close>

lemma flow_enabled:
  assumes "br_to s \<noteq> Copy_Ended" "br_to s \<noteq> Writing []"
    and "be_eof (br_near s) \<or> expired (br_near s)" "be_stalled (br_far s) \<longrightarrow> be_broken (br_far s)"
  shows "\<exists>s'. flow s s'"
proof (cases "br_to s")
  case Reading
  show ?thesis
  proof (cases "expired (br_near s) \<or> be_in (br_near s) = []")
    case True
    with assms(3) Reading show ?thesis by (blast intro: flow.Stop)
  next
    case False
    then have "\<not> expired (br_near s)" "(1::nat) \<le> length (be_in (br_near s))"
      by (auto simp: Suc_le_eq)
    with Reading show ?thesis using flow.Read [of s 1] by (auto simp: copy_size_def)
  qed
next
  case (Writing bs)
  with assms(2) have "1 \<le> length bs" by (cases bs) auto
  with Writing assms(4) show ?thesis using flow.Write [of s bs 1] flow.Fail [of s bs] by auto
qed (use assms(1) in simp)

lemma flow_bridge_step: "flow s s' \<Longrightarrow> bridge_step s s'" "flow (flip s) s' \<Longrightarrow> bridge_step s (flip s')"
  by (simp_all add: bridge_step_def)

text \<open>C18. A bridge between connections that honour deadlines returns once either peer has finished, if both
  peers take what is written to them: no run of its goroutines goes on forever without new input,
  and from the moment one side has finished or one copy has ended, some goroutine can take a step
  exactly as long as the bridge has not returned.\<close>

theorem bridge_terminates:
  assumes "bridge_run (bridge_start True True) s"
    and "be_eof (br_near s) \<or> be_eof (br_far s) \<or> br_to s = Copy_Ended \<or> br_from s = Copy_Ended"
    and "be_stalled (br_near s) \<longrightarrow> be_broken (br_near s)" "be_stalled (br_far s) \<longrightarrow> be_broken (br_far s)"
  shows "wf {(t', t). bridge_step t t'} \<and> ((\<exists>s'. bridge_step s s') \<longleftrightarrow> \<not> bridge_returned s)"
proof
  have "{(t', t). bridge_step t t'} \<subseteq> measure bridge_measure"
    by (auto dest: bridge_step_decreases)
  then show "wf {(t', t). bridge_step t t'}" by (rule wf_subset [rotated]) simp
  have hon: "be_honours (br_near s)" "be_honours (br_far s)"
    using bridge_run_honours [OF assms(1)] by (simp_all add: bridge_start_def bridge_end_new_def)
  note ok = bridge_run_half_ok [OF assms(1)]
  with hon have exp: "br_to s \<noteq> Copy_Ended \<or> expired (br_far s)" "br_from s \<noteq> Copy_Ended \<or> expired (br_near s)"
    by (auto simp: half_ok_def expired_def)
  have to: "\<exists>s'. bridge_step s s'" if "br_to s \<noteq> Copy_Ended" "be_eof (br_near s) \<or> expired (br_near s)"
    using flow_enabled [OF that(1) _ that(2) assms(4)] ok flow_bridge_step(1) by (force simp: half_ok_def)
  have from': "\<exists>s'. bridge_step s s'" if "br_from s \<noteq> Copy_Ended" "be_eof (br_far s) \<or> expired (br_far s)"
    using flow_enabled [of "flip s"] that assms(3) ok flow_bridge_step(2) by (fastforce simp: half_ok_def)
  have "\<not> bridge_returned s" if "bridge_step s s'" for s'
    using that flow_frame(10) [of s s'] flow_frame(10) [of "flip s" "flip s'"]
    by (auto simp: bridge_step_def bridge_returned_def)
  moreover have "\<exists>s'. bridge_step s s'" if "\<not> bridge_returned s"
    using that assms(2) exp to from' unfolding bridge_returned_def by metis
  ultimately show "(\<exists>s'. bridge_step s s') \<longleftrightarrow> \<not> bridge_returned s" by blast
qed

section \<open>After one direction has ended\<close>

lemma flow_expired:
  "flow s s' \<Longrightarrow> expired (br_near s) \<Longrightarrow> 
   prefix (be_out (br_far s') @ in_flight (br_to s')) (be_out (br_far s) @ in_flight (br_to s))"
  by (induction rule: flow.induct) (auto simp: copy_read_def copy_write_def ended_def)

lemma expired_stays:
  "bridge_run s t \<Longrightarrow> expired (br_far s) \<Longrightarrow>
   expired (br_far t) \<and>
   prefix (be_out (br_near t) @ in_flight (br_from t)) (be_out (br_near s) @ in_flight (br_from s))"
proof (induction rule: bridge_run.induct)
  case (Step t u)
  then have ih: "expired (br_far t)"
    "prefix (be_out (br_near t) @ in_flight (br_from t)) (be_out (br_near s) @ in_flight (br_from s))" by auto
  from Step(2) show ?case
  proof (cases rule: bridge_step_cases)
    case near
    from flow_frame(2,6,8,9) [OF near] ih show ?thesis by (simp add: expired_def)
  next
    case far
    from flow_expired [OF far] ih
    have "prefix (be_out (br_near u) @ in_flight (br_from u)) (be_out (br_near s) @ in_flight (br_from s))"
      by (auto intro: prefix_order.trans)
    with flow_frame(5,7) [OF far] ih show ?thesis by (simp add: expired_def)
  qed
next
  case (Outside t u)
  then show ?case
    using outside_effect(2,4,5) [of t u] outside_effect(2,3,6,7) [of "flip t" "flip u"]
    by (auto simp: outside_step_def expired_def)
qed simp

text \<open>C27. Half-close is not supported: once the copy from one connection has ended, for instance because its
  peer has finished sending its request, that peer gets at most the bytes that were already read
  from the other connection, if this one honours deadlines, whatever arrives there afterwards.\<close>

theorem half_close_cuts_reply:
  assumes "bridge_run (bridge_start honours_a True) s" "br_to s = Copy_Ended" "bridge_run s t"
  shows "prefix (be_out (br_near t)) (be_out (br_near s) @ in_flight (br_from s))"
proof -
  have "expired (br_far s)"
    using bridge_run_half_ok [OF assms(1)] bridge_run_honours [OF assms(1)] assms(2)
    by (auto simp: half_ok_def expired_def bridge_start_def bridge_end_new_def)
  from expired_stays [OF assms(3) this] show ?thesis by (blast intro: append_prefixD)
qed

text \<open>A request of one byte and its end, copied to the far side.\<close>

definition request_sent :: "bool \<Rightarrow> bridge" where
  "request_sent honours_b =
     (let e = bridge_end_new True; f = bridge_end_new honours_b in
      \<lparr>br_near = e\<lparr>be_eof := True, be_seen := [1]\<rparr>,
       br_far = f\<lparr>be_out := [1], be_deadline := True\<rparr>, br_to = Copy_Ended, br_from = Reading\<rparr>)"

lemma request_sent_run: "bridge_run (bridge_start True honours_b) (request_sent honours_b)"
proof -
  let ?s0 = "bridge_start True honours_b"
  define s1 where "s1 = ?s0\<lparr>br_near := (br_near ?s0)\<lparr>be_in := be_in (br_near ?s0) @ [1], be_seen := be_seen (br_near ?s0) @ [1]\<rparr>\<rparr>"
  define s2 where "s2 = s1\<lparr>br_near := (br_near s1)\<lparr>be_eof := True\<rparr>\<rparr>"
  have "outside ?s0 s1"
    unfolding s1_def by (rule outside.Arrive) (simp add: bridge_start_def bridge_end_new_def)
  then have r1: "bridge_run ?s0 s1" by (auto intro: bridge_run.intros simp: outside_step_def)
  have "outside s1 s2" unfolding s2_def by (rule outside.Finish)
  with r1 have r2: "bridge_run ?s0 s2" by (auto intro: bridge_run.intros simp: outside_step_def)
  have s2: "s2 = \<lparr>br_near = (bridge_end_new True)\<lparr>be_in := [1], be_eof := True, be_seen := [1]\<rparr>,
      br_far = bridge_end_new honours_b, br_to = Reading, br_from = Reading\<rparr>"
    by (simp add: s2_def s1_def bridge_start_def bridge_end_new_def)
  define s3 where "s3 = copy_read 1 s2"
  define s4 where "s4 = copy_write 1 s3"
  have "flow s2 s3"
    unfolding s3_def by (rule flow.Read) (simp_all add: s2 bridge_end_new_def expired_def copy_size_def)
  moreover have "flow s3 s4"
    unfolding s4_def by (rule flow.Write [of _ "[1]"]) (simp_all add: s3_def s2 copy_read_def bridge_end_new_def)
  moreover have "flow s4 (ended s4)"
    by (rule flow.Stop) (simp_all add: s4_def s3_def s2 copy_read_def copy_write_def bridge_end_new_def)
  moreover have "ended s4 = request_sent honours_b"
    by (simp add: s4_def s3_def s2 copy_read_def copy_write_def ended_def request_sent_def bridge_end_new_def)
  ultimately show ?thesis using r2 by (metis bridge_run.Step bridge_step_def)
qed

theorem half_close_cuts_reply_witness:
  "let s = request_sent True;
       t = s\<lparr>br_far := (br_far s)\<lparr>be_in := [2], be_seen := [2]\<rparr>\<rparr>
   in bridge_run s t \<and> be_seen (br_far t) = [2] \<and> prefix (be_out (br_near t)) []"
proof -
  define s where "s = request_sent True"
  define t where "t = s\<lparr>br_far := (br_far s)\<lparr>be_in := [2], be_seen := [2]\<rparr>\<rparr>"
  have f: "flip t = (flip s)\<lparr>br_near := (br_near (flip s))\<lparr>be_in := be_in (br_near (flip s)) @ [2],
      be_seen := be_seen (br_near (flip s)) @ [2]\<rparr>\<rparr>"
    by (simp add: t_def s_def flip_def request_sent_def bridge_end_new_def)
  have "outside (flip s) (flip t)"
    unfolding f by (rule outside.Arrive) (simp add: s_def request_sent_def bridge_end_new_def)
  then have r: "bridge_run s t" by (auto intro: bridge_run.intros simp: outside_step_def)
  have "br_to s = Copy_Ended" by (simp add: s_def request_sent_def Let_def)
  from half_close_cuts_reply [OF request_sent_run [of True, folded s_def] this r]
  have "prefix (be_out (br_near t)) (be_out (br_near s) @ in_flight (br_from s))" .
  moreover have "be_out (br_near s) @ in_flight (br_from s) = []"
    by (simp add: s_def request_sent_def bridge_end_new_def Let_def)
  moreover have "be_seen (br_far t) = [2]" by (simp add: t_def)
  ultimately show ?thesis
    unfolding Let_def s_def [symmetric] t_def [symmetric] using r by simp
qed

text \<open>C28. Over a connection that ignores deadlines the end of a public connection is not passed on: when
  everything it sent is copied and the far side is silent, the bridge waits, and no sequence of
  events of the near connection lets it return and close the far one.\<close>

theorem silent_far_side_keeps_bridge:
  assumes "bridge_run (bridge_start True False) s"
    and "br_to s = Copy_Ended" "br_from s = Reading" "be_in (br_far s) = []" "\<not> be_eof (br_far s)"
    and "outside\<^sup>*\<^sup>* s t"
  shows "\<not> (\<exists>t'. bridge_step t t') \<and> \<not> bridge_returned t"
proof -
  have hon: "\<not> be_honours (br_far s)"
    using bridge_run_honours [OF assms(1)] by (simp add: bridge_start_def bridge_end_new_def)
  from assms(6) have "br_far t = br_far s \<and> br_to t = br_to s \<and> br_from t = br_from s"
    by (induction rule: rtranclp_induct) (auto dest: outside_effect(2,3,4))
  with hon assms(2-5) show ?thesis
    unfolding bridge_step_def flow_simps by (auto simp: expired_def bridge_returned_def)
qed

theorem silent_far_side_keeps_bridge_witness:
  "\<not> (\<exists>t'. bridge_step (request_sent False) t')"
  using silent_far_side_keeps_bridge [OF request_sent_run [of False], of "request_sent False"]
  by (simp add: request_sent_def bridge_end_new_def)

section \<open>Concrete runs\<close>

theorem bridge_faithful_witness:
  "prefix (be_out (br_far (request_sent True))) (be_seen (br_near (request_sent True))) \<and>
   be_out (br_far (request_sent True)) = [1]"
  using bridge_faithful [OF request_sent_run [of True]] by (simp add: request_sent_def)

theorem bridge_terminates_witness:
  "wf {(t', t). bridge_step t t'} \<and> (\<exists>s'. bridge_step (request_sent True) s')"
  using bridge_terminates [OF request_sent_run [of True]]
  by (simp add: request_sent_def bridge_end_new_def bridge_returned_def)

end
