(* ===== verification/Tunnel.thy ===== *)
theory Tunnel
  imports Control Bridge
begin

text \<open>
  One public TCP connection from end to end over a worker connection: the goroutine that
  \<open>startPublicListener\<close> runs once \<open>acquire\<close> has named the target to the worker, the client that reads
  it and dials (\<open>runWorkerLoop\<close> and \<open>serveMuxClientSession\<close> of \<open>internal/tunnel/runner.go\<close>,
  \<open>runOriginalWorker\<close> of \<open>internal/tunnel/original_protocol.go\<close>), the bridge that each of them
  runs, and between them the worker connection, which delivers bytes in order, in any pieces, and
  may fail at any time. How the target is named is an interface, interpreted for the target line of
  workers and streams and for the frame of the recovered protocol.
\<close>

section \<open>State and steps\<close>

text \<open>The client reads the line, relays, or is over.\<close>

datatype tunnel_client =
    Client_Reading
  | Client_Bridging relay bridge
  | Client_Gone

text \<open>The bridge of the server (near: the public connection, far: the worker connection), the client (the
  bridge's near end is its worker connection behind the line, the far end the target's connection),
  and the bytes that the worker connection has delivered to the client.\<close>

record tunnel =
  tn_server :: bridge
  tn_client :: tunnel_client
  tn_received :: bytes

definition tunnel_start :: "bool \<Rightarrow> tunnel" where
  "tunnel_start honours =
     \<lparr>tn_server = bridge_start True honours, tn_client = Client_Reading, tn_received = []\<rparr>"

text \<open>The bytes on the worker connection towards the client.\<close>

definition worker_wire :: "bytes \<Rightarrow> tunnel \<Rightarrow> bytes" where
  "worker_wire line s = line @ be_out (br_far (tn_server s))"

definition arrive :: "bytes \<Rightarrow> bridge \<Rightarrow> bridge" where
  "arrive bs b =
     b\<lparr>br_near := (br_near b)\<lparr>be_in := be_in (br_near b) @ bs, be_seen := be_seen (br_near b) @ bs\<rparr>\<rparr>"

text \<open>The read deadline of the worker connection, set before the line is read, passes at some time.\<close>

definition deadline_passes :: "bridge \<Rightarrow> bridge" where
  "deadline_passes b = b\<lparr>br_near := (br_near b)\<lparr>be_deadline := True\<rparr>\<rparr>"

text \<open>The bridge of the client starts with what the reader holds behind the line.\<close>

definition client_bridge :: "bool \<Rightarrow> bytes \<Rightarrow> bridge" where
  "client_bridge honours rest = arrive rest (bridge_start honours True)"

text \<open>An event of the worker connection that delivers nothing: it ends, fails, stalls or goes on.\<close>

definition trouble :: "bridge \<Rightarrow> bridge \<Rightarrow> bool" where
  "trouble b b' \<longleftrightarrow> outside b b' \<and> be_seen (br_near b') = be_seen (br_near b)"

type_synonym target_reader = "bytes \<Rightarrow> (io_error, relay \<times> bytes) result"

inductive tunnel_step :: "target_reader \<Rightarrow> bytes \<Rightarrow> bool \<Rightarrow> tunnel \<Rightarrow> tunnel \<Rightarrow> bool"
  for reader line honours where
  Server: "bridge_step (tn_server s) b \<Longrightarrow> tunnel_step reader line honours s (s\<lparr>tn_server := b\<rparr>)"
| Public: "outside (tn_server s) b \<Longrightarrow> tunnel_step reader line honours s (s\<lparr>tn_server := b\<rparr>)"
| Server_Trouble: "trouble (flip (tn_server s)) b \<Longrightarrow>
    tunnel_step reader line honours s (s\<lparr>tn_server := flip b\<rparr>)"
| Receive: "tn_client s = Client_Reading \<Longrightarrow> prefix (tn_received s @ bs) (worker_wire line s) \<Longrightarrow>
    tunnel_step reader line honours s (s\<lparr>tn_received := tn_received s @ bs\<rparr>)"
| Dialled: "tn_client s = Client_Reading \<Longrightarrow> reader (tn_received s) = Ok (r, rest) \<Longrightarrow>
    tunnel_step reader line honours s (s\<lparr>tn_client := Client_Bridging r (client_bridge honours rest)\<rparr>)"
| Gone: "tn_client s = Client_Reading \<Longrightarrow> tunnel_step reader line honours s (s\<lparr>tn_client := Client_Gone\<rparr>)"
| Deliver: "tn_client s = Client_Bridging r b \<Longrightarrow> \<not> be_eof (br_near b) \<Longrightarrow>
    prefix (tn_received s @ bs) (worker_wire line s) \<Longrightarrow>
    tunnel_step reader line honours s
      (s\<lparr>tn_received := tn_received s @ bs, tn_client := Client_Bridging r (arrive bs b)\<rparr>)"
| Client: "tn_client s = Client_Bridging r b \<Longrightarrow> bridge_step b b' \<Longrightarrow>
    tunnel_step reader line honours s (s\<lparr>tn_client := Client_Bridging r b'\<rparr>)"
| Target: "tn_client s = Client_Bridging r b \<Longrightarrow> outside (flip b) b' \<Longrightarrow>
    tunnel_step reader line honours s (s\<lparr>tn_client := Client_Bridging r (flip b')\<rparr>)"
| Client_Trouble: "tn_client s = Client_Bridging r b \<Longrightarrow> trouble b b' \<Longrightarrow>
    tunnel_step reader line honours s (s\<lparr>tn_client := Client_Bridging r b'\<rparr>)"
| Deadline: "tn_client s = Client_Bridging r b \<Longrightarrow>
    tunnel_step reader line honours s (s\<lparr>tn_client := Client_Bridging r (deadline_passes b)\<rparr>)"
| Reply: "tn_client s = Client_Bridging r b \<Longrightarrow> \<not> be_eof (br_far (tn_server s)) \<Longrightarrow>
    prefix (be_seen (br_far (tn_server s)) @ bs) (be_out (br_near b)) \<Longrightarrow>
    tunnel_step reader line honours s (s\<lparr>tn_server := flip (arrive bs (flip (tn_server s)))\<rparr>)"

inductive tunnel_run :: "target_reader \<Rightarrow> bytes \<Rightarrow> bool \<Rightarrow> tunnel \<Rightarrow> bool"
  for reader line honours where
  Start: "tunnel_run reader line honours (tunnel_start honours)"
| Step: "tunnel_run reader line honours s \<Longrightarrow> tunnel_step reader line honours s t \<Longrightarrow> tunnel_run reader line honours t"

section \<open>Both bridges stay faithful\<close>

lemma outside_arrive: "\<not> be_eof (br_near b) \<Longrightarrow> outside b (arrive bs b)"
  unfolding arrive_def by (rule outside.Arrive)

lemma arrive_simps [simp]:
  "be_seen (br_near (arrive bs b)) = be_seen (br_near b) @ bs"
  "be_in (br_near (arrive bs b)) = be_in (br_near b) @ bs"
  "be_out (br_near (arrive bs b)) = be_out (br_near b)"
  "br_far (arrive bs b) = br_far b" "br_to (arrive bs b) = br_to b" "br_from (arrive bs b) = br_from b"
  by (simp_all add: arrive_def)

lemma both_ok_client [simp]: "both_ok (client_bridge honours rest)"
proof -
  have "outside (bridge_start honours True) (client_bridge honours rest)"
    unfolding client_bridge_def
    by (rule outside_arrive) (simp add: bridge_start_def bridge_end_new_def)
  then show ?thesis by (rule both_ok_outside) simp
qed

lemma both_ok_deadline [simp]: "both_ok b \<Longrightarrow> both_ok (deadline_passes b)"
  by (auto simp: half_ok_def deadline_passes_def flip_def)

lemma bridge_step_grows:
  assumes "bridge_step b b'"
  shows "prefix (be_out (br_near b)) (be_out (br_near b'))" "prefix (be_out (br_far b)) (be_out (br_far b'))"
    "be_seen (br_near b') = be_seen (br_near b)" "be_seen (br_far b') = be_seen (br_far b)"
proof -
  have g: "prefix (be_out (br_far c)) (be_out (br_far c'))" if "flow c c'" for c c'
    using that by (induction rule: flow.induct) (auto simp: copy_read_def copy_write_def ended_def)
  show "prefix (be_out (br_near b)) (be_out (br_near b'))" "prefix (be_out (br_far b)) (be_out (br_far b'))"
    "be_seen (br_near b') = be_seen (br_near b)" "be_seen (br_far b') = be_seen (br_far b)"
    using assms g [of b b'] g [of "flip b" "flip b'"] flow_frame(2,3,4) [of b b']
      flow_frame(2,3,4) [of "flip b" "flip b'"]
    by (auto simp: bridge_step_def)
qed

lemma trouble_flip:
  assumes "trouble (flip c) b"
  shows "br_near (flip b) = br_near c" "be_out (br_far (flip b)) = be_out (br_far c)"
    "be_seen (br_far (flip b)) = be_seen (br_far c)"
  using assms outside_effect(2,5) [of "flip c" b] by (auto simp: trouble_def)

section \<open>The invariant\<close>

text \<open>What the client has received is what the server has sent so far; from it the client took the target,
  and its bridge has seen all that came behind the line; what the server has seen of the worker
  connection is what the client's bridge has written to it.\<close>

definition client_ok :: "target_reader \<Rightarrow> tunnel \<Rightarrow> bool" where
  "client_ok reader s \<longleftrightarrow>
     (case tn_client s of
        Client_Bridging r b \<Rightarrow>
          both_ok b \<and> reader (tn_received s) = Ok (r, be_seen (br_near b)) \<and>
          prefix (be_seen (br_far (tn_server s))) (be_out (br_near b))
      | _ \<Rightarrow> be_seen (br_far (tn_server s)) = [])"

definition tunnel_inv :: "target_reader \<Rightarrow> bytes \<Rightarrow> tunnel \<Rightarrow> bool" where
  "tunnel_inv reader line s \<longleftrightarrow>
     both_ok (tn_server s) \<and> prefix (tn_received s) (worker_wire line s) \<and> client_ok reader s"

lemma tunnel_inv_start: "tunnel_inv reader line (tunnel_start honours)"
  by (simp add: tunnel_inv_def client_ok_def tunnel_start_def)
    (simp add: bridge_start_def bridge_end_new_def)

text \<open>A step of the server's bridge that leaves alone what it has seen of the worker connection and takes
  nothing back.\<close>

lemma tunnel_inv_server:
  assumes "tunnel_inv reader line s" "both_ok b"
    and "prefix (be_out (br_far (tn_server s))) (be_out (br_far b))"
    and "be_seen (br_far b) = be_seen (br_far (tn_server s))"
  shows "tunnel_inv reader line (s\<lparr>tn_server := b\<rparr>)"
  using assms by (auto simp: tunnel_inv_def client_ok_def worker_wire_def split: tunnel_client.splits
      intro: prefix_order.trans)

text \<open>The same of the client's bridge and its end of the worker connection.\<close>

lemma tunnel_inv_client:
  assumes "tunnel_inv reader line s" "tn_client s = Client_Bridging r b" "both_ok b'"
    and "prefix (be_out (br_near b)) (be_out (br_near b'))" "be_seen (br_near b') = be_seen (br_near b)"
  shows "tunnel_inv reader line (s\<lparr>tn_client := Client_Bridging r b'\<rparr>)"
  using assms by (auto simp: tunnel_inv_def client_ok_def worker_wire_def intro: prefix_order.trans)

section \<open>Faithful and complete\<close>

text \<open>A copy that runs accounts for everything that arrived.\<close>

lemma half_ok_running:
  "half_ok b \<Longrightarrow> br_to b \<noteq> Copy_Ended \<Longrightarrow>
   be_seen (br_near b) = be_out (br_far b) @ in_flight (br_to b) @ be_in (br_near b)"
  by (auto simp: half_ok_def)

lemma half_ok_prefix: "half_ok b \<Longrightarrow> prefix (be_out (br_far b)) (be_seen (br_near b))"
  by (auto simp: half_ok_def)

text \<open>A copy that neither ends nor can take a step, towards a peer that takes what it is given, has
  nothing left to do.\<close>

lemma copy_idle:
  assumes "half_ok b" "br_to b \<noteq> Copy_Ended" "\<not> be_stalled (br_far b)" "\<nexists>b'. flow b b'"
  shows "in_flight (br_to b) = [] \<and> be_in (br_near b) = []"
proof (cases "br_to b")
  case Reading
  have "be_in (br_near b) = []"
  proof (rule ccontr)
    assume "be_in (br_near b) \<noteq> []"
    then have "1 \<le> length (be_in (br_near b))" by (simp add: Suc_le_eq)
    with assms(4) flow.Read [OF Reading, of 1] flow.Stop [OF Reading] show False
      by (auto simp: copy_size_def)
  qed
  with Reading show ?thesis by simp
next
  case (Writing bs)
  with assms(1) have "1 \<le> length bs" by (cases bs) (auto simp: half_ok_def)
  with Writing assms(3,4) show ?thesis using flow.Write [of b bs 1] flow.Fail [of b bs] by auto
qed (use assms(2) in simp)

text \<open>The contract of the relay between a public connection and the target of bridge \<open>b\<close>: in each direction
  what comes out is a prefix of what went in, and while no copy of the direction has ended, every
  byte that went in has come out or is in one of the buffers on the way, in order.\<close>

definition relays_faithfully :: "bytes \<Rightarrow> tunnel \<Rightarrow> bridge \<Rightarrow> bool" where
  "relays_faithfully line s b \<longleftrightarrow>
     (let v = tn_server s in
      prefix (be_out (br_far b)) (be_seen (br_near v)) \<and>
      prefix (be_out (br_near v)) (be_seen (br_far b)) \<and>
      (br_to v \<noteq> Copy_Ended \<longrightarrow> br_to b \<noteq> Copy_Ended \<longrightarrow>
        (\<exists>wire. worker_wire line s = tn_received s @ wire \<and>
          be_seen (br_near v) = be_out (br_far b) @ in_flight (br_to b) @ be_in (br_near b) @
            wire @ in_flight (br_to v) @ be_in (br_near v))) \<and>
      (br_from v \<noteq> Copy_Ended \<longrightarrow> br_from b \<noteq> Copy_Ended \<longrightarrow>
        (\<exists>wire. be_out (br_near b) = be_seen (br_far v) @ wire \<and>
          be_seen (br_far b) = be_out (br_near v) @ in_flight (br_from v) @ be_in (br_far v) @
            wire @ in_flight (br_from b) @ be_in (br_far b))))"

text \<open>Nothing is on its way to the target and nobody refuses to take bytes: the worker connection has
  delivered what was written to it, no bridge has a step left, and the copies towards the target
  have not ended.\<close>

definition at_rest :: "bytes \<Rightarrow> tunnel \<Rightarrow> bridge \<Rightarrow> bool" where
  "at_rest line s b \<longleftrightarrow>
     br_to (tn_server s) \<noteq> Copy_Ended \<and> br_to b \<noteq> Copy_Ended \<and>
     \<not> be_stalled (br_far (tn_server s)) \<and> \<not> be_stalled (br_far b) \<and>
     tn_received s = worker_wire line s \<and>
     (\<nexists>b'. bridge_step (tn_server s) b') \<and> (\<nexists>b'. bridge_step b b')"

section \<open>The interface: how a target is named\<close>

text \<open>A reader takes the target from the front of what it is given: it finds the target behind which
  nothing else is touched, and bytes that come later do not change what it has found.\<close>

locale target_protocol =
  fixes reader :: target_reader
    and line :: "string \<Rightarrow> bytes"
    and named :: "string \<Rightarrow> relay"
    and good :: "string \<Rightarrow> bool"
  assumes reader_append: "reader inp = Ok (r, rest) \<Longrightarrow> reader (inp @ later) = Ok (r, rest @ later)"
    and reader_line: "good target \<Longrightarrow> reader (line target @ later) = Ok (named target, later)"
begin

lemma tunnel_inv_step:
  assumes "tunnel_step reader (line target) honours s t" "tunnel_inv reader (line target) s"
  shows "tunnel_inv reader (line target) t"
  using assms
proof (induction rule: tunnel_step.induct)
  case (Server s b)
  then show ?case
    using bridge_step_grows(2,4) [OF Server(1)] both_ok_step [OF Server(1)]
    by (intro tunnel_inv_server) (auto simp: tunnel_inv_def)
next
  case (Public s b)
  then show ?case
    using outside_effect(2) [OF Public(1)] both_ok_outside [OF Public(1)]
    by (intro tunnel_inv_server) (auto simp: tunnel_inv_def)
next
  case (Server_Trouble s b)
  then show ?case
    using trouble_flip [OF Server_Trouble(1)] both_ok_outside_flip [of "tn_server s" b]
    by (intro tunnel_inv_server) (auto simp: tunnel_inv_def trouble_def)
next
  case (Dialled s r rest)
  then show ?case
    by (simp add: tunnel_inv_def client_ok_def worker_wire_def)
      (simp add: client_bridge_def bridge_start_def bridge_end_new_def)
next
  case (Deliver s r b bs)
  then show ?case
    using both_ok_outside [OF outside_arrive] reader_append [of "tn_received s" r _ bs]
    by (simp add: tunnel_inv_def client_ok_def worker_wire_def)
next
  case (Client s r b b')
  then have "both_ok b" by (simp add: tunnel_inv_def client_ok_def)
  then show ?case
    using Client bridge_step_grows(1,3) [OF Client(2)] both_ok_step [OF Client(2)]
    by (intro tunnel_inv_client) auto
next
  case (Target s r b b')
  then have "both_ok b" by (simp add: tunnel_inv_def client_ok_def)
  then show ?case
    using Target outside_effect(2) [OF Target(2)] both_ok_outside_flip [OF Target(2)]
    by (intro tunnel_inv_client) auto
next
  case (Client_Trouble s r b b')
  then have "both_ok b" by (simp add: tunnel_inv_def client_ok_def)
  then show ?case
    using Client_Trouble outside_effect(5) [of b b'] both_ok_outside [of b b']
    by (intro tunnel_inv_client) (auto simp: trouble_def)
next
  case (Deadline s r b)
  then have "both_ok b" by (simp add: tunnel_inv_def client_ok_def)
  then show ?case
    using Deadline both_ok_deadline [of b]
    by (intro tunnel_inv_client) (auto simp: deadline_passes_def)
next
  case (Reply s r b bs)
  have "outside (flip (tn_server s)) (arrive bs (flip (tn_server s)))"
    by (rule outside_arrive) (use Reply in simp)
  from both_ok_outside_flip [OF this] have "both_ok (flip (arrive bs (flip (tn_server s))))"
    using Reply by (simp add: tunnel_inv_def)
  with Reply show ?case by (simp add: tunnel_inv_def client_ok_def worker_wire_def)
qed (auto simp: tunnel_inv_def client_ok_def worker_wire_def split: tunnel_client.splits)

lemma tunnel_run_inv: "tunnel_run reader (line target) honours s \<Longrightarrow> tunnel_inv reader (line target) s"
  by (induction rule: tunnel_run.induct) (auto intro: tunnel_inv_start tunnel_inv_step)

text \<open>The client's bridge has seen the bytes behind the target, as far as they have come.\<close>

lemma received_behind_line:
  assumes "good target" "reader inp = Ok (r, rest)" "prefix inp (line target @ later)"
  shows "r = named target \<and> inp = line target @ rest \<and> prefix rest later"
proof -
  from assms(3) obtain y where y: "line target @ later = inp @ y" by (auto simp: prefix_def)
  have "reader (inp @ y) = Ok (named target, later)"
    using reader_line [OF assms(1), of later] y by simp
  with reader_append [OF assms(2), of y] have r: "r = named target" "later = rest @ y" by auto
  with y show ?thesis by auto
qed

lemma bridging:
  assumes "tunnel_run reader (line target) honours s" "tn_client s = Client_Bridging r b" "good target"
  shows "both_ok (tn_server s)" "both_ok b" "r = named target"
    "tn_received s = line target @ be_seen (br_near b)"
    "prefix (be_seen (br_near b)) (be_out (br_far (tn_server s)))"
    "prefix (be_seen (br_far (tn_server s))) (be_out (br_near b))"
  using tunnel_run_inv [OF assms(1)] assms(2) received_behind_line [OF assms(3), of "tn_received s" r]
  by (auto simp: tunnel_inv_def client_ok_def worker_wire_def)

lemma end_to_end:
  assumes "tunnel_run reader (line target) honours s" "tn_client s = Client_Bridging r b" "good target"
  shows "r = named target \<and> relays_faithfully (line target) s b"
proof -
  let ?v = "tn_server s"
  note B = bridging [OF assms]
  from B(5,6) obtain wire wire' where
    wire: "be_out (br_far ?v) = be_seen (br_near b) @ wire" "be_out (br_near b) = be_seen (br_far ?v) @ wire'"
    by (auto simp: prefix_def)
  have "prefix (be_out (br_far b)) (be_seen (br_near ?v))" "prefix (be_out (br_near ?v)) (be_seen (br_far b))"
    using half_ok_prefix [of b] half_ok_prefix [of ?v] half_ok_prefix [of "flip b"]
      half_ok_prefix [of "flip ?v"] B(1,2,5,6)
    by (auto intro: prefix_order.trans)
  moreover have "worker_wire (line target) s = tn_received s @ wire"
    using B(4) wire(1) by (simp add: worker_wire_def)
  ultimately show ?thesis
    using B(1-3) wire half_ok_running [of b] half_ok_running [of ?v] half_ok_running [of "flip b"]
      half_ok_running [of "flip ?v"]
    by (simp add: relays_faithfully_def Let_def)
qed

lemma delivery_complete:
  assumes "tunnel_run reader (line target) honours s" "tn_client s = Client_Bridging r b" "good target"
    and "at_rest (line target) s b"
  shows "be_out (br_far b) = be_seen (br_near (tn_server s))"
proof -
  note B = bridging [OF assms(1-3)]
  have "be_out (br_far (tn_server s)) = be_seen (br_near b)"
    using assms(4) B(4) by (simp add: at_rest_def worker_wire_def)
  moreover have "\<nexists>b'. flow (tn_server s) b'" "\<nexists>b'. flow b b'"
    using assms(4) flow_bridge_step(1) unfolding at_rest_def by blast+
  ultimately show ?thesis
    using copy_idle [of "tn_server s"] copy_idle [of b] half_ok_running [of "tn_server s"]
      half_ok_running [of b] B(1,2) assms(4)
    by (simp add: at_rest_def)
qed

end

section \<open>The two protocols\<close>

definition plain_target :: "string \<Rightarrow> bool" where
  "plain_target target \<longleftrightarrow>
     edge_graphic target \<and> CHR 0x0A \<notin> set target \<and> \<not> prefix ''UDP '' target"

interpretation worker_protocol: target_protocol read_target "target_line False" Relay_TCP plain_target
  using target_line_roundtrip [of _ False]
  by unfold_locales (auto simp: plain_target_def intro: read_target_append)

text \<open>What \<open>runOriginalWorker\<close> takes from its connection.\<close>

definition original_reader :: target_reader where
  "original_reader inp =
     (case run_original_worker (Some (new_conn inp)) of
        Worker_Return \<Rightarrow> Err EOF
      | Worker_Bridge target rest \<Rightarrow> Ok (Relay_TCP target, rest)
      | Worker_Relay_UDP target rest \<Rightarrow> Ok (Relay_UDP target, rest))"

definition original_line :: "string \<Rightarrow> bytes" where
  "original_line target = typed_frame original_signal_tcp (original_wire_target target)"

definition original_good :: "string \<Rightarrow> bool" where
  "original_good target \<longleftrightarrow>
     length (original_wire_target target) \<le> 65535 \<and>
     (\<exists>t. normalize_original_target (original_wire_target target) = Ok t)"

definition original_named :: "string \<Rightarrow> relay" where
  "original_named target =
     (case normalize_original_target (original_wire_target target) of
        Inr t \<Rightarrow> Relay_TCP t | Inl e \<Rightarrow> Relay_TCP [])"

lemma typed_string_append:
  assumes "read_original_typed_string inp = Ok (v, rest)"
  shows "read_original_typed_string (inp @ later) = Ok (v, rest @ later)"
proof -
  obtain str signal where v: "v = (str, signal)" by fastforce
  from read_typed_string_Ok [OF assms [unfolded v]]
  have "inp = typed_frame signal str @ rest" "length str \<le> 65535" by auto
  then show ?thesis using read_typed_frame [of str signal "rest @ later"] v by simp
qed

interpretation original_protocol:
  target_protocol original_reader original_line original_named original_good
proof
  show "original_reader (inp @ later) = Ok (r, rest @ later)" if "original_reader inp = Ok (r, rest)"
    for inp r rest later
    using that typed_string_append [of inp _ _ later]
    by (auto simp: original_reader_def run_original_worker_def split: sum.splits if_splits worker_action.splits)
  show "original_reader (original_line target @ later) = Ok (original_named target, later)"
    if "original_good target" for target later
    using that by (auto simp: original_good_def original_named_def original_line_def original_reader_def
        run_original_worker_def read_typed_frame)
qed

section \<open>End to end\<close>

text \<open>C2. A public TCP connection end to end: in every run of listener, bridges and worker connection, in
  every order of arrivals, reads, partial writes, delays, failures and deadlines, a client that
  relays has dialled the target of the mapping and nothing else; what this target gets is a prefix of
  what the public connection sent, what the public connection gets a prefix of what the target sent;
  and while no copy of a direction has ended, every byte of it has arrived or is in one of the
  buffers on the way, in order.\<close>

theorem tcp_end_to_end:
  assumes "tunnel_run read_target (target_line False target) honours s"
    and "tn_client s = Client_Bridging r b" "plain_target target"
  shows "r = Relay_TCP target \<and> relays_faithfully (target_line False target) s b"
  by (rule worker_protocol.end_to_end [OF assms])

text \<open>C5. What is sent is delivered: when the worker connection has delivered what the server wrote to it
  and no bridge has a step left, the target has got everything that the public connection sent, if
  the copies towards it have not ended and nobody on the way refuses to take bytes.\<close>

theorem tcp_delivery_complete:
  assumes "tunnel_run read_target (target_line False target) honours s"
    and "tn_client s = Client_Bridging r b" "plain_target target" "at_rest (target_line False target) s b"
  shows "be_out (br_far b) = be_seen (br_near (tn_server s))"
  by (rule worker_protocol.delivery_complete [OF assms])

text \<open>C3. The same over the recovered TCP protocol: for a target of host and port, the client dials this
  target, or the IPv4 loopback address if the host names the loopback interface, and relays between
  it and the public connection faithfully.\<close>

theorem original_end_to_end:
  assumes "tunnel_run original_reader (typed_frame original_signal_tcp (original_wire_target target)) honours s"
    and "tn_client s = Client_Bridging r b"
    and "split_host_port (trim_space target) = Some (h, p)" "validate_original_port p = None"
    and "length (original_wire_target target) \<le> 65535"
  shows "r = Relay_TCP (if h \<in> set loopback_names then ''127.0.0.1:'' @ p else trim_space target) \<and>
    relays_faithfully (typed_frame original_signal_tcp (original_wire_target target)) s b"
proof -
  note t = wire_target_translation [OF assms(3,4)]
  with assms(5) have "original_good target" by (simp add: original_good_def)
  from original_protocol.end_to_end [OF assms(1) [folded original_line_def] assms(2) this] t
  show ?thesis by (simp add: original_named_def original_line_def)
qed

section \<open>A concrete run\<close>

text \<open>A bridge over which one byte has gone from the near to the far side.\<close>

definition one_byte :: "bool \<Rightarrow> bool \<Rightarrow> bridge" where
  "one_byte honours_a honours_b =
     \<lparr>br_near = (bridge_end_new honours_a)\<lparr>be_seen := [7]\<rparr>,
      br_far = (bridge_end_new honours_b)\<lparr>be_out := [7]\<rparr>, br_to = Reading, br_from = Reading\<rparr>"

lemma one_byte_steps:
  "\<exists>b. bridge_step (arrive [7] (bridge_start honours_a honours_b)) b \<and>
     bridge_step b (one_byte honours_a honours_b)"
proof -
  let ?b0 = "arrive [7] (bridge_start honours_a honours_b)"
  have "flow ?b0 (copy_read 1 ?b0)"
    by (rule flow.Read) (simp_all add: arrive_def bridge_start_def bridge_end_new_def expired_def copy_size_def)
  moreover have "flow (copy_read 1 ?b0) (copy_write 1 (copy_read 1 ?b0))"
    by (rule flow.Write [of _ "[7]"])
      (simp_all add: arrive_def bridge_start_def bridge_end_new_def copy_read_def)
  moreover have "copy_write 1 (copy_read 1 ?b0) = one_byte honours_a honours_b"
    by (simp add: arrive_def bridge_start_def bridge_end_new_def copy_read_def copy_write_def one_byte_def)
  ultimately show ?thesis using flow_bridge_step(1) by metis
qed

lemma one_byte_quiet: "\<not> bridge_step (one_byte honours_a honours_b) b"
  unfolding bridge_step_def flow_simps
  by (simp add: one_byte_def bridge_end_new_def expired_def)

text \<open>The run of the tunnel in which this byte goes from the public connection to the target.\<close>

definition example_tunnel :: "bytes \<Rightarrow> relay \<Rightarrow> tunnel" where
  "example_tunnel line r =
     \<lparr>tn_server = one_byte True True, tn_client = Client_Bridging r (one_byte True True),
      tn_received = line @ [7]\<rparr>"

lemma example_tunnel_run:
  assumes "reader (line @ [7]) = Ok (r, [7])"
  shows "tunnel_run reader line True (example_tunnel line r)"
proof -
  let ?run = "\<lambda>v c rcv. tunnel_run reader line True \<lparr>tn_server = v, tn_client = c, tn_received = rcv\<rparr>"
  obtain b where b: "bridge_step (arrive [7] (bridge_start True True)) b" "bridge_step b (one_byte True True)"
    using one_byte_steps by blast
  have "outside (bridge_start True True) (arrive [7] (bridge_start True True))"
    by (rule outside_arrive) (simp add: bridge_start_def bridge_end_new_def)
  from tunnel_step.Public [of "tunnel_start True", unfolded tunnel_start_def, simplified, OF this]
  have "?run (arrive [7] (bridge_start True True)) Client_Reading []"
    using tunnel_run.Start [unfolded tunnel_start_def] tunnel_run.Step by blast
  from tunnel_run.Step [OF this tunnel_step.Server, of b] b(1)
  have "?run b Client_Reading []" by simp
  from tunnel_run.Step [OF this tunnel_step.Server, of "one_byte True True"] b(2)
  have "?run (one_byte True True) Client_Reading []" by simp
  from tunnel_run.Step [OF this tunnel_step.Receive, of "line @ [7]"]
  have "?run (one_byte True True) Client_Reading (line @ [7])"
    by (simp add: worker_wire_def one_byte_def)
  from tunnel_run.Step [OF this tunnel_step.Dialled] assms
  have "?run (one_byte True True) (Client_Bridging r (arrive [7] (bridge_start True True))) (line @ [7])"
    by (simp add: client_bridge_def)
  from tunnel_run.Step [OF this tunnel_step.Client, of r _ b] b(1)
  have "?run (one_byte True True) (Client_Bridging r b) (line @ [7])" by simp
  from tunnel_run.Step [OF this tunnel_step.Client, of r _ "one_byte True True"] b(2)
  show ?thesis by (simp add: example_tunnel_def)
qed

lemma example_target: "plain_target ''h:80''"
  by (simp add: plain_target_def edge_graphic_def graphic_def)

lemma example_worker_run:
  "tunnel_run read_target (target_line False ''h:80'') True
     (example_tunnel (target_line False ''h:80'') (Relay_TCP ''h:80''))"
  by (rule example_tunnel_run) (rule worker_protocol.reader_line [OF example_target])

theorem tcp_end_to_end_witness:
  "relays_faithfully (target_line False ''h:80'')
     (example_tunnel (target_line False ''h:80'') (Relay_TCP ''h:80'')) (one_byte True True)"
  using tcp_end_to_end [OF example_worker_run _ example_target] by (simp add: example_tunnel_def)

theorem tcp_delivery_complete_witness:
  "be_out (br_far (one_byte True True)) = [7] \<and>
   be_out (br_far (one_byte True True)) = be_seen (br_near (one_byte True True))"
proof
  have "at_rest (target_line False ''h:80'')
      (example_tunnel (target_line False ''h:80'') (Relay_TCP ''h:80'')) (one_byte True True)"
    unfolding at_rest_def
    by (simp add: example_tunnel_def worker_wire_def one_byte_quiet)
      (simp add: one_byte_def bridge_end_new_def)
  from tcp_delivery_complete [OF example_worker_run _ example_target this]
  show "be_out (br_far (one_byte True True)) = be_seen (br_near (one_byte True True))"
    by (simp add: example_tunnel_def)
qed (simp add: one_byte_def)

theorem original_end_to_end_witness:
  "\<exists>line. tunnel_run original_reader line True (example_tunnel line (Relay_TCP ''127.0.0.1:8080'')) \<and>
     relays_faithfully line (example_tunnel line (Relay_TCP ''127.0.0.1:8080'')) (one_byte True True)"
proof -
  let ?line = "typed_frame original_signal_tcp (original_wire_target ''[::1]:8080'')"
  have t: "split_host_port (trim_space ''[::1]:8080'') = Some (''::1'', ''8080'')"
    "validate_original_port ''8080'' = None" by code_simp+
  have l: "length (original_wire_target ''[::1]:8080'') \<le> 65535" by code_simp
  have "original_reader (?line @ [7]) = Ok (Relay_TCP ''127.0.0.1:8080'', [7])"
    using wire_target_translation [OF t] l
    by (simp add: original_reader_def run_original_worker_def read_typed_frame loopback_names_def)
  then have r: "tunnel_run original_reader ?line True (example_tunnel ?line (Relay_TCP ''127.0.0.1:8080''))"
    by (rule example_tunnel_run)
  have "tn_client (example_tunnel ?line (Relay_TCP ''127.0.0.1:8080'')) =
      Client_Bridging (Relay_TCP ''127.0.0.1:8080'') (one_byte True True)"
    by (simp add: example_tunnel_def)
  from original_end_to_end [OF r this t l] r show ?thesis by blast
qed

end
