(* ===== verification/Public_Listener.thy ===== *)
theory Public_Listener
  imports Control
begin

text \<open>
  The public TCP listeners of a worker server: \<open>startPublicListener\<close> of \<open>internal/tunnel/runner.go\<close> with
  the \<open>acquire\<close> that \<open>runWorkerServer\<close> passes to it. All listeners share the pool of idle workers; each
  accepted connection waits for a worker for at most 12 seconds, sends it the target line, takes the
  next one if that fails, and is then bridged to it. Times are in nanoseconds.
\<close>

section \<open>State and operations\<close>

text \<open>An accepted connection waits for its mapping's target until a deadline, is bridged to a worker, or is
  closed. Workers are numbered in the order in which they entered the pool.\<close>

datatype public_conn =
    Public_Waiting string int
  | Public_Bridged string nat net_conn
  | Public_Closed

text \<open>\<open>pb_workers\<close> is the history of the workers that entered the pool.\<close>

record public_state =
  pb_now :: int
  pb_ctx_done :: bool
  pb_pool :: "(nat \<times> net_conn) chan"
  pb_conns :: "public_conn list"
  pb_workers :: "net_conn list"

definition new_public_state :: public_state where
  "new_public_state =
     \<lparr>pb_now = 0, pb_ctx_done = False, pb_pool = make_chan 512, pb_conns = [], pb_workers = []\<rparr>"

definition request_timeout :: int where
  "request_timeout = 12 * second"

text \<open>An accept; a done context closes the listener.\<close>

definition public_accept :: "string \<Rightarrow> public_state \<Rightarrow> public_state option" where
  "public_accept target s =
     (if pb_ctx_done s then None
      else Some (s\<lparr>pb_conns := pb_conns s @ [Public_Waiting target (pb_now s + request_timeout)]\<rparr>))"

text \<open>One round of \<open>acquire\<close>: the oldest worker of the pool is sent the line; if it does not take it, the
  connection goes on waiting.\<close>

definition public_acquire :: "nat \<Rightarrow> public_state \<Rightarrow> public_state option" where
  "public_acquire i s =
     (case pb_conns s ! i of
        Public_Waiting target deadline \<Rightarrow>
          (case try_recv (pb_pool s) of
             Received (w, worker) pool \<Rightarrow>
               (case conn_write worker (target_line False target) of
                  ((_, Some e), _) \<Rightarrow> Some (s\<lparr>pb_pool := pool\<rparr>)
                | ((_, None), worker') \<Rightarrow>
                    Some (s\<lparr>pb_pool := pool,
                      pb_conns := (pb_conns s)[i := Public_Bridged target w worker']\<rparr>))
           | _ \<Rightarrow> None)
      | _ \<Rightarrow> None)"

text \<open>The request's context ends by its timeout or with the server; the connection is closed.\<close>

definition public_expire :: "nat \<Rightarrow> public_state \<Rightarrow> public_state option" where
  "public_expire i s =
     (case pb_conns s ! i of
        Public_Waiting target deadline \<Rightarrow>
          (if deadline \<le> pb_now s \<or> pb_ctx_done s
           then Some (s\<lparr>pb_conns := (pb_conns s)[i := Public_Closed]\<rparr>) else None)
      | _ \<Rightarrow> None)"

text \<open>The bridge has returned: both connections are closed.\<close>

definition public_finish :: "nat \<Rightarrow> public_state \<Rightarrow> public_state option" where
  "public_finish i s =
     (case pb_conns s ! i of
        Public_Bridged target w worker \<Rightarrow> Some (s\<lparr>pb_conns := (pb_conns s)[i := Public_Closed]\<rparr>)
      | _ \<Rightarrow> None)"

text \<open>The handler of the control listener puts an authenticated worker into the pool, and waits while it
  is full; the UDP listeners take workers from it as well.\<close>

definition public_worker :: "net_conn \<Rightarrow> public_state \<Rightarrow> public_state option" where
  "public_worker worker s =
     (case try_send (pb_pool s) (length (pb_workers s), worker) of
        Sent pool \<Rightarrow> Some (s\<lparr>pb_pool := pool, pb_workers := pb_workers s @ [worker]\<rparr>)
      | _ \<Rightarrow> None)"

definition public_taken :: "public_state \<Rightarrow> public_state option" where
  "public_taken s =
     (case try_recv (pb_pool s) of Received _ pool \<Rightarrow> Some (s\<lparr>pb_pool := pool\<rparr>) | _ \<Rightarrow> None)"

datatype public_event =
    Pub_Accept string
  | Pub_Acquire nat
  | Pub_Expire nat
  | Pub_Finish nat
  | Pub_Worker net_conn
  | Pub_Taken
  | Pub_Elapse nat
  | Pub_Cancel

definition public_step :: "public_event \<Rightarrow> public_state \<Rightarrow> public_state option" where
  "public_step ev s =
     (case ev of
        Pub_Accept target \<Rightarrow> public_accept target s
      | Pub_Acquire i \<Rightarrow> if i < length (pb_conns s) then public_acquire i s else None
      | Pub_Expire i \<Rightarrow> if i < length (pb_conns s) then public_expire i s else None
      | Pub_Finish i \<Rightarrow> if i < length (pb_conns s) then public_finish i s else None
      | Pub_Worker worker \<Rightarrow> public_worker worker s
      | Pub_Taken \<Rightarrow> public_taken s
      | Pub_Elapse d \<Rightarrow> Some (s\<lparr>pb_now := pb_now s + int d\<rparr>)
      | Pub_Cancel \<Rightarrow> Some (s\<lparr>pb_ctx_done := True\<rparr>))"

fun public_run :: "public_event list \<Rightarrow> public_state \<Rightarrow> public_state option" where
  "public_run [] s = Some s"
| "public_run (ev # evs) s =
     (case public_step ev s of None \<Rightarrow> None | Some s' \<Rightarrow> public_run evs s')"

section \<open>Which worker serves which connection\<close>

text \<open>The pool holds the workers in the order of their numbers; a bridged connection has one that is older
  than all of them, is sent the line of that connection's mapping, and serves nobody else; no request
  waits beyond its twelve seconds from now.\<close>

definition pool_ok :: "public_state \<Rightarrow> bool" where
  "pool_ok s \<longleftrightarrow>
     sorted_wrt (<) (map fst (queue (pb_pool s))) \<and>
     (\<forall>(w, c) \<in> set (queue (pb_pool s)). w < length (pb_workers s) \<and> c = pb_workers s ! w) \<and>
     length (queue (pb_pool s)) \<le> 512 \<and> capacity (pb_pool s) = 512"

fun conn_ok :: "public_state \<Rightarrow> public_conn \<Rightarrow> bool" where
  "conn_ok s (Public_Waiting target deadline) \<longleftrightarrow> deadline \<le> pb_now s + request_timeout"
| "conn_ok s (Public_Bridged target w c) \<longleftrightarrow>
     w < length (pb_workers s) \<and> (\<forall>(w', _) \<in> set (queue (pb_pool s)). w < w') \<and>
     tx c = tx (pb_workers s ! w) @ target_line False target \<and> rx c = rx (pb_workers s ! w)"
| "conn_ok s Public_Closed \<longleftrightarrow> True"

fun serves :: "public_conn \<Rightarrow> nat option" where
  "serves (Public_Bridged target w c) = Some w"
| "serves _ = None"

definition exclusive :: "public_conn list \<Rightarrow> bool" where
  "exclusive cs \<longleftrightarrow>
     (\<forall>i < length cs. \<forall>j < length cs. serves (cs ! i) \<noteq> None \<longrightarrow> serves (cs ! i) = serves (cs ! j) \<longrightarrow> i = j)"

definition public_inv :: "public_state \<Rightarrow> bool" where
  "public_inv s \<longleftrightarrow> pool_ok s \<and> list_all (conn_ok s) (pb_conns s) \<and> exclusive (pb_conns s)"

lemma public_inv_start: "public_inv new_public_state"
  by (simp add: public_inv_def pool_ok_def exclusive_def new_public_state_def)

lemma exclusive_update:
  assumes "exclusive cs" "i < length cs"
    and "\<And>j. j < length cs \<Longrightarrow> j \<noteq> i \<Longrightarrow> serves x \<noteq> None \<Longrightarrow> serves (cs ! j) \<noteq> serves x"
  shows "exclusive (cs[i := x])"
  using assms unfolding exclusive_def by (auto simp: nth_list_update)

lemma exclusive_append: "exclusive cs \<Longrightarrow> serves x = None \<Longrightarrow> exclusive (cs @ [x])"
  unfolding exclusive_def by (auto simp: nth_append less_Suc_eq)

text \<open>A connection stays as it should be when time passes, workers are added and the pool shrinks.\<close>

lemma conn_ok_mono:
  assumes "conn_ok s x" "pb_now s \<le> pb_now s'" "prefix (pb_workers s) (pb_workers s')"
    and "\<And>w c. (w, c) \<in> set (queue (pb_pool s')) \<Longrightarrow>
      (w, c) \<in> set (queue (pb_pool s)) \<or> length (pb_workers s) \<le> w"
  shows "conn_ok s' x"
  using assms by (cases "(s, x)" rule: conn_ok.cases) (fastforce simp: prefix_def nth_append)+

lemma list_all_conn_ok_mono:
  assumes "list_all (conn_ok s) cs" "pb_now s \<le> pb_now s'" "prefix (pb_workers s) (pb_workers s')"
    and "\<And>w c. (w, c) \<in> set (queue (pb_pool s')) \<Longrightarrow>
      (w, c) \<in> set (queue (pb_pool s)) \<or> length (pb_workers s) \<le> w"
  shows "list_all (conn_ok s') cs"
  using assms(1) conn_ok_mono [OF _ assms(2-4)] by (auto simp: list_all_iff)

lemma list_all_update: "list_all P xs \<Longrightarrow> P x \<Longrightarrow> list_all P (xs[i := x])"
  using set_update_subset_insert [of xs i x] by (auto simp: list_all_iff)

lemma pool_recv:
  assumes "try_recv (pb_pool s) = Received (w, c) pool" "pool_ok s"
  shows "pool_ok (s\<lparr>pb_pool := pool\<rparr>)" "w < length (pb_workers s)" "c = pb_workers s ! w"
    "\<And>w' c'. (w', c') \<in> set (queue pool) \<Longrightarrow> w < w' \<and> (w', c') \<in> set (queue (pb_pool s))"
    "(w, c) \<in> set (queue (pb_pool s))"
proof -
  from assms(1) obtain q where q: "queue (pb_pool s) = (w, c) # q" "pool = (pb_pool s)\<lparr>queue := q\<rparr>"
    by (auto simp: try_recv_def split: list.splits if_splits)
  with assms(2) show "pool_ok (s\<lparr>pb_pool := pool\<rparr>)" "w < length (pb_workers s)" "c = pb_workers s ! w"
    "(w, c) \<in> set (queue (pb_pool s))"
    by (auto simp: pool_ok_def)
  show "w < w' \<and> (w', c') \<in> set (queue (pb_pool s))" if "(w', c') \<in> set (queue pool)" for w' c'
    using that q assms(2) by (force simp: pool_ok_def)
qed

text \<open>Taking the oldest worker leaves everybody else as they were.\<close>

lemma recv_inv:
  assumes "public_inv s" "try_recv (pb_pool s) = Received (w, c) pool"
  shows "public_inv (s\<lparr>pb_pool := pool\<rparr>)"
  using assms pool_recv [of s w c pool] list_all_conn_ok_mono [of s "pb_conns s" "s\<lparr>pb_pool := pool\<rparr>"]
  by (auto simp: public_inv_def)

lemma update_inv:
  assumes "public_inv s" "i < length (pb_conns s)" "conn_ok (s\<lparr>pb_conns := cs\<rparr>) x" "cs = (pb_conns s)[i := x]"
    and "\<And>j. j < length (pb_conns s) \<Longrightarrow> j \<noteq> i \<Longrightarrow> serves x \<noteq> None \<Longrightarrow> serves (pb_conns s ! j) \<noteq> serves x"
  shows "public_inv (s\<lparr>pb_conns := cs\<rparr>)"
proof -
  let ?s = "s\<lparr>pb_conns := cs\<rparr>"
  have "list_all (conn_ok ?s) (pb_conns s)"
    by (rule list_all_conn_ok_mono [of s]) (use assms(1) in \<open>auto simp: public_inv_def\<close>)
  with assms(3,4) have "list_all (conn_ok ?s) cs" by (auto intro: list_all_update)
  with assms exclusive_update [of "pb_conns s" i x] show ?thesis
    by (simp add: public_inv_def pool_ok_def)
qed

lemma close_inv:
  "public_inv s \<Longrightarrow> i < length (pb_conns s) \<Longrightarrow>
   public_inv (s\<lparr>pb_conns := (pb_conns s)[i := Public_Closed]\<rparr>)"
  by (rule update_inv) auto

lemma acquire_inv:
  assumes "public_acquire i s = Some s'" "public_inv s" "i < length (pb_conns s)"
  shows "public_inv s'"
proof -
  from assms(1) obtain target d w c pool where
    i: "pb_conns s ! i = Public_Waiting target d"
    and r: "try_recv (pb_pool s) = Received (w, c) pool"
    by (auto simp: public_acquire_def split: public_conn.splits recv_result.splits)
  let ?s = "s\<lparr>pb_pool := pool\<rparr>"
  have inv: "public_inv ?s" using recv_inv [OF assms(2) r] .
  note P = pool_recv [OF r] and pool_ok = assms(2) [unfolded public_inv_def, THEN conjunct1]
  obtain n e c' where c: "conn_write c (target_line False target) = ((n, e), c')" by (metis surj_pair)
  show ?thesis
  proof (cases e)
    case None
    with assms(1) i r c have s': "s' = ?s\<lparr>pb_conns := (pb_conns ?s)[i := Public_Bridged target w c']\<rparr>"
      by (simp add: public_acquire_def)
    have fresh: "serves (pb_conns s ! j) \<noteq> Some w" if "j < length (pb_conns s)" for j
    proof
      assume "serves (pb_conns s ! j) = Some w"
      then obtain t k where "pb_conns s ! j = Public_Bridged t w k" by (cases "pb_conns s ! j") auto
      moreover have "conn_ok s (pb_conns s ! j)" using assms(2) that by (simp add: public_inv_def list_all_length)
      ultimately show False using P(5) pool_ok by auto
    qed
    show ?thesis
      unfolding s'
    proof (rule update_inv [OF inv])
      show "conn_ok (?s\<lparr>pb_conns := (pb_conns ?s)[i := Public_Bridged target w c']\<rparr>) (Public_Bridged target w c')"
        using P(2,3,4) pool_ok c None conn.write_ok [of c "target_line False target" n c'] conn_write_frame [OF c]
        by auto
    qed (use assms(3) fresh in auto)
  next
    case (Some err)
    with assms(1) i r c have "s' = ?s" by (simp add: public_acquire_def)
    with inv show ?thesis by simp
  qed
qed

lemma public_step_inv:
  assumes "public_step ev s = Some s'" "public_inv s"
  shows "public_inv s'"
proof (cases ev)
  case (Pub_Accept target)
  with assms have s': "s' = s\<lparr>pb_conns := pb_conns s @ [Public_Waiting target (pb_now s + request_timeout)]\<rparr>"
    by (auto simp: public_step_def public_accept_def split: if_splits)
  have "list_all (conn_ok s') (pb_conns s)"
    by (rule list_all_conn_ok_mono [of s]) (use assms(2) s' in \<open>auto simp: public_inv_def\<close>)
  with assms(2) s' show ?thesis by (simp add: public_inv_def pool_ok_def exclusive_append)
next
  case (Pub_Worker c)
  with assms(1) obtain pool where p: "try_send (pb_pool s) (length (pb_workers s), c) = Sent pool"
    and s': "s' = s\<lparr>pb_pool := pool, pb_workers := pb_workers s @ [c]\<rparr>"
    by (auto simp: public_step_def public_worker_def split: send_result.splits)
  have "list_all (conn_ok s') (pb_conns s)"
    by (rule list_all_conn_ok_mono [of s]) (use assms(2) s' p in \<open>auto simp: public_inv_def try_send_conv\<close>)
  with assms(2) s' p show ?thesis
    by (auto simp: public_inv_def pool_ok_def try_send_conv sorted_wrt_append nth_append)
next
  case (Pub_Elapse d)
  with assms have s': "s' = s\<lparr>pb_now := pb_now s + int d\<rparr>" by (simp add: public_step_def)
  have "list_all (conn_ok s') (pb_conns s)"
    by (rule list_all_conn_ok_mono [of s]) (use assms(2) s' in \<open>auto simp: public_inv_def\<close>)
  with assms(2) s' show ?thesis by (simp add: public_inv_def pool_ok_def)
next
  case Pub_Cancel
  with assms have s': "s' = s\<lparr>pb_ctx_done := True\<rparr>" by (simp add: public_step_def)
  have "list_all (conn_ok s') (pb_conns s)"
    by (rule list_all_conn_ok_mono [of s]) (use assms(2) s' in \<open>auto simp: public_inv_def\<close>)
  with assms(2) s' show ?thesis by (simp add: public_inv_def pool_ok_def)
next
  case (Pub_Acquire i)
  with assms acquire_inv show ?thesis by (auto simp: public_step_def split: if_splits)
next
  case (Pub_Expire i)
  with assms(1) have "i < length (pb_conns s)" "s' = s\<lparr>pb_conns := (pb_conns s)[i := Public_Closed]\<rparr>"
    by (auto simp: public_step_def public_expire_def split: if_splits public_conn.splits)
  with close_inv [OF assms(2)] show ?thesis by simp
next
  case (Pub_Finish i)
  with assms(1) have "i < length (pb_conns s)" "s' = s\<lparr>pb_conns := (pb_conns s)[i := Public_Closed]\<rparr>"
    by (auto simp: public_step_def public_finish_def split: if_splits public_conn.splits)
  with close_inv [OF assms(2)] show ?thesis by simp
next
  case Pub_Taken
  with assms(1) obtain wc pool where "try_recv (pb_pool s) = Received wc pool" "s' = s\<lparr>pb_pool := pool\<rparr>"
    by (auto simp: public_step_def public_taken_def split: recv_result.splits)
  with recv_inv [OF assms(2)] show ?thesis by (cases wc) simp
qed

lemma public_run_inv: "public_run evs s = Some s' \<Longrightarrow> public_inv s \<Longrightarrow> public_inv s'"
  by (induction evs s rule: public_run.induct) (auto split: option.splits dest: public_step_inv)

text \<open>C6. Workers are not shared: in every run of the listeners, whatever the order of accepts, requests, new
  workers, timeouts and ended relays, a worker serves at most one public connection, and this
  connection's mapping is the one whose target line, and nothing else, the worker has been sent; all
  that the worker sends is still to be read; the workers still in the pool, at most 512, came later.\<close>

theorem public_workers_exclusive:
  assumes "public_run evs new_public_state = Some s"
    and "i < length (pb_conns s)" "pb_conns s ! i = Public_Bridged target w c"
  shows "w < length (pb_workers s) \<and>
    tx c = tx (pb_workers s ! w) @ target_line False target \<and> rx c = rx (pb_workers s ! w) \<and>
    (\<forall>j < length (pb_conns s). \<forall>target' c'. pb_conns s ! j = Public_Bridged target' w c' \<longrightarrow> j = i) \<and>
    (\<forall>(w', _) \<in> set (queue (pb_pool s)). w < w') \<and> length (queue (pb_pool s)) \<le> 512"
proof -
  have inv: "public_inv s" by (rule public_run_inv [OF assms(1) public_inv_start])
  then have "conn_ok s (Public_Bridged target w c)"
    using assms(2,3) by (metis list_all_length public_inv_def)
  moreover have "j = i" if "j < length (pb_conns s)" "pb_conns s ! j = Public_Bridged target' w c'" for j target' c'
    using inv that assms(2,3) unfolding public_inv_def exclusive_def by (metis option.distinct(1) serves.simps(1))
  ultimately show ?thesis using inv by (auto simp: public_inv_def pool_ok_def)
qed


text \<open>No request waits for ever: in every run, twelve seconds are enough for a connection that is still
  waiting to be closed, without a worker lost.\<close>

theorem public_request_ends:
  assumes "public_run evs new_public_state = Some s"
    and "i < length (pb_conns s)" "pb_conns s ! i = Public_Waiting target deadline"
  shows "\<exists>s'. public_run [Pub_Elapse (nat request_timeout), Pub_Expire i] s = Some s' \<and>
    pb_conns s' = (pb_conns s)[i := Public_Closed] \<and> pb_pool s' = pb_pool s"
proof -
  have "public_inv s" by (rule public_run_inv [OF assms(1) public_inv_start])
  then have "conn_ok s (Public_Waiting target deadline)"
    using assms(2,3) by (metis list_all_length public_inv_def)
  moreover have "0 \<le> request_timeout" by (simp add: request_timeout_def second_def)
  ultimately show ?thesis
    using assms(2,3) by (simp add: public_step_def public_expire_def)
qed

section \<open>A concrete run\<close>

text \<open>Two public connections, two workers of which the first refuses writes.\<close>

definition broken_worker :: net_conn where
  "broken_worker = (new_conn [])\<lparr>closed := True\<rparr>"

definition two_clients :: "public_event list" where
  "two_clients =
     [Pub_Accept ''h:80'', Pub_Worker broken_worker, Pub_Accept ''h:81'', Pub_Worker (new_conn [1])]"

lemma two_clients_run:
  "\<exists>s. public_run two_clients new_public_state = Some s \<and>
     pb_conns s = [Public_Waiting ''h:80'' request_timeout, Public_Waiting ''h:81'' request_timeout] \<and>
     queue (pb_pool s) = [(0, broken_worker), (1, new_conn [1])]"
  by (simp add: two_clients_def public_step_def public_accept_def public_worker_def new_public_state_def
      try_send_def)

lemma two_clients_acquire:
  "\<exists>s c. public_run (two_clients @ [Pub_Acquire 1, Pub_Acquire 1]) new_public_state = Some s \<and>
     length (pb_conns s) = 2 \<and> pb_conns s ! 1 = Public_Bridged ''h:81'' 1 c \<and> pb_workers s ! 1 = new_conn [1]"
  by (simp add: two_clients_def public_step_def public_accept_def public_worker_def new_public_state_def
      try_send_def public_acquire_def try_recv_def broken_worker_def new_conn_def conn_write_def)

theorem public_workers_exclusive_witness:
  "\<exists>s c. public_run (two_clients @ [Pub_Acquire 1, Pub_Acquire 1]) new_public_state = Some s \<and>
     pb_conns s ! 1 = Public_Bridged ''h:81'' 1 c \<and> tx c = target_line False ''h:81'' \<and> rx c = [1]"
proof -
  from two_clients_acquire obtain s c where
    r: "public_run (two_clients @ [Pub_Acquire 1, Pub_Acquire 1]) new_public_state = Some s"
    and s: "length (pb_conns s) = 2" "pb_conns s ! 1 = Public_Bridged ''h:81'' 1 c" "pb_workers s ! 1 = new_conn [1]"
    by blast
  from public_workers_exclusive [OF r _ s(2)] s(1,3)
  have "tx c = target_line False ''h:81'' \<and> rx c = [1]" by (simp add: new_conn_def)
  with r s(2) show ?thesis by blast
qed


theorem public_request_ends_witness:
  "\<exists>s s'. public_run two_clients new_public_state = Some s \<and>
     public_run [Pub_Elapse (nat request_timeout), Pub_Expire 1] s = Some s' \<and>
     pb_conns s' ! 1 = Public_Closed"
proof -
  from two_clients_run obtain s where r: "public_run two_clients new_public_state = Some s"
    and c: "pb_conns s = [Public_Waiting ''h:80'' request_timeout, Public_Waiting ''h:81'' request_timeout]" by blast
  from public_request_ends [OF r, of 1] c r show ?thesis by fastforce
qed

end
