(* ===== verification/Udp_Relay.thy ===== *)
theory Udp_Relay
  imports Control
begin

text \<open>
  Datagrams over a stream connection, from \<open>internal/tunnel/runner.go\<close>: the length-prefixed frames
  (\<open>writeDatagramFrame\<close>, \<open>readDatagramFrame\<close>), the client's relay to a UDP target
  (\<open>handleUDPClientRelay\<close>), the public UDP listener with its association per source address
  (\<open>startPublicUDPListener\<close>), and the loop that starts the public listeners, which that function
  never leaves while it serves.
\<close>

section \<open>Frames\<close>

definition max_datagram :: nat where
  "max_datagram = 65535"

definition write_datagram_frame :: "'w write_op \<Rightarrow> 'w \<Rightarrow> bytes \<Rightarrow> io_error option \<times> 'w" where
  "write_datagram_frame wr w p =
     (let p = (if length p > max_datagram then take max_datagram p else p)
      in write2 wr w (put_uint16 (of_nat (length p))) p)"

definition read_datagram_frame :: "bytes \<Rightarrow> (io_error, bytes \<times> bytes) result" where
  "read_datagram_frame inp =
     (case read_full 2 inp of
        Inl e \<Rightarrow> Err e
      | Inr (hdr, inp1) \<Rightarrow>
          (let n = unat (uint16_be (hdr ! 0) (hdr ! 1)) in
           if n = 0 then Ok ([], inp1) else read_full n inp1))"

definition datagram_frame :: "bytes \<Rightarrow> bytes" where
  "datagram_frame p =
     put_uint16 (of_nat (length (take max_datagram p))) @ take max_datagram p"

lemma cut_datagram [simp]:
  "(if length p > max_datagram then take max_datagram p else p) = take max_datagram p"
  by simp

context io_writer_full
begin

lemma datagram_sent:
  "write_datagram_frame wr w p = (None, w') \<Longrightarrow> sent w' = sent w @ datagram_frame p"
  by (auto simp: write_datagram_frame_def datagram_frame_def dest: write2_ok)

end

lemma read_datagram_frame_append [frame_simps]:
  "read_datagram_frame (datagram_frame p @ rest) = Ok (take max_datagram p, rest)"
proof -
  define q where "q = take max_datagram p"
  then have len: "length q \<le> 65535" by (simp add: max_datagram_def)
  have "read_full 2 (datagram_frame p @ rest) = Ok (put_uint16 (of_nat (length q)), q @ rest)"
    by (simp add: datagram_frame_def read_full_append q_def)
  moreover have "unat (uint16_be (put_uint16 (of_nat (length q)) ! 0) (put_uint16 (of_nat (length q)) ! 1))
      = length q"
    using unat_of_nat16 [OF len] by (simp add: put_uint16_def)
  ultimately have "read_datagram_frame (datagram_frame p @ rest) = Ok (q, rest)"
    by (auto simp: read_datagram_frame_def Let_def read_full_append)
  then show ?thesis by (simp add: q_def)
qed

lemma read_datagram_frame_shrinks:
  "read_datagram_frame inp = Ok (p, rest) \<Longrightarrow> length rest < length inp"
  by (auto simp: read_datagram_frame_def Let_def split: sum.splits if_splits dest!: read_full_Ok)

section \<open>The relay of the client\<close>

text \<open>The goroutine that takes frames from the control connection and sends each payload to the UDP
  target: the datagrams it sent and the error it ends with. \<open>up\<close> is what \<open>up.Write\<close> returns.\<close>

function relay_to_target ::
  "(bytes \<Rightarrow> io_error option) \<Rightarrow> bytes \<Rightarrow> bytes list \<times> io_error" where
  "relay_to_target up inp =
     (case read_datagram_frame inp of
        Inl e \<Rightarrow> ([], e)
      | Inr (pkt, rest) \<Rightarrow>
          (case up pkt of
             Some e \<Rightarrow> ([], e)
           | None \<Rightarrow> (case relay_to_target up rest of (pkts, e) \<Rightarrow> (pkt # pkts, e))))"
  by pat_completeness auto
termination
  by (relation "measure (\<lambda>(_, inp). length inp)") (auto dest: read_datagram_frame_shrinks)

declare relay_to_target.simps [simp del]

text \<open>The goroutine of the other direction: a datagram read from the target becomes a frame; the reads
  end with an error.\<close>

fun relay_from_target ::
  "net_conn \<Rightarrow> bytes list \<Rightarrow> io_error \<Rightarrow> io_error \<times> net_conn" where
  "relay_from_target control [] e = (e, control)"
| "relay_from_target control (pkt # pkts) e =
     (case write_datagram_frame conn_write control (take 65536 pkt) of
        (Some err, c) \<Rightarrow> (err, c)
      | (None, c) \<Rightarrow> relay_from_target c pkts e)"

definition relayed :: "bytes \<Rightarrow> bytes list" where
  "relayed inp = fst (relay_to_target (\<lambda>_. None) inp)"

lemma relayed_frame [simp]: "relayed (datagram_frame p @ rest) = take max_datagram p # relayed rest"
  by (subst relayed_def, subst relay_to_target.simps)
    (simp add: read_datagram_frame_append relayed_def split: prod.splits)

lemma relayed_Nil [simp]: "relayed [] = []"
  by (simp add: relayed_def relay_to_target.simps read_datagram_frame_def read_full_def)

lemma relay_to_target_frames:
  "relay_to_target (\<lambda>_. None) (concat (map datagram_frame ps)) = (map (take max_datagram) ps, EOF)"
proof (induction ps)
  case Nil
  show ?case by (simp add: relay_to_target.simps [of _ "[]"] read_datagram_frame_def read_full_def)
next
  case (Cons p ps)
  then show ?case
    by (subst relay_to_target.simps) (simp add: read_datagram_frame_append)
qed

lemma relayed_frames: "relayed (concat (map datagram_frame ps)) = map (take max_datagram) ps"
  by (simp add: relayed_def relay_to_target_frames)

lemma write_datagram_open [simp]:
  "\<not> closed c \<Longrightarrow> budget c = None \<Longrightarrow>
   write_datagram_frame conn_write c p = (None, c\<lparr>tx := tx c @ datagram_frame p\<rparr>)"
  unfolding write_datagram_frame_def Let_def cut_datagram by (simp add: write2_def datagram_frame_def)

lemma datagrams_written:
  "relay_from_target control pkts e = (e', control') \<Longrightarrow> \<not> closed control \<Longrightarrow> budget control = None \<Longrightarrow>
   e' = e \<and> tx control' = tx control @ concat (map (\<lambda>p. datagram_frame (take 65536 p)) pkts)"
  by (induction pkts arbitrary: control) auto

text \<open>Datagrams keep their boundaries over the stream: what one end writes as frames, cut at 65535 bytes
  each, the other end's relay sends to its target, datagram by datagram and in order, empty ones
  included; it ends with the end of the stream. The client's relay writes every datagram from its
  target the same way.\<close>

theorem datagrams_roundtrip:
  "relay_to_target (\<lambda>_. None) (concat (map datagram_frame ps)) = (map (take max_datagram) ps, EOF) \<and>
   (\<not> closed control \<and> budget control = None \<and> tx control = [] \<longrightarrow>
     (\<exists>control'. relay_from_target control ps e = (e, control') \<and>
        relayed (tx control') = map (take max_datagram) ps))"
proof (intro conjI impI)
  show "relay_to_target (\<lambda>_. None) (concat (map datagram_frame ps)) = (map (take max_datagram) ps, EOF)"
    by (rule relay_to_target_frames)
next
  assume a: "\<not> closed control \<and> budget control = None \<and> tx control = []"
  obtain e' control' where r: "relay_from_target control ps e = (e', control')"
    by (cases "relay_from_target control ps e")
  from datagrams_written [OF this] a have "e' = e"
    "tx control' = concat (map datagram_frame (map (take 65536) ps))" by (simp_all add: comp_def)
  moreover have "map (take max_datagram) (map (take 65536) ps) = map (take max_datagram) ps"
    by (simp add: max_datagram_def min_def)
  ultimately show "\<exists>control'. relay_from_target control ps e = (e, control') \<and>
      relayed (tx control') = map (take max_datagram) ps"
    using r by (metis relayed_frames)
qed

theorem datagrams_roundtrip_witness:
  "relay_to_target (\<lambda>_. None) (concat (map datagram_frame [[1, 2], [], [3]])) = ([[1, 2], [], [3]], EOF) \<and>
   (\<exists>control'. relay_from_target (new_conn []) [[1, 2], [], [3]] Net_Closed = (Net_Closed, control') \<and>
      relayed (tx control') = [[1, 2], [], [3]])"
  using datagrams_roundtrip [of "[[1, 2], [], [3]]" "new_conn []" Net_Closed]
  by (simp add: max_datagram_def new_conn_def)

section \<open>Associations\<close>

text \<open>
  The state of \<open>startPublicUDPListener\<close>: every connection it acquired with the source address it serves
  (\<open>udpAssociation\<close>), the map from addresses to associations, the associations whose reader
  goroutine runs, the datagrams sent to the public side (by which association, to which address), the
  history of what arrived on each connection, and the main loop's association and datagram between
  the lookup and the write.
\<close>

record udp_relay =
  ua_list :: "(net_conn \<times> string) list"
  ua_assocs :: "string \<rightharpoonup> nat"
  ua_running :: "nat set"
  ua_sent :: "(nat \<times> string \<times> bytes) list"
  ua_got :: "bytes list"
  ua_pending :: "(nat \<times> bytes) option"

definition new_udp_relay :: udp_relay where
  "new_udp_relay =
     \<lparr>ua_list = [], ua_assocs = Map.empty, ua_running = {}, ua_sent = [], ua_got = [], ua_pending = None\<rparr>"

definition ua_conn :: "udp_relay \<Rightarrow> nat \<Rightarrow> net_conn" where
  "ua_conn s i = fst (ua_list s ! i)"

definition ua_addr :: "udp_relay \<Rightarrow> nat \<Rightarrow> string" where
  "ua_addr s i = snd (ua_list s ! i)"

definition set_ua_conn :: "nat \<Rightarrow> net_conn \<Rightarrow> udp_relay \<Rightarrow> udp_relay" where
  "set_ua_conn i c s = s\<lparr>ua_list := (ua_list s)[i := (c, ua_addr s i)]\<rparr>"

text \<open>The main loop receives a datagram, looks the source up and, for a new source, acquires a
  connection; when that fails the datagram is dropped.\<close>

definition udp_receive ::
  "string \<Rightarrow> bytes \<Rightarrow> net_conn option \<Rightarrow> udp_relay \<Rightarrow> udp_relay" where
  "udp_receive key p acquired s =
     (case ua_assocs s key of
        Some i \<Rightarrow> s\<lparr>ua_pending := Some (i, p)\<rparr>
      | None \<Rightarrow>
          (case acquired of
             None \<Rightarrow> s
           | Some c \<Rightarrow>
               (let i = length (ua_list s) in
                s\<lparr>ua_list := ua_list s @ [(c, key)], ua_assocs := (ua_assocs s)(key \<mapsto> i),
                  ua_running := insert i (ua_running s), ua_got := ua_got s @ [rx c],
                  ua_pending := Some (i, p)\<rparr>)))"

text \<open>The main loop writes the datagram; an error closes the connection, and its reader will see that.\<close>

definition udp_forward :: "udp_relay \<Rightarrow> udp_relay" where
  "udp_forward s =
     (case ua_pending s of
        None \<Rightarrow> s
      | Some (i, p) \<Rightarrow>
          (let s = s\<lparr>ua_pending := None\<rparr> in
           case write_datagram_frame conn_write (ua_conn s i) p of
             (Some e, c) \<Rightarrow> set_ua_conn i (conn_close c) s
           | (None, c) \<Rightarrow> set_ua_conn i c s))"

text \<open>One round of the reader of association \<open>i\<close>: a reply goes to the association's address; an error
  closes the connection and deletes the address from the map.\<close>

definition udp_reply :: "nat \<Rightarrow> udp_relay \<Rightarrow> udp_relay" where
  "udp_reply i s =
     (case read_datagram_frame (conn_input (ua_conn s i)) of
        Inl e \<Rightarrow>
          (set_ua_conn i (conn_close (ua_conn s i)) s)
            \<lparr>ua_assocs := (ua_assocs s)(ua_addr s i := None), ua_running := ua_running s - {i}\<rparr>
      | Inr (pkt, rest) \<Rightarrow>
          (set_ua_conn i ((ua_conn s i)\<lparr>rx := rest\<rparr>) s)\<lparr>ua_sent := ua_sent s @ [(i, ua_addr s i, pkt)]\<rparr>)"

text \<open>Bytes that arrive on a connection of the list.\<close>

definition udp_arrive :: "nat \<Rightarrow> bytes \<Rightarrow> udp_relay \<Rightarrow> udp_relay" where
  "udp_arrive i bs s =
     (set_ua_conn i ((ua_conn s i)\<lparr>rx := rx (ua_conn s i) @ bs\<rparr>) s)
       \<lparr>ua_got := (ua_got s)[i := ua_got s ! i @ bs]\<rparr>"

datatype udp_label =
    L_Receive string bytes "net_conn option"
  | L_Forward
  | L_Reply
  | L_Gone string
  | L_Arrive

inductive udp_step :: "udp_relay \<Rightarrow> udp_label \<Rightarrow> udp_relay \<Rightarrow> bool" where
  Receive: "ua_pending s = None \<Longrightarrow>
    udp_step s (L_Receive key p acquired) (udp_receive key p acquired s)"
| Forward: "ua_pending s = Some ip \<Longrightarrow> udp_step s L_Forward (udp_forward s)"
| Reply: "i \<in> ua_running s \<Longrightarrow> read_datagram_frame (conn_input (ua_conn s i)) = Ok pr \<Longrightarrow>
    udp_step s L_Reply (udp_reply i s)"
| Gone: "i \<in> ua_running s \<Longrightarrow> read_datagram_frame (conn_input (ua_conn s i)) = Err e \<Longrightarrow>
    udp_step s (L_Gone (ua_addr s i)) (udp_reply i s)"
| Arrive: "i < length (ua_list s) \<Longrightarrow> udp_step s L_Arrive (udp_arrive i bs s)"

inductive udp_run :: "udp_label list \<Rightarrow> udp_relay \<Rightarrow> bool" where
  Start: "udp_run [] new_udp_relay"
| Step: "udp_run ls s \<Longrightarrow> udp_step s l s' \<Longrightarrow> udp_run (ls @ [l]) s'"

text \<open>The running readers and the map name the same associations, each under its own address.\<close>

definition udp_relay_ok :: "udp_relay \<Rightarrow> bool" where
  "udp_relay_ok s \<longleftrightarrow>
     (\<forall>i \<in> ua_running s. i < length (ua_list s) \<and> ua_assocs s (ua_addr s i) = Some i) \<and>
     (\<forall>key i. ua_assocs s key = Some i \<longrightarrow> i \<in> ua_running s \<and> ua_addr s i = key) \<and>
     (\<forall>i p. ua_pending s = Some (i, p) \<longrightarrow> i < length (ua_list s))"

lemma ua_other_fields [simp]:
  "ua_addr (s\<lparr>ua_assocs := m\<rparr>) j = ua_addr s j" "ua_conn (s\<lparr>ua_assocs := m\<rparr>) j = ua_conn s j"
  "ua_addr (s\<lparr>ua_running := r\<rparr>) j = ua_addr s j" "ua_conn (s\<lparr>ua_running := r\<rparr>) j = ua_conn s j"
  "ua_addr (s\<lparr>ua_sent := l\<rparr>) j = ua_addr s j" "ua_conn (s\<lparr>ua_sent := l\<rparr>) j = ua_conn s j"
  "ua_addr (s\<lparr>ua_got := g\<rparr>) j = ua_addr s j" "ua_conn (s\<lparr>ua_got := g\<rparr>) j = ua_conn s j"
  "ua_addr (s\<lparr>ua_pending := q\<rparr>) j = ua_addr s j" "ua_conn (s\<lparr>ua_pending := q\<rparr>) j = ua_conn s j"
  by (simp_all add: ua_addr_def ua_conn_def)

lemma ua_append [simp]:
  "j < length (ua_list s) \<Longrightarrow> ua_addr (s\<lparr>ua_list := ua_list s @ xs\<rparr>) j = ua_addr s j"
  "j < length (ua_list s) \<Longrightarrow> ua_conn (s\<lparr>ua_list := ua_list s @ xs\<rparr>) j = ua_conn s j"
  "ua_addr (s\<lparr>ua_list := ua_list s @ [(c, key)]\<rparr>) (length (ua_list s)) = key"
  "ua_conn (s\<lparr>ua_list := ua_list s @ [(c, key)]\<rparr>) (length (ua_list s)) = c"
  by (simp_all add: ua_addr_def ua_conn_def nth_append)

lemma set_ua_conn_simps [simp]:
  "length (ua_list (set_ua_conn i c s)) = length (ua_list s)"
  "ua_assocs (set_ua_conn i c s) = ua_assocs s"
  "ua_running (set_ua_conn i c s) = ua_running s"
  "ua_pending (set_ua_conn i c s) = ua_pending s"
  "ua_sent (set_ua_conn i c s) = ua_sent s" "ua_got (set_ua_conn i c s) = ua_got s"
  "i < length (ua_list s) \<Longrightarrow> ua_addr (set_ua_conn i c s) j = ua_addr s j"
  "i < length (ua_list s) \<Longrightarrow> ua_conn (set_ua_conn i c s) j = (if i = j then c else ua_conn s j)"
  by (simp_all add: set_ua_conn_def ua_addr_def ua_conn_def nth_list_update)

text \<open>A new association: the effect on the components of the state.\<close>

lemma udp_receive_new:
  assumes "ua_assocs s key = None" "s' = udp_receive key p (Some c) s"
  shows "length (ua_list s') = Suc (length (ua_list s))"
    and "ua_assocs s' = (ua_assocs s)(key \<mapsto> length (ua_list s))"
    and "ua_running s' = insert (length (ua_list s)) (ua_running s)"
    and "ua_pending s' = Some (length (ua_list s), p)"
    and "ua_addr s' (length (ua_list s)) = key" and "ua_conn s' (length (ua_list s)) = c"
    and "j < length (ua_list s) \<Longrightarrow> ua_addr s' j = ua_addr s j"
    and "j < length (ua_list s) \<Longrightarrow> ua_conn s' j = ua_conn s j"
  using assms by (simp_all add: udp_receive_def Let_def ua_addr_def ua_conn_def nth_append)

lemma udp_receive_known:
  "ua_assocs s key = Some i \<Longrightarrow> udp_receive key p acq s = s\<lparr>ua_pending := Some (i, p)\<rparr>"
  "ua_assocs s key = None \<Longrightarrow> udp_receive key p None s = s"
  by (simp_all add: udp_receive_def)

lemma udp_relay_okI:
  assumes "\<And>i. i \<in> ua_running s \<Longrightarrow> i < length (ua_list s) \<and> ua_assocs s (ua_addr s i) = Some i"
    and "\<And>key i. ua_assocs s key = Some i \<Longrightarrow> i \<in> ua_running s \<and> ua_addr s i = key"
    and "\<And>i p. ua_pending s = Some (i, p) \<Longrightarrow> i < length (ua_list s)"
  shows "udp_relay_ok s"
  using assms by (simp add: udp_relay_ok_def)

lemma udp_relay_okD:
  assumes "udp_relay_ok s"
  shows "i \<in> ua_running s \<Longrightarrow> i < length (ua_list s)"
    and "i \<in> ua_running s \<Longrightarrow> ua_assocs s (ua_addr s i) = Some i"
    and "ua_assocs s key = Some i \<Longrightarrow> i \<in> ua_running s"
    and "ua_assocs s key = Some i \<Longrightarrow> ua_addr s i = key"
    and "ua_pending s = Some (i, p) \<Longrightarrow> i < length (ua_list s)"
  using assms by (auto simp: udp_relay_ok_def)

lemma udp_receive_ok:
  assumes "udp_relay_ok s"
  shows "udp_relay_ok (udp_receive key p acq s)"
proof (cases "ua_assocs s key")
  case None
  note D = udp_relay_okD [OF assms]
  show ?thesis
  proof (cases acq)
    case (Some c)
    have fresh: "ua_addr s j \<noteq> key" if "j \<in> ua_running s" for j
      using D(2) [OF that] None by auto
    note N = udp_receive_new [OF None refl, where p = p and c = c]
    show ?thesis
      unfolding Some
    proof (rule udp_relay_okI)
      fix i assume "i \<in> ua_running (udp_receive key p (Some c) s)"
      then consider "i = length (ua_list s)" | "i \<in> ua_running s" "i < length (ua_list s)"
        using N(3) D(1) by auto
      then show "i < length (ua_list (udp_receive key p (Some c) s)) \<and>
          ua_assocs (udp_receive key p (Some c) s) (ua_addr (udp_receive key p (Some c) s) i) = Some i"
        by cases (simp_all add: N D(2) fresh)
    next
      fix k i assume "ua_assocs (udp_receive key p (Some c) s) k = Some i"
      then have "k = key \<and> i = length (ua_list s) \<or> k \<noteq> key \<and> ua_assocs s k = Some i"
        by (auto simp: N(2) split: if_splits)
      then show "i \<in> ua_running (udp_receive key p (Some c) s) \<and>
          ua_addr (udp_receive key p (Some c) s) i = k"
        using D(3,4) D(1) [OF D(3)] by (auto simp: N)
    qed (auto simp: N)
  qed (simp add: udp_receive_known None assms)
next
  case (Some i)
  note D = udp_relay_okD [OF assms]
  show ?thesis
    unfolding udp_receive_known(1) [OF Some]
    by (rule udp_relay_okI) (auto simp: D D(1) [OF D(3) [OF Some]])
qed

lemma set_ua_conn_ok:
  assumes "udp_relay_ok s" "i < length (ua_list s)"
  shows "udp_relay_ok (set_ua_conn i c s)"
  using udp_relay_okD [OF assms(1)] assms(2) by (intro udp_relay_okI) auto

lemma no_pending_ok: "udp_relay_ok s \<Longrightarrow> udp_relay_ok (s\<lparr>ua_pending := None\<rparr>)"
  by (rule udp_relay_okI) (auto dest: udp_relay_okD)

lemma sent_ok:
  "udp_relay_ok s \<Longrightarrow> udp_relay_ok (s\<lparr>ua_sent := l\<rparr>)"
  "udp_relay_ok s \<Longrightarrow> udp_relay_ok (s\<lparr>ua_got := g\<rparr>)"
  by (rule udp_relay_okI; auto dest: udp_relay_okD)+

lemma drop_assoc_ok:
  assumes "udp_relay_ok s" "i \<in> ua_running s"
  shows "udp_relay_ok (s\<lparr>ua_assocs := (ua_assocs s)(ua_addr s i := None), ua_running := ua_running s - {i}\<rparr>)"
proof -
  note D = udp_relay_okD [OF assms(1)]
  have other: "ua_addr s j \<noteq> ua_addr s i" if "j \<in> ua_running s" "j \<noteq> i" for j
    using D(2) [OF that(1)] D(2) [OF assms(2)] that(2) by auto
  show ?thesis
    by (rule udp_relay_okI) (use D other in \<open>auto split: if_splits\<close>)
qed

lemma udp_forward_conv:
  assumes "ua_pending s = Some (i, p)"
    and "write_datagram_frame conn_write (ua_conn s i) p = (e, c)"
  shows "udp_forward s =
    set_ua_conn i (if e = None then c else conn_close c) (s\<lparr>ua_pending := None\<rparr>)"
  using assms by (auto simp: udp_forward_def Let_def split: option.splits)

lemma udp_step_ok:
  assumes "udp_step s l s'" "udp_relay_ok s"
  shows "udp_relay_ok s'"
  using assms
proof cases
  case (Receive key p acquired)
  with assms(2) show ?thesis by (simp add: udp_receive_ok)
next
  case (Forward ip)
  obtain i p where ip: "ip = (i, p)" by (cases ip)
  obtain e c where w: "write_datagram_frame conn_write (ua_conn s i) p = (e, c)" by fastforce
  have "i < length (ua_list s)" using assms(2) Forward ip by (auto dest: udp_relay_okD)
  with udp_forward_conv [OF Forward(3) [unfolded ip] w] Forward(2) no_pending_ok [OF assms(2)]
  show ?thesis by (simp add: set_ua_conn_ok)
next
  case (Reply i pr)
  then have "i < length (ua_list s)" using assms(2) by (auto dest: udp_relay_okD)
  with Reply assms(2) show ?thesis
    by (auto simp: udp_reply_def split: prod.splits intro!: sent_ok set_ua_conn_ok)
next
  case (Gone i e)
  then have "i < length (ua_list s)" using assms(2) by (auto dest: udp_relay_okD)
  with Gone assms(2) drop_assoc_ok [of "set_ua_conn i (conn_close (ua_conn s i)) s" i]
  show ?thesis by (simp add: udp_reply_def set_ua_conn_ok)
next
  case (Arrive i bs)
  with assms(2) show ?thesis by (simp add: udp_arrive_def set_ua_conn_ok sent_ok)
qed

lemma udp_run_ok: "udp_run ls s \<Longrightarrow> udp_relay_ok s"
proof (induction rule: udp_run.induct)
  case Start
  show ?case by (simp add: new_udp_relay_def udp_relay_ok_def)
next
  case (Step ls s l s')
  then show ?case by (blast intro: udp_step_ok)
qed

section \<open>What each association carries\<close>

















text \<open>One association per source: the map from source addresses and the running readers name the same
  associations, each under its own address, so two associations never serve one source at a time and
  a reader that ends removes its own entry and no other.\<close>

theorem udp_associations_unique:
  assumes "udp_run ls s"
  shows "(\<forall>key i. ua_assocs s key = Some i \<longleftrightarrow> i \<in> ua_running s \<and> ua_addr s i = key) \<and>
    inj_on (ua_addr s) (ua_running s) \<and> (\<forall>i \<in> ua_running s. i < length (ua_list s))"
  using udp_relay_okD [OF udp_run_ok [OF assms]]
  by (auto simp: inj_on_def) (metis option.inject)

definition example_worker :: net_conn where
  "example_worker = (new_conn [])\<lparr>tx := target_line True ''h:53''\<rparr>"

definition example_relay :: udp_relay where
  "example_relay = udp_forward (udp_receive ''peer'' [1, 2] (Some example_worker) new_udp_relay)"

lemma example_relay_run: "udp_run [L_Receive ''peer'' [1, 2] (Some example_worker), L_Forward] example_relay"
proof -
  have p: "ua_pending (udp_receive ''peer'' [1, 2] (Some example_worker) new_udp_relay) = Some (0, [1, 2])"
    by (simp add: udp_receive_def new_udp_relay_def)
  have "ua_pending new_udp_relay = None" by (simp add: new_udp_relay_def)
  from udp_run.Step [OF udp_run.Start udp_step.Receive [OF this]]
  have "udp_run [L_Receive ''peer'' [1, 2] (Some example_worker)]
      (udp_receive ''peer'' [1, 2] (Some example_worker) new_udp_relay)" by simp
  from udp_run.Step [OF this udp_step.Forward [OF p]] show ?thesis
    by (simp add: example_relay_def)
qed

theorem udp_associations_unique_witness:
  "(\<forall>key i. ua_assocs example_relay key = Some i \<longleftrightarrow> i \<in> ua_running example_relay \<and> ua_addr example_relay i = key) \<and>
   inj_on (ua_addr example_relay) (ua_running example_relay) \<and>
   (\<forall>i \<in> ua_running example_relay. i < length (ua_list example_relay))"
  by (rule udp_associations_unique [OF example_relay_run])



section \<open>Replies\<close>

text \<open>What an association has sent back, in order; what has arrived on its connection is the frames of
  these datagrams and what is still to be read.\<close>

definition replies :: "udp_relay \<Rightarrow> nat \<Rightarrow> bytes list" where
  "replies s i = map (\<lambda>(_, _, p). p) (filter (\<lambda>(j, _). j = i) (ua_sent s))"

definition replies_ok :: "udp_relay \<Rightarrow> bool" where
  "replies_ok s \<longleftrightarrow>
     length (ua_got s) = length (ua_list s) \<and>
     (\<forall>(j, addr, _) \<in> set (ua_sent s). j < length (ua_list s) \<and> addr = ua_addr s j) \<and>
     (\<forall>i < length (ua_list s). \<exists>frames. ua_got s ! i = frames @ rx (ua_conn s i) \<and>
        (\<forall>later. relayed (frames @ later) = replies s i @ relayed later))"

lemma relayed_read:
  "read_datagram_frame inp = Ok (p, rest) \<Longrightarrow> relayed inp = p # relayed rest"
  by (simp add: relayed_def relay_to_target.simps [of _ inp] split: prod.splits)

lemma read_datagram_frame_cut:
  assumes "read_datagram_frame inp = Ok (p, rest)"
  shows "\<exists>f. inp = f @ rest \<and> (\<forall>later. read_datagram_frame (f @ later) = Ok (p, later))"
proof -
  from assms obtain hdr inp1 where h: "read_full 2 inp = Ok (hdr, inp1)"
    and b: "(let n = unat (uint16_be (hdr ! 0) (hdr ! 1)) in if n = 0 then Ok ([], inp1) else read_full n inp1) =
      Ok (p, rest)"
    by (auto simp: read_datagram_frame_def split: sum.splits)
  let ?n = "unat (uint16_be (hdr ! 0) (hdr ! 1))"
  have hdr: "inp = hdr @ inp1" "length hdr = 2" using read_full_Ok [OF h] by auto
  have body: "inp1 = p @ rest" "length p = ?n"
    using b read_full_Ok [of ?n inp1 p rest] by (auto simp: Let_def split: if_splits)
  have "read_datagram_frame ((hdr @ p) @ later) = Ok (p, later)" for later
    using hdr(2) body(2) by (auto simp: read_datagram_frame_def read_full_append Let_def)
  with hdr(1) body(1) show ?thesis by (metis append.assoc)
qed

text \<open>Changes that leave histories, addresses and unread bytes alone.\<close>

lemma replies_ok_cong:
  assumes "replies_ok s" "ua_got s' = ua_got s" "ua_sent s' = ua_sent s" "length (ua_list s') = length (ua_list s)"
    and "\<And>i. i < length (ua_list s) \<Longrightarrow> ua_addr s' i = ua_addr s i \<and> rx (ua_conn s' i) = rx (ua_conn s i)"
  shows "replies_ok s'"
  using assms unfolding replies_ok_def replies_def by (fastforce split: prod.splits)

lemma write_datagram_rx:
  "write_datagram_frame conn_write c p = (e, c') \<Longrightarrow> rx c' = rx c"
  by (auto simp: write_datagram_frame_def write2_def Let_def dest!: conn_write_frame
      split: prod.splits option.splits if_splits)

lemma replies_step_receive:
  assumes "replies_ok s"
  shows "replies_ok (udp_receive k p acq s)"
proof (cases "ua_assocs s k")
  case (Some i)
  show ?thesis
    unfolding udp_receive_known(1) [OF Some] by (rule replies_ok_cong [OF assms]) auto
next
  case None
  show ?thesis
  proof (cases acq)
    case (Some c)
    let ?s = "udp_receive k p (Some c) s" and ?n = "length (ua_list s)"
    note N = udp_receive_new [OF None refl, where p = p and c = c]
    have got: "ua_got ?s = ua_got s @ [rx c]" and sent: "ua_sent ?s = ua_sent s"
      using None by (simp_all add: udp_receive_def Let_def)
    have len: "length (ua_got s) = ?n"
      and snt: "\<And>j addr q. (j, addr, q) \<in> set (ua_sent s) \<Longrightarrow> j < ?n \<and> addr = ua_addr s j"
      and frames: "\<And>i. i < ?n \<Longrightarrow> \<exists>frames. ua_got s ! i = frames @ rx (ua_conn s i) \<and>
        (\<forall>later. relayed (frames @ later) = replies s i @ relayed later)"
      using assms by (auto simp: replies_ok_def)
    have rep: "replies ?s i = replies s i" for i by (simp add: replies_def sent)
    have "filter (\<lambda>(j, _). j = ?n) (ua_sent s) = []"
      using snt by (force simp: filter_empty_conv)
    then have new: "replies ?s ?n = []" by (simp add: rep) (simp add: replies_def)
    have "\<exists>frames. ua_got ?s ! i = frames @ rx (ua_conn ?s i) \<and>
        (\<forall>later. relayed (frames @ later) = replies ?s i @ relayed later)" if "i < Suc ?n" for i
    proof (cases "i = ?n")
      case True
      then show ?thesis by (simp add: got N(6) new nth_append len)
    next
      case False
      with that have "i < ?n" by simp
      with frames [OF this] show ?thesis by (simp add: got N(8) rep nth_append len)
    qed
    then have "replies_ok ?s"
      using len snt by (auto simp: replies_ok_def got sent N(1,7) less_Suc_eq)
    then show ?thesis by (simp add: Some)
  qed (use assms None in \<open>simp add: udp_receive_known\<close>)
qed

lemma replies_step_forward:
  assumes "replies_ok s" "udp_relay_ok s" "ua_pending s = Some ip"
  shows "replies_ok (udp_forward s)"
proof -
  obtain i p where ip: "ip = (i, p)" by (cases ip)
  obtain e c where w: "write_datagram_frame conn_write (ua_conn s i) p = (e, c)" by fastforce
  have i: "i < length (ua_list s)" using udp_relay_okD(5) [OF assms(2)] assms(3) ip by simp
  show ?thesis
    unfolding udp_forward_conv [OF assms(3) [unfolded ip] w]
    by (rule replies_ok_cong [OF assms(1)]) (use i write_datagram_rx [OF w] in \<open>auto simp: conn_close_def\<close>)
qed

lemma replies_step_read:
  assumes "replies_ok s" "i < length (ua_list s)"
    and "read_datagram_frame (conn_input (ua_conn s i)) = Ok (p, rest)"
  shows "replies_ok (udp_reply i s)"
proof -
  let ?s = "udp_reply i s"
  have "conn_input (ua_conn s i) = rx (ua_conn s i)"
  proof (rule ccontr)
    assume "conn_input (ua_conn s i) \<noteq> rx (ua_conn s i)"
    then have "conn_input (ua_conn s i) = []" by (simp add: conn_input_def split: if_splits)
    with assms(3) show False by (simp add: read_datagram_frame_def read_full_def)
  qed
  with assms(3) obtain f where f: "rx (ua_conn s i) = f @ rest" "\<And>later. read_datagram_frame (f @ later) = Ok (p, later)"
    using read_datagram_frame_cut by metis
  have s: "?s = (set_ua_conn i ((ua_conn s i)\<lparr>rx := rest\<rparr>) s)\<lparr>ua_sent := ua_sent s @ [(i, ua_addr s i, p)]\<rparr>"
    using assms(3) by (simp add: udp_reply_def)
  have rep: "replies ?s j = (if j = i then replies s i @ [p] else replies s j)" for j
    by (simp add: s replies_def)
  have "\<exists>frames. ua_got ?s ! j = frames @ rx (ua_conn ?s j) \<and>
      (\<forall>later. relayed (frames @ later) = replies ?s j @ relayed later)" if j: "j < length (ua_list s)" for j
  proof -
    from assms(1) j obtain frames where fr: "ua_got s ! j = frames @ rx (ua_conn s j)"
      "\<And>later. relayed (frames @ later) = replies s j @ relayed later" by (auto simp: replies_ok_def)
    show ?thesis
    proof (cases "j = i")
      case True
      have "relayed ((frames @ f) @ later) = replies ?s j @ relayed later" for later
        using fr(2) [of "f @ later"] relayed_read [OF f(2)] True by (simp add: rep)
      with fr(1) f(1) True assms(2) show ?thesis by (intro exI [of _ "frames @ f"]) (simp add: s)
    next
      case False
      with fr assms(2) show ?thesis by (intro exI [of _ frames]) (simp add: rep, simp add: s)
    qed
  qed
  with assms(1,2) show ?thesis by (auto simp: replies_ok_def s)
qed

lemma replies_step_gone:
  assumes "replies_ok s" "i < length (ua_list s)"
    and "read_datagram_frame (conn_input (ua_conn s i)) = Err e"
  shows "replies_ok (udp_reply i s)"
  by (rule replies_ok_cong [OF assms(1)]) (use assms(2,3) in \<open>auto simp: udp_reply_def conn_close_def\<close>)

lemma replies_step_arrive:
  assumes "replies_ok s" "i < length (ua_list s)"
  shows "replies_ok (udp_arrive i bs s)"
proof -
  have rep: "replies (udp_arrive i bs s) j = replies s j" for j by (simp add: replies_def udp_arrive_def)
  have "\<exists>frames. ua_got (udp_arrive i bs s) ! j = frames @ rx (ua_conn (udp_arrive i bs s) j) \<and>
      (\<forall>later. relayed (frames @ later) = replies s j @ relayed later)" if "j < length (ua_list s)" for j
    using assms that unfolding replies_ok_def udp_arrive_def by (fastforce simp: nth_list_update)
  with assms show ?thesis by (auto simp: replies_ok_def rep) (auto simp: udp_arrive_def)
qed

lemma udp_run_replies: "udp_run ls s \<Longrightarrow> replies_ok s"
proof (induction rule: udp_run.induct)
  case Start
  show ?case by (simp add: replies_ok_def new_udp_relay_def)
next
  case (Step ls s l s')
  note ok = udp_run_ok [OF Step(1)]
  from Step(2) show ?case
  proof cases
    case (Receive key p acquired)
    with Step(3) show ?thesis by (simp add: replies_step_receive)
  next
    case (Forward ip)
    with Step(3) ok show ?thesis by (simp add: replies_step_forward)
  next
    case (Reply i pr)
    with Step(3) udp_relay_okD(1) [OF ok] show ?thesis by (cases pr) (simp add: replies_step_read)
  next
    case (Gone i e)
    with Step(3) udp_relay_okD(1) [OF ok] show ?thesis by (simp add: replies_step_gone)
  next
    case (Arrive i bs)
    with Step(3) show ?thesis by (simp add: replies_step_arrive)
  qed
qed

text \<open>C8. Replies end to end: in every run of the public listener, a datagram is sent only to the source address
  of its association; if the connection of association \<open>i\<close> has delivered some of what a client's
  relay wrote to it, then what association \<open>i\<close> has sent to its source are the first datagrams of the
  client's target, in order and cut at 65535 bytes, and all of them once everything is delivered and
  read.\<close>

theorem udp_replies_end_to_end:
  assumes "udp_run ls s" "i < length (ua_list s)"
    and "relay_from_target control pkts e = (e', control')"
    and "\<not> closed control" "budget control = None" "tx control = []"
    and "prefix (ua_got s ! i) (tx control')"
  shows "(\<forall>(j, addr, p) \<in> set (ua_sent s). addr = ua_addr s j) \<and>
    prefix (replies s i) (map (take max_datagram) pkts) \<and>
    (ua_got s ! i = tx control' \<and> rx (ua_conn s i) = [] \<longrightarrow> replies s i = map (take max_datagram) pkts)"
proof -
  have ok: "replies_ok s" by (rule udp_run_replies [OF assms(1)])
  then have addr: "\<forall>(j, addr, p) \<in> set (ua_sent s). addr = ua_addr s j"
    unfolding replies_ok_def by blast
  from ok assms(2) obtain frames where
    frames: "ua_got s ! i = frames @ rx (ua_conn s i)"
    "\<And>later. relayed (frames @ later) = replies s i @ relayed later"
    unfolding replies_ok_def by blast
  have tx: "tx control' = concat (map datagram_frame (map (take 65536) pkts))"
    using datagrams_written [OF assms(3-5)] assms(6) by (simp add: comp_def)
  have "map (take max_datagram) (map (take 65536) pkts) = map (take max_datagram) pkts"
    by (simp add: max_datagram_def min_def)
  then have all: "relayed (tx control') = map (take max_datagram) pkts"
    unfolding tx relayed_frames .
  from assms(7) obtain y where y: "tx control' = ua_got s ! i @ y" by (auto simp: prefix_def)
  with frames(1) frames(2) [of "rx (ua_conn s i) @ y"] all
  have "map (take max_datagram) pkts = replies s i @ relayed (rx (ua_conn s i) @ y)" by simp
  with addr y show ?thesis by auto
qed

text \<open>A reply of one byte to the source of the example.\<close>

definition example_replied :: udp_relay where
  "example_replied = udp_reply 0 (udp_arrive 0 (datagram_frame [9]) example_relay)"

lemma example_replied_run:
  "udp_run [L_Receive ''peer'' [1, 2] (Some example_worker), L_Forward, L_Arrive, L_Reply] example_replied"
proof -
  have l: "0 < length (ua_list example_relay)" and o: "conn_input (ua_conn (udp_arrive 0 (datagram_frame [9]) example_relay) 0) = datagram_frame [9]"
    and r: "0 \<in> ua_running (udp_arrive 0 (datagram_frame [9]) example_relay)"
    by (simp_all add: example_relay_def udp_forward_def udp_receive_def new_udp_relay_def Let_def ua_conn_def
        ua_addr_def example_worker_def new_conn_def set_ua_conn_def udp_arrive_def conn_input_def)
  have a: "udp_run [L_Receive ''peer'' [1, 2] (Some example_worker), L_Forward, L_Arrive]
      (udp_arrive 0 (datagram_frame [9]) example_relay)"
    using udp_run.Step [OF example_relay_run udp_step.Arrive [OF l]] by simp
  have "read_datagram_frame (conn_input (ua_conn (udp_arrive 0 (datagram_frame [9]) example_relay) 0)) = Ok ([9], [])"
    unfolding o using read_datagram_frame_append [of "[9]" "[]"] by (simp add: max_datagram_def)
  from udp_run.Step [OF a udp_step.Reply [OF r this]] show ?thesis by (simp add: example_replied_def)
qed

theorem udp_replies_end_to_end_witness:
  "replies example_replied 0 = [[9]]"
proof -
  have "0 < length (ua_list example_replied) \<and> ua_got example_replied ! 0 = datagram_frame [9] \<and>
      rx (ua_conn example_replied 0) = []"
    using read_datagram_frame_append [of "[9]" "[]"]
    by (simp add: example_replied_def udp_reply_def example_relay_def udp_forward_def udp_receive_def
        new_udp_relay_def Let_def ua_conn_def ua_addr_def example_worker_def new_conn_def set_ua_conn_def
        udp_arrive_def conn_input_def max_datagram_def)
  with udp_replies_end_to_end [OF example_replied_run, of 0 "new_conn []" "[[9]]" EOF EOF
      "(new_conn [])\<lparr>tx := datagram_frame [9]\<rparr>"]
  show ?thesis by (simp add: new_conn_def max_datagram_def)
qed

section \<open>Starting the public listeners\<close>

text \<open>What \<open>startPublicUDPListener\<close> comes to: an error of the address or the socket, an error of a read, the
  end of the context, or serving on.\<close>

datatype udp_outcome = Udp_Failed string | Udp_Read_Error string | Udp_Stopped | Udp_Serving

datatype start_state = Start_Failed string | Start_Done | Start_Serving_UDP string

text \<open>The loop over the mappings that \<open>runWorkerServer\<close>, \<open>runMuxServer\<close> and the server of the recovered
  protocol share: the addresses it listens on (\<open>True\<close> for UDP) and where it stands.\<close>

fun start_public ::
  "(string \<Rightarrow> string option) \<Rightarrow> (string \<Rightarrow> udp_outcome) \<Rightarrow> bool \<Rightarrow> port_mapping list \<Rightarrow>
   (bool \<times> string) list \<times> start_state" where
  "start_public listen_tcp serve_udp accept_udp [] = ([], Start_Done)"
| "start_public listen_tcp serve_udp accept_udp (m # ms) =
     (case listen_tcp (ListenAddr m) of
        Some err \<Rightarrow> ([], Start_Failed (''listen '' @ ListenAddr m @ '': '' @ err))
      | None \<Rightarrow>
          (let tcp = (False, ListenAddr m) in
           if accept_udp then
             (case serve_udp (ListenAddr m) of
                Udp_Failed err \<Rightarrow> ([tcp], Start_Failed err)
              | Udp_Read_Error err \<Rightarrow> ([tcp, (True, ListenAddr m)], Start_Failed err)
              | Udp_Serving \<Rightarrow> ([tcp, (True, ListenAddr m)], Start_Serving_UDP (ListenAddr m))
              | Udp_Stopped \<Rightarrow>
                  (case start_public listen_tcp serve_udp accept_udp ms of
                     (ls, st) \<Rightarrow> (tcp # (True, ListenAddr m) # ls, st)))
           else
             (case start_public listen_tcp serve_udp accept_udp ms of (ls, st) \<Rightarrow> (tcp # ls, st))))"

text \<open>With UDP accepted, only the first mapping is ever served while its UDP listener works: the loop
  does not leave that listener, so no port of a later mapping is opened; without UDP all are.\<close>

theorem udp_listener_blocks_startup:
  assumes "listen_tcp (ListenAddr m) = None" "serve_udp (ListenAddr m) = Udp_Serving"
    and "list_all (\<lambda>m. listen_tcp (ListenAddr m) = None) ms"
  shows "start_public listen_tcp serve_udp True (m # ms) =
      ([(False, ListenAddr m), (True, ListenAddr m)], Start_Serving_UDP (ListenAddr m)) \<and>
    start_public listen_tcp serve_udp False (m # ms) =
      (map (\<lambda>m. (False, ListenAddr m)) (m # ms), Start_Done)"
proof -
  have "start_public listen_tcp serve_udp False ms = (map (\<lambda>m. (False, ListenAddr m)) ms, Start_Done)"
    using assms(3) by (induction ms) auto
  with assms show ?thesis by simp
qed

theorem udp_listener_blocks_startup_witness:
  "start_public (\<lambda>_. None) (\<lambda>_. Udp_Serving) True
     [\<lparr>ListenAddr = ''0.0.0.0:80'', TargetAddr = ''127.0.0.1:80''\<rparr>,
      \<lparr>ListenAddr = ''0.0.0.0:81'', TargetAddr = ''127.0.0.1:81''\<rparr>] =
   ([(False, ''0.0.0.0:80''), (True, ''0.0.0.0:80'')], Start_Serving_UDP ''0.0.0.0:80'')"
  using udp_listener_blocks_startup [of "\<lambda>_. None" "\<lparr>ListenAddr = ''0.0.0.0:80'', TargetAddr = ''127.0.0.1:80''\<rparr>"
      "\<lambda>_. Udp_Serving" "[\<lparr>ListenAddr = ''0.0.0.0:81'', TargetAddr = ''127.0.0.1:81''\<rparr>]"]
  by simp

end
