(* ===== verification/Control_Listener.thy ===== *)
theory Control_Listener
  imports Control
begin

text \<open>
  How the control listeners of \<open>internal/tunnel/runner.go\<close> are set up and which errors they report:
  \<open>serveWSControl\<close>, \<open>serveHTTPConnectControl\<close>, \<open>serveGRPCControl\<close>, \<open>listenTCPControl\<close> and the dispatch
  of \<open>acceptControl\<close>. The certificates, the sockets and the servers of the libraries are parameters.
\<close>

text \<open>A server of a library goes on serving, was shut down, or fails.\<close>

datatype serve_end = Serving | Server_Closed | Serve_Failed string

record control_env =
  env_load_cert :: "string \<Rightarrow> string \<Rightarrow> string option"
  env_listen_tcp :: "string \<Rightarrow> string option"
  env_listen_kcp :: "string \<Rightarrow> string option"
  env_listen_udp :: "string \<Rightarrow> string option"
  env_serve_http :: "bool \<Rightarrow> string \<Rightarrow> serve_end"
  env_serve_grpc :: "bool \<Rightarrow> string \<Rightarrow> serve_end"

definition no_cert :: "server_opts \<Rightarrow> bool" where
  "no_cert opts \<longleftrightarrow> sv_TLSCert opts = [] \<or> sv_TLSKey opts = []"

definition http_server_error :: "serve_end \<Rightarrow> string option" where
  "http_server_error r = (case r of Serve_Failed e \<Rightarrow> Some e | _ \<Rightarrow> None)"

definition serve_ws_control :: "control_env \<Rightarrow> server_opts \<Rightarrow> transport_kind \<Rightarrow> string option" where
  "serve_ws_control env opts kind =
     (if tk_tls kind then
        (if no_cert opts then Some ''wss/wssmux requires tls_cert and tls_key''
         else http_server_error (env_serve_http env True (sv_BindAddr opts)))
      else http_server_error (env_serve_http env False (sv_BindAddr opts)))"

definition serve_http_connect_control :: "control_env \<Rightarrow> server_opts \<Rightarrow> transport_kind \<Rightarrow> string option" where
  "serve_http_connect_control env opts kind =
     (if tk_tls kind then
        (if no_cert opts then Some ''https/httpsmux requires tls_cert and tls_key''
         else http_server_error (env_serve_http env True (sv_BindAddr opts)))
      else http_server_error (env_serve_http env False (sv_BindAddr opts)))"

text \<open>A gRPC server that ends while the context is not done is an error of its own.\<close>

definition serve_grpc_control ::
  "control_env \<Rightarrow> bool \<Rightarrow> server_opts \<Rightarrow> transport_kind \<Rightarrow> string option" where
  "serve_grpc_control env ctx_done opts kind =
     (let serve =
        (case env_listen_tcp env (sv_BindAddr opts) of
           Some e \<Rightarrow> Some e
         | None \<Rightarrow>
             (case env_serve_grpc env (tk_tls kind) (sv_BindAddr opts) of
                Serving \<Rightarrow> None
              | _ \<Rightarrow> if ctx_done then None else Some ''grpc server stopped''))
      in if tk_tls kind then
           (if no_cert opts then Some ''grpcs/grpcsmux requires tls_cert and tls_key''
            else (case env_load_cert env (sv_TLSCert opts) (sv_TLSKey opts) of
                    Some e \<Rightarrow> Some e
                  | None \<Rightarrow> serve))
         else serve)"

definition listen_tcp_control :: "control_env \<Rightarrow> server_opts \<Rightarrow> transport_kind \<Rightarrow> string option" where
  "listen_tcp_control env opts kind =
     (if \<not> tk_tls kind then env_listen_tcp env (sv_BindAddr opts)
      else if no_cert opts then Some ''anytls requires tls_cert and tls_key''
      else (case env_load_cert env (sv_TLSCert opts) (sv_TLSKey opts) of
              Some e \<Rightarrow> Some e
            | None \<Rightarrow> env_listen_tcp env (sv_BindAddr opts)))"

text \<open>The error that \<open>acceptControl\<close> puts into the error channel, if any.\<close>

definition accept_control :: "control_env \<Rightarrow> bool \<Rightarrow> server_opts \<Rightarrow> transport_kind \<Rightarrow> string option" where
  "accept_control env ctx_done opts kind =
     (if tk_ws kind then serve_ws_control env opts kind
      else if tk_grpc kind then serve_grpc_control env ctx_done opts kind
      else if tk_http kind then serve_http_connect_control env opts kind
      else if tk_kcp kind then env_listen_kcp env (sv_BindAddr opts)
      else if tk_udp kind then
        env_listen_udp env (if tk_dns kind then with_default_port (sv_BindAddr opts) ''53'' else sv_BindAddr opts)
      else listen_tcp_control env opts kind)"

section \<open>Against the endpoint\<close>

text \<open>What the endpoint's carrier comes to at its address.\<close>

definition endpoint_error :: "control_env \<Rightarrow> bool \<Rightarrow> server_opts \<Rightarrow> endpoint \<Rightarrow> string option" where
  "endpoint_error env ctx_done opts ep =
     (let cert = (if ep_tls ep then env_load_cert env (sv_TLSCert opts) (sv_TLSKey opts) else None) in
      case ep_carrier ep of
        Carrier_WS \<Rightarrow> http_server_error (env_serve_http env (ep_tls ep) (ep_addr ep))
      | Carrier_HTTP \<Rightarrow> http_server_error (env_serve_http env (ep_tls ep) (ep_addr ep))
      | Carrier_KCP \<Rightarrow> env_listen_kcp env (ep_addr ep)
      | Carrier_UDP \<Rightarrow> env_listen_udp env (ep_addr ep)
      | Carrier_TCP \<Rightarrow> (if cert \<noteq> None then cert else env_listen_tcp env (ep_addr ep))
      | Carrier_GRPC \<Rightarrow>
          (if cert \<noteq> None then cert
           else if env_listen_tcp env (ep_addr ep) \<noteq> None then env_listen_tcp env (ep_addr ep)
           else if env_serve_grpc env (ep_tls ep) (ep_addr ep) \<noteq> Serving \<and> \<not> ctx_done
           then Some ''grpc server stopped'' else None))"

text \<open>The control listener of every transport reports what its endpoint comes to: without an endpoint, which
  happens only for a TLS transport without certificate or key, that error; otherwise the first error
  of the certificate, the socket and the server at the endpoint's address, and none if there is none.\<close>

theorem accept_control_endpoint:
  "accept_control env ctx_done opts kind =
     (case accept_endpoint (sv_BindAddr opts) (sv_TLSCert opts) (sv_TLSKey opts) kind of
        Inl e \<Rightarrow> Some e
      | Inr ep \<Rightarrow> endpoint_error env ctx_done opts ep)"
  by (auto simp: accept_control_def accept_endpoint_def endpoint_error_def serve_ws_control_def
      serve_http_connect_control_def serve_grpc_control_def listen_tcp_control_def no_cert_def Let_def
      split: option.splits serve_end.splits)

end
