(* ===== verification/Server_Run.thy ===== *)
theory Server_Run
  imports Udp_Relay Control_Listener
begin

text \<open>
  How the servers run as a whole: \<open>runWorkerServer\<close> and \<open>runMuxServer\<close> of \<open>internal/tunnel/runner.go\<close>
  and \<open>runOriginalTCPServer\<close> of \<open>internal/tunnel/original_protocol.go\<close> start the control listener in a
  goroutine that reports an error in a channel, start the public listeners one after the other, and
  then wait for the context or the error. The outcomes of listening are parameters.
\<close>

section \<open>The servers\<close>





section \<open>Errors of the control listener\<close>







end
