(* ===== verification/Client_Loops.thy ===== *)
theory Client_Loops
  imports Control
begin

text \<open>
  The loops that keep a client's workers and sessions alive, \<open>runWorkerLoop\<close> and \<open>runMuxSessionLoop\<close> of
  \<open>internal/tunnel/runner.go\<close>: what they dial, close and wait for, round by round. How each round
  goes (the dial, the target line, the target's connection, the relay) is an input.
\<close>

section \<open>Actions\<close>

datatype loop_action =
    Dial_Control
  | Open_Control
  | Close_Control
  | Dial_Target string
  | Open_Target
  | Close_Target
  | Relay_Until_End relay
  | Sleep int

section \<open>Workers\<close>

text \<open>A round: when it starts, what the dial yields, whether the target can be dialled. A UDP relay always
  ends with an error (\<open>handleUDPClientRelay\<close> returns the first error of its two goroutines).\<close>

record worker_input_round =
  wr_ctx_done :: bool
  wr_start :: int
  wr_dial :: "(io_error, arrivals) result"
  wr_target_ok :: bool

definition worker_actions :: "client_opts \<Rightarrow> transport_kind \<Rightarrow> worker_input_round \<Rightarrow> loop_action list" where
  "worker_actions opts kind w =
     Dial_Control #
     (case run_worker_round opts kind (wr_start w) (wr_dial w) of
        Round_Dial_Failed d \<Rightarrow> [Sleep d]
      | Round_Bad_Target d \<Rightarrow> [Open_Control, Close_Control, Sleep d]
      | Round_Relay (Relay_UDP target) rest \<Rightarrow>
          (if wr_target_ok w
           then [Open_Control, Dial_Target target, Open_Target, Relay_Until_End (Relay_UDP target), Close_Target,
             Close_Control, Sleep (cl_RetryInterval opts)]
           else [Open_Control, Dial_Target target, Close_Control, Sleep (cl_RetryInterval opts)])
      | Round_Relay (Relay_TCP target) rest \<Rightarrow>
          (if wr_target_ok w
           then [Open_Control, Dial_Target target, Open_Target, Relay_Until_End (Relay_TCP target),
             Close_Control, Close_Target]
           else [Open_Control, Dial_Target target, Close_Control, Sleep (cl_RetryInterval opts)]))"

fun worker_loop :: "client_opts \<Rightarrow> transport_kind \<Rightarrow> worker_input_round list \<Rightarrow> loop_action list" where
  "worker_loop opts kind [] = []"
| "worker_loop opts kind (w # ws) =
     (if wr_ctx_done w then [] else worker_actions opts kind w @ worker_loop opts kind ws)"

section \<open>Sessions\<close>

text \<open>A round of the session loop: the dial succeeds or not; the session serves streams until its accept
  fails, which is an error unless the context is done by then.\<close>

record session_round =
  sr_ctx_done :: bool
  sr_dialled :: bool
  sr_done_after :: bool

fun mux_session_loop :: "client_opts \<Rightarrow> session_round list \<Rightarrow> loop_action list" where
  "mux_session_loop opts [] = []"
| "mux_session_loop opts (r # rs) =
     (if sr_ctx_done r then []
      else if \<not> sr_dialled r
      then [Dial_Control, Sleep (cl_RetryInterval opts)] @ mux_session_loop opts rs
      else if sr_done_after r then [Dial_Control, Open_Control, Close_Control]
      else [Dial_Control, Open_Control, Close_Control, Sleep (cl_RetryInterval opts)] @
        mux_session_loop opts rs)"

section \<open>No leak, no spinning\<close>

text \<open>Which connections are open along a sequence of actions; \<open>None\<close> if one is opened twice or closed
  without being open, or a dial starts while a connection of the round before is open.\<close>

fun track :: "bool \<times> bool \<Rightarrow> loop_action list \<Rightarrow> (bool \<times> bool) option" where
  "track (c, t) [] = Some (c, t)"
| "track (c, t) (a # as) =
     (case a of
        Dial_Control \<Rightarrow> if c \<or> t then None else track (c, t) as
      | Open_Control \<Rightarrow> if c then None else track (True, t) as
      | Close_Control \<Rightarrow> if c then track (False, t) as else None
      | Dial_Target _ \<Rightarrow> if c \<and> \<not> t then track (c, t) as else None
      | Open_Target \<Rightarrow> if t then None else track (c, True) as
      | Close_Target \<Rightarrow> if t then track (c, False) as else None
      | Relay_Until_End _ \<Rightarrow> if c \<and> t then track (c, t) as else None
      | Sleep _ \<Rightarrow> if c \<or> t then None else track (c, t) as)"

definition dials :: "loop_action list \<Rightarrow> nat" where
  "dials as = count_list as Dial_Control"

definition tcp_relays :: "loop_action list \<Rightarrow> nat" where
  "tcp_relays as = length (filter (\<lambda>a. \<exists>t. a = Relay_Until_End (Relay_TCP t)) as)"

fun slept :: "loop_action list \<Rightarrow> int" where
  "slept [] = 0"
| "slept (Sleep d # as) = d + slept as"
| "slept (_ # as) = slept as"

lemma slept_append [simp]: "slept (as @ bs) = slept as + slept bs"
  by (induction as rule: slept.induct) simp_all

lemma track_append:
  "track p (as @ bs) = (case track p as of None \<Rightarrow> None | Some q \<Rightarrow> track q bs)"
  by (induction p as rule: track.induct) (auto split: loop_action.splits)

lemma worker_actions_ok:
  "track (False, False) (worker_actions opts kind w) = Some (False, False)"
  "dials (worker_actions opts kind w) = 1"
  "slept (worker_actions opts kind w) =
     (if tcp_relays (worker_actions opts kind w) = 0 then cl_RetryInterval opts else 0)"
  "tcp_relays (worker_actions opts kind w) \<le> 1"
  by (auto simp: worker_actions_def dials_def tcp_relays_def run_worker_round_def
      split: worker_round.splits relay.splits sum.splits)

text \<open>C38. A worker's loop leaks no connection and does not spin: whatever happens to its dials, target
  lines, targets and relays, every connection it opens is closed again before it sleeps or dials
  anew, never twice; and it sleeps the retry interval, which the defaults make positive, after each
  round that did not relay a TCP connection.\<close>

theorem worker_loop_paced:
  assumes "run_client opts = Worker_Client eff kind"
  shows "0 < cl_RetryInterval eff \<and>
    track (False, False) (worker_loop eff kind ws) = Some (False, False) \<and>
    slept (worker_loop eff kind ws) =
      (int (dials (worker_loop eff kind ws)) - int (tcp_relays (worker_loop eff kind ws))) * cl_RetryInterval eff"
proof
  show "0 < cl_RetryInterval eff"
    using assms by (auto simp: run_client_def client_defaults_def Let_def second_def split: sum.splits if_splits)
  show "track (False, False) (worker_loop eff kind ws) = Some (False, False) \<and>
    slept (worker_loop eff kind ws) =
      (int (dials (worker_loop eff kind ws)) - int (tcp_relays (worker_loop eff kind ws))) * cl_RetryInterval eff"
  proof (induction ws)
    case (Cons w ws)
    have app: "dials (as @ bs) = dials as + dials bs" "tcp_relays (as @ bs) = tcp_relays as + tcp_relays bs" "dials [] = 0" "tcp_relays [] = 0" for as bs
      by (simp_all add: dials_def tcp_relays_def)
    have "tcp_relays (worker_actions eff kind w) = 0 \<or> tcp_relays (worker_actions eff kind w) = 1"
      using worker_actions_ok(4) [of eff kind w] by linarith
    with Cons show ?case
      by (auto simp: track_append worker_actions_ok(1,2,3) app algebra_simps)
  qed (simp add: dials_def tcp_relays_def)
qed

text \<open>The session loop sleeps between any two dials.\<close>

theorem mux_session_loop_paced:
  assumes "0 \<le> cl_RetryInterval opts"
  shows "track (False, False) (mux_session_loop opts rs) = Some (False, False) \<and>
    (int (dials (mux_session_loop opts rs)) - 1) * cl_RetryInterval opts \<le> slept (mux_session_loop opts rs)"
  using assms by (induction rs) (auto simp: dials_def track_append algebra_simps)

text \<open>A failed dial, a TCP relay and a UDP relay.\<close>

definition example_rounds :: "worker_input_round list" where
  "example_rounds =
     map (\<lambda>d. \<lparr>wr_ctx_done = False, wr_start = 0, wr_dial = d, wr_target_ok = True\<rparr>)
       [Err EOF, Ok [(5, target_line False ''h:80'')], Ok [(5, target_line True ''h:53'')]]"

theorem worker_loop_paced_witness:
  "let as = worker_loop (client_defaults example_client) (plain_kind\<lparr>tk_ws := True\<rparr>) example_rounds
   in track (False, False) as = Some (False, False) \<and>
     slept as = (int (dials as) - int (tcp_relays as)) * (3 * second)"
proof -
  have "cl_RetryInterval (client_defaults example_client) = 3 * second"
    by (simp add: client_defaults_def example_client_def)
  with worker_loop_paced [OF example_client_run, of example_rounds] show ?thesis
    unfolding Let_def by simp
qed

end
