(* ===== verification/Orig_Monitor.thy ===== *)
theory Orig_Monitor
  imports Orig_Server
begin

text \<open>
  \<open>monitorControl\<close> of \<open>internal/tunnel/original_protocol.go\<close> (lines 232 to 294): the goroutine that
  keeps the control channel alive, and the reader goroutine that feeds it signals. Time is a
  clock in nanoseconds that only the event \<open>Mon_Elapse\<close> moves; the ticker and the timer are the
  moments at which they fire next. The stop-drain-reset of the timer leaves exactly the new moment.
\<close>

record monitor =
  mon_conn :: net_conn
  mon_signals :: "byte chan"
  mon_reader_done :: bool
  mon_ctx_done :: bool
  mon_heartbeat :: int
  mon_timeout :: int
  mon_now :: int
  mon_tick_at :: int
  mon_timer_at :: int
  mon_stopped :: bool

definition monitor_start :: "int \<Rightarrow> int \<Rightarrow> int \<Rightarrow> net_conn \<Rightarrow> monitor" where
  "monitor_start heartbeatInterval heartbeatTimeout now conn =
     (let heartbeat = if heartbeatInterval \<le> 0 then 10 * 1000000000 else heartbeatInterval;
          timeout = if heartbeatTimeout \<le> 0 then 25 * 1000000000 else heartbeatTimeout;
          (_, conn') = write_original_signal conn_write conn original_signal_rtt
      in \<lparr>mon_conn = conn', mon_signals = make_chan 16, mon_reader_done = False,
          mon_ctx_done = False, mon_heartbeat = heartbeat, mon_timeout = timeout, mon_now = now,
          mon_tick_at = now + heartbeat, mon_timer_at = now + timeout, mon_stopped = False\<rparr>)"

text \<open>The events: the reader goroutine reads one signal (or meets an error, or gives up because the
  context is done), the cases of the monitor's \<open>select\<close>, the passing of time and the cancelling of
  the context.\<close>

datatype mon_event =
    Mon_Read
  | Mon_Read_Cancelled
  | Mon_Ctx_Done
  | Mon_Done
  | Mon_Tick
  | Mon_Signal byte
  | Mon_Timer
  | Mon_Elapse int
  | Mon_Cancel

text \<open>One event; \<open>None\<close> if it cannot happen now.\<close>

definition monitor_step :: "mon_event \<Rightarrow> monitor \<Rightarrow> monitor option" where
  "monitor_step ev m =
     (case ev of
        Mon_Read \<Rightarrow>
          (if mon_reader_done m then None
           else (case read_original_signal (conn_input (mon_conn m)) of
                   Inl e \<Rightarrow> Some (m\<lparr>mon_reader_done := True\<rparr>)
                 | Inr (signal, rest) \<Rightarrow>
                     (case try_send (mon_signals m) signal of
                        Sent q \<Rightarrow>
                          Some (m\<lparr>mon_signals := q, mon_conn := (mon_conn m)\<lparr>rx := rest\<rparr>\<rparr>)
                      | _ \<Rightarrow> None)))
      | Mon_Read_Cancelled \<Rightarrow>
          (if mon_ctx_done m \<and> \<not> mon_reader_done m then Some (m\<lparr>mon_reader_done := True\<rparr>) else None)
      | Mon_Ctx_Done \<Rightarrow>
          (if mon_ctx_done m \<and> \<not> mon_stopped m
           then (case write_original_signal conn_write (mon_conn m) original_signal_closed of
                   (_, cn) \<Rightarrow> Some (m\<lparr>mon_conn := cn, mon_stopped := True\<rparr>))
           else None)
      | Mon_Done \<Rightarrow>
          (if mon_reader_done m \<and> \<not> mon_stopped m then Some (m\<lparr>mon_stopped := True\<rparr>) else None)
      | Mon_Tick \<Rightarrow>
          (if mon_tick_at m \<le> mon_now m \<and> \<not> mon_stopped m
           then (case write_original_signal conn_write (mon_conn m) original_signal_heartbeat of
                   (Some e, cn) \<Rightarrow> Some (m\<lparr>mon_conn := cn, mon_stopped := True\<rparr>)
                 | (None, cn) \<Rightarrow>
                     Some (m\<lparr>mon_conn := cn, mon_tick_at := mon_tick_at m + mon_heartbeat m\<rparr>))
           else None)
      | Mon_Signal signal \<Rightarrow>
          (if mon_stopped m then None
           else (case try_recv (mon_signals m) of
                   Received b q \<Rightarrow>
                     if b \<noteq> signal then None
                     else if signal = original_signal_closed
                     then Some (m\<lparr>mon_signals := q, mon_stopped := True\<rparr>)
                     else if signal = original_signal_heartbeat
                     then Some (m\<lparr>mon_signals := q, mon_timer_at := mon_now m + mon_timeout m\<rparr>)
                     else Some (m\<lparr>mon_signals := q\<rparr>)
                 | _ \<Rightarrow> None))
      | Mon_Timer \<Rightarrow>
          (if mon_timer_at m \<le> mon_now m \<and> \<not> mon_stopped m
           then Some (m\<lparr>mon_stopped := True\<rparr>) else None)
      | Mon_Elapse d \<Rightarrow> (if 0 \<le> d then Some (m\<lparr>mon_now := mon_now m + d\<rparr>) else None)
      | Mon_Cancel \<Rightarrow> Some (m\<lparr>mon_ctx_done := True\<rparr>))"

fun monitor_run :: "mon_event list \<Rightarrow> monitor \<Rightarrow> monitor option" where
  "monitor_run [] m = Some m"
| "monitor_run (ev # evs) m =
     (case monitor_step ev m of None \<Rightarrow> None | Some m' \<Rightarrow> monitor_run evs m')"

section \<open>The timer\<close>

text \<open>Time that has passed since the last heartbeat signal was taken from the queue; \<open>t\<close> is what had
  passed before.\<close>

fun silence :: "int \<Rightarrow> mon_event list \<Rightarrow> int" where
  "silence t [] = t"
| "silence t (Mon_Elapse d # evs) = silence (t + d) evs"
| "silence t (Mon_Signal signal # evs) =
     silence (if signal = original_signal_heartbeat then 0 else t) evs"
| "silence t (ev # evs) = silence t evs"

fun elapsed :: "mon_event list \<Rightarrow> int" where
  "elapsed [] = 0"
| "elapsed (Mon_Elapse d # evs) = d + elapsed evs"
| "elapsed (ev # evs) = elapsed evs"

lemma monitor_step_timer:
  assumes "monitor_step ev m = Some m'" "mon_timer_at m - mon_now m = mon_timeout m - t"
  shows "mon_timer_at m' - mon_now m' = mon_timeout m' - silence t [ev] \<and>
    mon_timeout m' = mon_timeout m"
proof (cases ev)
  case (Mon_Signal signal)
  have "original_signal_closed \<noteq> original_signal_heartbeat" by (simp add: signal_defs)
  with Mon_Signal assms show ?thesis
    by (auto simp: monitor_step_def split: if_splits recv_result.splits)
qed (use assms in \<open>auto simp: monitor_step_def split: if_splits sum.splits send_result.splits
    prod.splits option.splits\<close>)

lemma silence_Cons: "silence t (ev # evs) = silence (silence t [ev]) evs"
  by (cases ev) auto

lemma monitor_run_timer:
  "monitor_run evs m = Some m' \<Longrightarrow> mon_timer_at m - mon_now m = mon_timeout m - t \<Longrightarrow>
     mon_timer_at m' - mon_now m' = mon_timeout m - silence t evs \<and> mon_timeout m' = mon_timeout m"
proof (induction evs arbitrary: m t)
  case (Cons ev evs)
  then obtain m1 where s: "monitor_step ev m = Some m1" "monitor_run evs m1 = Some m'"
    by (auto split: option.splits)
  from monitor_step_timer [OF s(1) Cons.prems(2)] Cons.IH [OF s(2), of "silence t [ev]"]
  show ?case using silence_Cons [of t ev evs] by simp
qed simp

lemma monitor_start_timer:
  "mon_timer_at (monitor_start h t now cn) - mon_now (monitor_start h t now cn) =
     mon_timeout (monitor_start h t now cn)"
  by (simp add: monitor_start_def Let_def split: prod.splits)

text \<open>C34. The monitor gives up for silence exactly when it should: in any history of ticks, signals and
  elapsed time, its timer can fire only once no heartbeat has been taken from the queue for the
  whole timeout, and it can fire as soon as that is so and the monitor still runs.\<close>

theorem monitor_timer_exact:
  assumes "monitor_run evs (monitor_start h t now cn) = Some m"
  shows "(\<exists>m'. monitor_step Mon_Timer m = Some m') \<longleftrightarrow>
    silence 0 evs \<ge> (if t \<le> 0 then 25 * 1000000000 else t) \<and> \<not> mon_stopped m"
proof -
  have "mon_timer_at (monitor_start h t now cn) - mon_now (monitor_start h t now cn) =
      mon_timeout (monitor_start h t now cn) - 0" using monitor_start_timer by simp
  from monitor_run_timer [OF assms this]
  have "mon_timer_at m \<le> mon_now m \<longleftrightarrow> mon_timeout (monitor_start h t now cn) \<le> silence 0 evs" by linarith
  moreover have "mon_timeout (monitor_start h t now cn) = (if t \<le> 0 then 25 * 1000000000 else t)"
    by (simp add: monitor_start_def Let_def split: prod.splits)
  ultimately show ?thesis by (simp add: monitor_step_def)
qed

theorem monitor_timer_exact_witness:
  "(case monitor_run [Mon_Elapse 20, Mon_Read, Mon_Signal 1, Mon_Elapse 24]
      (monitor_start 10 25 0 (new_conn [1])) of
      Some m \<Rightarrow> \<not> (\<exists>m'. monitor_step Mon_Timer m = Some m') | None \<Rightarrow> False)"
proof -
  let ?r = "monitor_run [Mon_Elapse 20, Mon_Read, Mon_Signal 1, Mon_Elapse 24]
      (monitor_start 10 25 0 (new_conn [1]))"
  have "?r \<noteq> None" by code_simp
  then obtain m where m: "?r = Some m" by blast
  from monitor_timer_exact [OF m] show ?thesis
    unfolding m by (simp add: original_signal_heartbeat_def)
qed

lemma monitor_step_fields:
  assumes "monitor_step ev m = Some m'" "ev \<noteq> Mon_Tick"
  shows "mon_tick_at m' = mon_tick_at m \<and> mon_heartbeat m' = mon_heartbeat m"
  using assms by (cases ev)
    (auto simp: monitor_step_def split: if_splits sum.splits send_result.splits recv_result.splits
      prod.splits option.splits)

lemma monitor_step_now:
  "monitor_step ev m = Some m' \<Longrightarrow> mon_now m' = mon_now m + elapsed [ev]"
  by (cases ev)
    (auto simp: monitor_step_def split: if_splits sum.splits send_result.splits recv_result.splits
      prod.splits option.splits)

lemma elapsed_Cons: "elapsed (ev # evs) = elapsed [ev] + elapsed evs"
  by (cases ev) auto

lemma monitor_run_tick:
  "monitor_run evs m = Some m' \<Longrightarrow> Mon_Tick \<notin> set evs \<Longrightarrow>
     mon_tick_at m' = mon_tick_at m \<and> mon_now m' = mon_now m + elapsed evs"
proof (induction evs arbitrary: m)
  case (Cons ev evs)
  then obtain m1 where s: "monitor_step ev m = Some m1" "monitor_run evs m1 = Some m'"
    by (auto split: option.splits)
  from Cons.IH [OF s(2)] Cons.prems monitor_step_fields [OF s(1)] monitor_step_now [OF s(1)]
    elapsed_Cons [of ev evs] show ?case by auto
qed simp

lemma silence_no_heartbeat:
  "Mon_Signal original_signal_heartbeat \<notin> set evs \<Longrightarrow> silence t evs = t + elapsed evs"
proof (induction evs arbitrary: t)
  case (Cons ev evs)
  then show ?case by (cases ev) auto
qed simp

text \<open>The heartbeat interval must be shorter than the timeout, and nothing checks it: the client
  sends a heartbeat only as the echo of one it receives, so with an interval above the timeout the
  timer of every control channel fires before the first heartbeat is even sent, however healthy
  the client is.\<close>

theorem slow_heartbeat_disconnects:
  assumes "0 < t" "t < h" "monitor_run evs (monitor_start h t now cn) = Some m"
    and "Mon_Tick \<notin> set evs" "Mon_Signal original_signal_heartbeat \<notin> set evs"
    and "t \<le> elapsed evs" "elapsed evs < h" "\<not> mon_stopped m"
  shows "(\<exists>m'. monitor_step Mon_Timer m = Some m' \<and> mon_stopped m') \<and> monitor_step Mon_Tick m = None"
proof
  have s: "silence 0 evs = elapsed evs" using silence_no_heartbeat [OF assms(5), of 0] by simp
  have "mon_timer_at (monitor_start h t now cn) - mon_now (monitor_start h t now cn) =
      mon_timeout (monitor_start h t now cn) - 0" using monitor_start_timer by simp
  from monitor_run_timer [OF assms(3) this] s assms(1,6)
  have "mon_timer_at m \<le> mon_now m"
    by (simp add: monitor_start_def Let_def split: prod.splits)
  then show "\<exists>m'. monitor_step Mon_Timer m = Some m' \<and> mon_stopped m'"
    using assms(8) by (simp add: monitor_step_def)
  have "mon_tick_at m = now + h \<and> mon_now m = now + elapsed evs"
    using monitor_run_tick [OF assms(3,4)] assms(1,2)
    by (simp add: monitor_start_def Let_def split: prod.splits)
  then show "monitor_step Mon_Tick m = None" using assms(7) by (simp add: monitor_step_def)
qed

theorem slow_heartbeat_disconnects_witness:
  "(case monitor_run [Mon_Elapse 12, Mon_Elapse 14] (monitor_start 30 25 0 (new_conn [5])) of
      Some m \<Rightarrow> (\<exists>m'. monitor_step Mon_Timer m = Some m' \<and> mon_stopped m') \<and>
        monitor_step Mon_Tick m = None
    | None \<Rightarrow> False)"
proof -
  let ?r = "monitor_run [Mon_Elapse 12, Mon_Elapse 14] (monitor_start 30 25 0 (new_conn [5]))"
  have "map_option mon_stopped ?r = Some False" by code_simp
  then obtain m where m: "?r = Some m" "\<not> mon_stopped m" by (cases ?r) auto
  from slow_heartbeat_disconnects [OF _ _ m(1) _ _ _ _ m(2)] show ?thesis unfolding m(1) by simp
qed

end
