(* ===== verification/Framing.thy ===== *)
theory Framing
  imports Go_Chan
begin

text \<open>
  The contract shared by the connections that carry a byte stream in frames (the WebSocket, the
  slipstream and the gRPC connection): a decoder takes one frame from the input and may change the
  receiver's state; \<open>Read\<close> serves what is buffered and, when nothing is, decodes frames until
  something is. The receiver is a triple: its own state, its buffer, the bytes that still arrive.
\<close>

type_synonym 'k receiver = "'k \<times> bytes \<times> bytes"

text \<open>Reads in a row, stopping at the first error: what they return together. And writes in a row, which
  fail with the first that fails.\<close>

fun conn_reads ::
  "(nat \<Rightarrow> 's \<Rightarrow> (io_error, bytes) result \<times> 's) \<Rightarrow> nat list \<Rightarrow> 's \<Rightarrow> bytes \<times> 's" where
  "conn_reads rd [] s = ([], s)"
| "conn_reads rd (n # ns) s =
     (case rd n s of
        (Inl e, s') \<Rightarrow> ([], s')
      | (Inr b, s') \<Rightarrow> (case conn_reads rd ns s' of (bs, s'') \<Rightarrow> (b @ bs, s'')))"

fun conn_writes ::
  "(bytes \<Rightarrow> 's \<Rightarrow> (nat \<times> io_error option) \<times> 's) \<Rightarrow> bytes list \<Rightarrow> 's \<Rightarrow> 's option" where
  "conn_writes wr [] s = Some s"
| "conn_writes wr (p # ps) s =
     (case wr p s of
        ((_, None), s') \<Rightarrow> conn_writes wr ps s'
      | ((_, Some _), _) \<Rightarrow> None)"

text \<open>Reads of a connection that are reads of its receiver.\<close>

lemma conn_reads_sim:
  assumes sim: "\<And>n s. ok s \<Longrightarrow> fst (rd1 n s) = fst (rd2 n (f s)) \<and>
      f (snd (rd1 n s)) = snd (rd2 n (f s)) \<and> ok (snd (rd1 n s))"
    and "ok s"
  shows "fst (conn_reads rd1 ns s) = fst (conn_reads rd2 ns (f s)) \<and>
    f (snd (conn_reads rd1 ns s)) = snd (conn_reads rd2 ns (f s))"
  using assms(2)
proof (induction ns arbitrary: s)
  case (Cons n ns)
  obtain r1 s1 where 1: "rd1 n s = (r1, s1)" by (cases "rd1 n s")
  obtain r2 s2 where 2: "rd2 n (f s) = (r2, s2)" by (cases "rd2 n (f s)")
  from sim [OF Cons.prems, of n] 1 2 have "r2 = r1" "s2 = f s1" "ok s1" by simp_all
  with Cons.IH [of s1] 1 2 show ?case by (cases r1) (auto split: prod.splits)
qed simp

locale framing =
  fixes encodes :: "'k \<Rightarrow> 'f \<Rightarrow> bytes \<Rightarrow> bool"
    and data :: "'f \<Rightarrow> bytes"
    and advance :: "'k \<Rightarrow> 'f \<Rightarrow> 'k"
    and dec :: "'k \<Rightarrow> bytes \<Rightarrow> (io_error, bytes \<times> 'k \<times> bytes) result"
    and rd :: "nat \<Rightarrow> 'k receiver \<Rightarrow> (io_error, bytes) result \<times> 'k receiver"
  assumes dec_encodes: "encodes k f b \<Longrightarrow> dec k (b @ rest) = Ok (data f, advance k f, rest)"
    and read_buffered: "buf \<noteq> [] \<Longrightarrow> rd n (k, buf, inp) = (Ok (take n buf), (k, drop n buf, inp))"
    and read_fill: "dec k inp = Ok (p, k', inp') \<Longrightarrow> rd n (k, [], inp) = rd n (k', p, inp')"
    and read_error: "dec k inp = Err e \<Longrightarrow> fst (rd n (k, [], inp)) = Err e"
begin

text \<open>Bytes that are the encodings of a list of frames, one after another.\<close>

inductive encodes_all :: "'k \<Rightarrow> 'f list \<Rightarrow> bytes \<Rightarrow> bool" where
  all_Nil: "encodes_all k [] []"
| all_Cons: "encodes k f b \<Longrightarrow> encodes_all (advance k f) fs bs \<Longrightarrow> encodes_all k (f # fs) (b @ bs)"

definition content :: "'f list \<Rightarrow> bytes" where
  "content fs = concat (map data fs)"

lemma content_simps [simp]: "content [] = []" "content (f # fs) = data f @ content fs"
  by (simp_all add: content_def)

lemma encodes_all_append:
  "encodes_all k fs bs \<Longrightarrow> encodes_all (foldl advance k fs) gs cs \<Longrightarrow>
     encodes_all k (fs @ gs) (bs @ cs)"
  by (induction rule: encodes_all.induct) (auto intro: encodes_all.intros)

text \<open>One read that has something to deliver: it delivers a nonempty part of it and leaves a receiver
  that still has the rest.\<close>

lemma read_delivers:
  assumes "encodes_all k fs bs" "buf @ content fs \<noteq> []" "0 < n"
  shows "\<exists>b k' buf' fs' bs'. rd n (k, buf, bs @ rest) = (Ok b, (k', buf', bs' @ rest)) \<and>
    b \<noteq> [] \<and> length b \<le> n \<and> encodes_all k' fs' bs' \<and> b @ buf' @ content fs' = buf @ content fs \<and>
    foldl advance k' fs' = foldl advance k fs \<and> suffix fs' fs"
  using assms
proof (induction arbitrary: buf rule: encodes_all.induct)
  case (all_Nil k)
  then have "rd n (k, buf, rest) = (Ok (take n buf), (k, drop n buf, rest))"
    by (simp add: read_buffered)
  with all_Nil show ?case by (intro exI) (auto intro: encodes_all.all_Nil)
next
  case (all_Cons k f b fs bs)
  show ?case
  proof (cases "buf = []")
    case True
    have "rd n (k, [], (b @ bs) @ rest) = rd n (advance k f, data f, bs @ rest)"
      using dec_encodes [OF all_Cons.hyps(1), of "bs @ rest"] by (intro read_fill) simp
    with all_Cons.IH [of "data f"] all_Cons.prems True show ?thesis
      by simp (metis suffix_ConsI)
  next
    case False
    then have "rd n (k, buf, (b @ bs) @ rest) = (Ok (take n buf), (k, drop n buf, (b @ bs) @ rest))"
      by (rule read_buffered)
    moreover have "encodes_all k (f # fs) (b @ bs)"
      using all_Cons.hyps by (rule encodes_all.all_Cons)
    ultimately show ?thesis using False all_Cons.prems by fastforce
  qed
qed

text \<open>However the reader cuts its reads, as long as it does not ask for more than there is: it gets
  a prefix of what the frames carry, at least a byte per read, and the receiver keeps the rest.\<close>

lemma reads_deliver:
  assumes "encodes_all k fs bs" "list_all (\<lambda>n. 0 < n) ns" "sum_list ns \<le> length (buf @ content fs)"
  shows "\<exists>got k' buf' fs' bs'. conn_reads rd ns (k, buf, bs @ rest) = (got, (k', buf', bs' @ rest)) \<and>
    encodes_all k' fs' bs' \<and> got @ buf' @ content fs' = buf @ content fs \<and>
    length ns \<le> length got \<and> foldl advance k' fs' = foldl advance k fs \<and> suffix fs' fs"
  using assms
proof (induction ns arbitrary: k buf fs bs)
  case Nil
  then show ?case by auto
next
  case (Cons n ns)
  then have "0 < n" "buf @ content fs \<noteq> []" by auto
  from read_delivers [OF Cons.prems(1) this(2,1), of rest]
  obtain b k1 buf1 fs1 bs1 where r: "rd n (k, buf, bs @ rest) = (Ok b, (k1, buf1, bs1 @ rest))"
    "b \<noteq> []" "length b \<le> n" "encodes_all k1 fs1 bs1" "b @ buf1 @ content fs1 = buf @ content fs"
    "foldl advance k1 fs1 = foldl advance k fs" "suffix fs1 fs" by blast
  from arg_cong [OF r(5), of length] r(3) Cons.prems(3)
  have "sum_list ns \<le> length (buf1 @ content fs1)" by simp
  from Cons.IH [OF r(4) _ this] Cons.prems(2) obtain got k' buf' fs' bs' where
    i: "conn_reads rd ns (k1, buf1, bs1 @ rest) = (got, (k', buf', bs' @ rest))"
    "encodes_all k' fs' bs'" "got @ buf' @ content fs' = buf1 @ content fs1"
    "length ns \<le> length got" "foldl advance k' fs' = foldl advance k1 fs1" "suffix fs' fs1" by auto
  have "Suc (length ns) \<le> length (b @ got)" using r(2) i(4) by (cases b) auto
  moreover have "suffix fs' fs" using r(7) i(6) by (rule suffix_order.trans [rotated])
  ultimately show ?case using r(1,5,6) i by (intro exI [of _ "b @ got"]) auto
qed

lemma reads_everything:
  assumes "encodes_all k fs bs"
  shows "\<exists>k' fs' bs'. conn_reads rd (replicate (length (content fs)) 1) (k, [], bs @ rest) =
      (content fs, (k', [], bs' @ rest)) \<and>
    content fs' = [] \<and> foldl advance k' fs' = foldl advance k fs \<and> suffix fs' fs"
proof -
  let ?ns = "replicate (length (content fs)) (1 :: nat)"
  have "sum_list ?ns \<le> length ([] @ content fs)" by (simp add: sum_list_replicate)
  from reads_deliver [OF assms _ this, of rest] obtain got k' buf' fs' bs' where r:
    "conn_reads rd ?ns (k, [], bs @ rest) = (got, (k', buf', bs' @ rest))"
    "got @ buf' @ content fs' = content fs" "length (content fs) \<le> length got"
    "foldl advance k' fs' = foldl advance k fs" "suffix fs' fs"
    by (auto simp: list_all_iff)
  from arg_cong [OF r(2), of length] r(3) have "length buf' = 0 \<and> length (content fs') = 0"
    unfolding length_append by linarith
  then have "buf' = [] \<and> content fs' = []" by simp
  with r show ?thesis by auto
qed

end

end
