(* ===== verification/Grpc_Conn.thy ===== *)
theory Grpc_Conn
  imports Framing
begin

text \<open>
  \<open>grpcNetConn\<close> of \<open>internal/tunnel/runner.go\<close>: a byte stream over the messages of a gRPC stream. The
  stream is a parameter of the type \<open>grpcStream\<close>: it is modelled by the messages it will still
  deliver before its error, the messages handed to it, and whether \<open>SendMsg\<close> fails.
\<close>

section \<open>The connection\<close>

record grpc_chunk =
  gc_Data :: bytes
  gc_EOF :: bool

record grpc_net_conn =
  gn_incoming :: "grpc_chunk list"
  gn_recv_error :: io_error
  gn_outgoing :: "grpc_chunk list"
  gn_send_error :: "io_error option"
  gn_rbuf :: bytes
  gn_closed :: bool
  gn_on_close :: "io_error option"

definition new_grpc_net_conn :: "grpc_chunk list \<Rightarrow> io_error \<Rightarrow> io_error option \<Rightarrow> grpc_net_conn" where
  "new_grpc_net_conn incoming recv_error on_close =
     \<lparr>gn_incoming = incoming, gn_recv_error = recv_error, gn_outgoing = [], gn_send_error = None,
      gn_rbuf = [], gn_closed = False, gn_on_close = on_close\<rparr>"

text \<open>The loop of \<open>Read\<close> over the messages: the result, the buffer and the messages that are left.\<close>

fun grpc_read_loop ::
  "io_error \<Rightarrow> nat \<Rightarrow> bytes \<Rightarrow> grpc_chunk list \<Rightarrow> (io_error, bytes) result \<times> bytes \<times> grpc_chunk list" where
  "grpc_read_loop err n (b # rbuf) msgs = (Ok (take n (b # rbuf)), drop n (b # rbuf), msgs)"
| "grpc_read_loop err n [] [] = (Err err, [], [])"
| "grpc_read_loop err n [] (chunk # msgs) =
     (if gc_EOF chunk then (Err EOF, [], msgs)
      else grpc_read_loop err n (gc_Data chunk) msgs)"

definition grpc_read :: "nat \<Rightarrow> grpc_net_conn \<Rightarrow> (io_error, bytes) result \<times> grpc_net_conn" where
  "grpc_read n c =
     (case grpc_read_loop (gn_recv_error c) n (gn_rbuf c) (gn_incoming c) of
        (res, rbuf, msgs) \<Rightarrow> (res, c\<lparr>gn_rbuf := rbuf, gn_incoming := msgs\<rparr>))"

definition send_msg :: "grpc_chunk \<Rightarrow> grpc_net_conn \<Rightarrow> io_error option \<times> grpc_net_conn" where
  "send_msg chunk c =
     (case gn_send_error c of
        Some e \<Rightarrow> (Some e, c)
      | None \<Rightarrow> (None, c\<lparr>gn_outgoing := gn_outgoing c @ [chunk]\<rparr>))"

definition grpc_write :: "bytes \<Rightarrow> grpc_net_conn \<Rightarrow> (nat \<times> io_error option) \<times> grpc_net_conn" where
  "grpc_write p c =
     (if gn_closed c then ((0, Some Net_Closed), c)
      else (case send_msg \<lparr>gc_Data = p, gc_EOF = False\<rparr> c of
              (Some e, c') \<Rightarrow> ((0, Some e), c')
            | (None, c') \<Rightarrow> ((length p, None), c')))"

text \<open>\<open>Close\<close> marks the connection, announces the end and returns what \<open>onClose\<close> returns.\<close>

definition grpc_close :: "grpc_net_conn \<Rightarrow> io_error option \<times> grpc_net_conn" where
  "grpc_close c =
     (if gn_closed c then (None, c)
      else (case send_msg \<lparr>gc_Data = [], gc_EOF = True\<rparr> (c\<lparr>gn_closed := True\<rparr>) of
              (_, c') \<Rightarrow> (gn_on_close c, c')))"

section \<open>The byte stream\<close>

definition messages_data :: "grpc_chunk list \<Rightarrow> bytes" where
  "messages_data msgs = concat (map gc_Data (takeWhile (\<lambda>m. \<not> gc_EOF m) msgs))"

definition grpc_view :: "grpc_net_conn \<Rightarrow> bytes" where
  "grpc_view c = gn_rbuf c @ messages_data (gn_incoming c)"

text \<open>A message of the peer arrives; a read that returns without data counts as one of no bytes.\<close>

definition grpc_put :: "grpc_net_conn \<Rightarrow> bytes \<Rightarrow> grpc_net_conn option" where
  "grpc_put c p =
     (if list_ex gc_EOF (gn_incoming c) then None
      else Some (c\<lparr>gn_incoming := gn_incoming c @ [\<lparr>gc_Data = p, gc_EOF = False\<rparr>]\<rparr>))"

definition grpc_get :: "nat \<Rightarrow> grpc_net_conn \<Rightarrow> bytes \<times> grpc_net_conn" where
  "grpc_get n c =
     (if grpc_view c = [] then ([], c)
      else (case grpc_read n c of (Inr b, c') \<Rightarrow> (b, c') | (Inl e, c') \<Rightarrow> ([], c')))"

lemma messages_data_simps [simp]:
  "messages_data [] = []"
  "messages_data (m # ms) = (if gc_EOF m then [] else gc_Data m @ messages_data ms)"
  by (simp_all add: messages_data_def)

lemma messages_data_append:
  "\<not> list_ex gc_EOF ms \<Longrightarrow> messages_data (ms @ ms') = messages_data ms @ messages_data ms'"
  by (induction ms) auto

lemma grpc_read_loop_delivers:
  "rbuf @ messages_data msgs \<noteq> [] \<Longrightarrow>
   \<exists>b rbuf' msgs'. grpc_read_loop err n rbuf msgs = (Ok b, rbuf', msgs') \<and>
     rbuf @ messages_data msgs = b @ rbuf' @ messages_data msgs' \<and> length b \<le> n \<and> (0 < n \<longrightarrow> b \<noteq> []) \<and>
     list_ex gc_EOF msgs' = list_ex gc_EOF msgs"
proof (induction err n rbuf msgs rule: grpc_read_loop.induct)
  case (3 err n chunk msgs)
  then have "\<not> gc_EOF chunk" by auto
  with 3 show ?case by auto
qed auto

lemma grpc_read_view:
  assumes "grpc_view c \<noteq> []"
  shows "\<exists>b c'. grpc_read n c = (Ok b, c') \<and> grpc_view c = b @ grpc_view c' \<and> length b \<le> n \<and>
    (0 < n \<longrightarrow> b \<noteq> []) \<and>
    list_ex gc_EOF (gn_incoming c') = list_ex gc_EOF (gn_incoming c)"
  using grpc_read_loop_delivers [of "gn_rbuf c" "gn_incoming c" "gn_recv_error c" n] assms
  by (auto simp: grpc_read_def grpc_view_def)

interpretation grpc: byte_stream grpc_view grpc_put "\<lambda>c. c" grpc_get "\<lambda>_. True"
proof
  fix s p s'
  show "grpc_put s p = Some s' \<Longrightarrow> grpc_view s' = grpc_view s @ p \<and> True"
    by (auto simp: grpc_put_def grpc_view_def messages_data_append split: if_splits)
next
  fix n s b s' assume g: "grpc_get n s = (b, s')"
  show "grpc_view s = b @ grpc_view s' \<and> length b \<le> n \<and> True"
  proof (cases "grpc_view s = []")
    case True
    with g show ?thesis by (auto simp: grpc_get_def)
  next
    case False
    from grpc_read_view [OF this, of n] obtain b' c' where
      "grpc_read n s = (Ok b', c')" "grpc_view s = b' @ grpc_view c'" "length b' \<le> n" by blast
    moreover from this g False have "b = b'" "s' = c'" by (auto simp: grpc_get_def)
    ultimately show ?thesis by simp
  qed
qed simp

section \<open>Writes, the end, and what the peer reads\<close>

text \<open>Calls of \<open>Write\<close> (a payload) and \<open>Close\<close> (\<open>None\<close>) in a row.\<close>

fun grpc_ops :: "bytes option list \<Rightarrow> grpc_net_conn \<Rightarrow> grpc_net_conn" where
  "grpc_ops [] c = c"
| "grpc_ops (Some p # ops) c = grpc_ops ops (snd (grpc_write p c))"
| "grpc_ops (None # ops) c = grpc_ops ops (snd (grpc_close c))"

definition written :: "bytes option list \<Rightarrow> bytes list" where
  "written ops = map the (takeWhile (\<lambda>p. p \<noteq> None) ops)"

lemma grpc_ops_closed: "gn_closed c \<Longrightarrow> grpc_ops ops c = c"
  by (induction ops c rule: grpc_ops.induct) (simp_all add: grpc_write_def grpc_close_def)

lemma grpc_ops_outgoing:
  assumes "\<not> gn_closed c" "gn_send_error c = None"
  shows "gn_outgoing (grpc_ops ops c) =
    gn_outgoing c @ map (\<lambda>p. \<lparr>gc_Data = p, gc_EOF = False\<rparr>) (written ops) @
    (if None \<in> set ops then [\<lparr>gc_Data = [], gc_EOF = True\<rparr>] else [])"
  using assms
  by (induction ops c rule: grpc_ops.induct)
    (auto simp: written_def grpc_write_def grpc_close_def send_msg_def grpc_ops_closed)

lemma arrived_gets [simp]: "arrived (map Get ns) = []"
  by (induction ns) simp_all

lemma grpc_gets_eof:
  "run_stream grpc_put (\<lambda>c. c) grpc_get (map Get ns) c = Some (bs, c') \<Longrightarrow>
   list_ex gc_EOF (gn_incoming c) \<Longrightarrow> list_ex gc_EOF (gn_incoming c')"
proof (induction ns arbitrary: c bs)
  case (Cons n ns)
  obtain b c1 where g: "grpc_get n c = (b, c1)" by (cases "grpc_get n c")
  have "list_ex gc_EOF (gn_incoming c1)"
  proof (cases "grpc_view c = []")
    case True
    with g Cons.prems(2) show ?thesis by (simp add: grpc_get_def)
  next
    case False
    from grpc_read_view [OF this, of n] obtain b' c2 where
      "grpc_read n c = (Ok b', c2)" "list_ex gc_EOF (gn_incoming c2) = list_ex gc_EOF (gn_incoming c)"
      by blast
    with g False Cons.prems(2) show ?thesis by (simp add: grpc_get_def)
  qed
  with Cons.IH [of c1] Cons.prems(1) g show ?case by (auto split: option.splits)
qed simp

lemma grpc_read_loop_eof:
  "messages_data msgs = [] \<Longrightarrow> list_ex gc_EOF msgs \<Longrightarrow> fst (grpc_read_loop err n [] msgs) = Err EOF"
  by (induction msgs) auto

text \<open>C21. A gRPC connection carries a byte stream: whatever one end writes before its first \<open>Close\<close>, in
  pieces of any size (empty ones included) and whatever it calls afterwards, is what the other end
  reads, with reads of any sizes, in order and without loss; when all of it is read, the next read
  reports the end of the stream.\<close>

theorem grpc_transfer:
  assumes "None \<in> set ops"
    and "run_stream grpc_put (\<lambda>c. c) grpc_get (map Get ns)
      (new_grpc_net_conn (gn_outgoing (grpc_ops ops (new_grpc_net_conn [] e1 oc1))) e2 oc2) = Some (got, peer)"
  shows "got @ grpc_view peer = concat (written ops) \<and>
    (grpc_view peer = [] \<longrightarrow> fst (grpc_read n peer) = Err EOF)"
proof -
  let ?peer = "new_grpc_net_conn (gn_outgoing (grpc_ops ops (new_grpc_net_conn [] e1 oc1))) e2 oc2"
  let ?out = "map (\<lambda>p. \<lparr>gc_Data = p, gc_EOF = False\<rparr>) (written ops) @ [\<lparr>gc_Data = [], gc_EOF = True\<rparr>]"
  have incoming: "gn_incoming ?peer = ?out" "gn_rbuf ?peer = []"
    using grpc_ops_outgoing [of "new_grpc_net_conn [] e1 oc1" ops] assms(1)
    by (simp_all add: new_grpc_net_conn_def)
  have "messages_data (map (\<lambda>p. \<lparr>gc_Data = p, gc_EOF = False\<rparr>) ps @ [\<lparr>gc_Data = [], gc_EOF = True\<rparr>]) = concat ps"
    for ps by (induction ps) simp_all
  with incoming have "grpc_view ?peer = concat (written ops)" by (simp add: grpc_view_def)
  with grpc.run_fifo [OF TrueI assms(2)] have "got @ grpc_view peer = concat (written ops)" by simp
  moreover have "list_ex gc_EOF (gn_incoming peer)"
    using grpc_gets_eof [OF assms(2)] incoming by simp
  then have "grpc_view peer = [] \<longrightarrow> fst (grpc_read n peer) = Err EOF"
    using grpc_read_loop_eof [of "gn_incoming peer" "gn_recv_error peer" n]
    by (auto simp: grpc_view_def grpc_read_def split: prod.splits)
  ultimately show ?thesis by blast
qed

theorem grpc_transfer_witness:
  "\<exists>peer. run_stream grpc_put (\<lambda>c. c) grpc_get (map Get [2, 5, 9])
      (new_grpc_net_conn (gn_outgoing (grpc_ops [Some [1, 2, 3], Some [], Some [4], None, Some [5]]
        (new_grpc_net_conn [] EOF None))) Net_Closed None) = Some ([1, 2, 3, 4], peer) \<and>
    fst (grpc_read 8 peer) = Err EOF"
proof -
  let ?ops = "[Some [1, 2, 3], Some [], Some [4], None, Some [5]] :: bytes option list"
  let ?in = "[\<lparr>gc_Data = [], gc_EOF = True\<rparr>]"
  define peer where "peer = (new_grpc_net_conn ?in Net_Closed None)"
  have r: "run_stream grpc_put (\<lambda>c. c) grpc_get (map Get [2, 5, 9])
      (new_grpc_net_conn (gn_outgoing (grpc_ops ?ops (new_grpc_net_conn [] EOF None))) Net_Closed None) =
      Some ([1, 2, 3, 4], peer)"
    unfolding peer_def by code_simp
  have "None \<in> set ?ops" by simp
  from grpc_transfer [OF this r, of 8] r show ?thesis
    by (auto simp: written_def)
qed

end
