(* ===== verification/Udp_Control.thy ===== *)
theory Udp_Control
  imports Framing
begin

text \<open>
  The UDP control listener of \<open>internal/tunnel/runner.go\<close> (\<open>udpControlListener\<close>,
  \<open>udpControlConn\<close>): datagrams are sorted by source address into connections with a queue each.
  The listener's mutex is part of the state, because \<open>Close\<close> holds it while it closes the
  connections. A packet the network delivers and the answers of \<open>select\<close> are parameters of the
  operations.
\<close>

section \<open>Connections\<close>

record udp_control_conn =
  uc_key :: string
  uc_incoming :: "bytes chan"
  uc_closed :: bool
  uc_rbuf :: bytes
  uc_removing :: bool

definition new_udp_control_conn :: "string \<Rightarrow> udp_control_conn" where
  "new_udp_control_conn key =
     \<lparr>uc_key = key, uc_incoming = make_chan 512, uc_closed = False, uc_rbuf = [], uc_removing = False\<rparr>"

text \<open>\<open>push\<close>: a \<open>select\<close> over the closed channel, the queue and \<open>default\<close>; \<open>choice\<close> decides when a
  closed connection's queue has room.\<close>

definition uc_push :: "bool \<Rightarrow> bytes \<Rightarrow> udp_control_conn \<Rightarrow> bool \<times> udp_control_conn" where
  "uc_push choice pkt c =
     (case try_send (uc_incoming c) pkt of
        Sent q \<Rightarrow>
          if uc_closed c \<and> choice then (False, c) else (True, c\<lparr>uc_incoming := q\<rparr>)
      | _ \<Rightarrow> (False, c))"

text \<open>\<open>Read\<close>: \<open>None\<close> while it waits; the list answers the \<open>select\<close> of each round when the connection
  is closed and has packets.\<close>

function uc_read ::
  "bool list \<Rightarrow> nat \<Rightarrow> udp_control_conn \<Rightarrow> ((io_error, bytes) result \<times> udp_control_conn) option" where
  "uc_read choices n c =
     (if uc_rbuf c \<noteq> [] then Some (Ok (take n (uc_rbuf c)), c\<lparr>uc_rbuf := drop n (uc_rbuf c)\<rparr>)
      else (case try_recv (uc_incoming c) of
              Received pkt q \<Rightarrow>
                if uc_closed c \<and> choices \<noteq> [] \<and> hd choices then Some (Err EOF, c)
                else uc_read (tl choices) n (c\<lparr>uc_rbuf := pkt, uc_incoming := q\<rparr>)
            | _ \<Rightarrow> if uc_closed c then Some (Err EOF, c) else None))"
  by pat_completeness auto
termination
  by (relation "measure (\<lambda>(_, _, c). length (queue (uc_incoming c)) + of_bool (uc_rbuf c = []))")
    (auto simp: try_recv_def split: list.splits if_splits)

declare uc_read.simps [simp del]

text \<open>\<open>Write\<close> sends one datagram to the remote address; the socket's answer is a parameter.\<close>

definition uc_write ::
  "(string \<Rightarrow> bytes \<Rightarrow> nat \<times> io_error option) \<Rightarrow> bytes \<Rightarrow> udp_control_conn \<Rightarrow> nat \<times> io_error option" where
  "uc_write write_to_udp p c =
     (if uc_closed c then (0, Some Net_Closed) else write_to_udp (uc_key c) p)"

section \<open>The byte stream of an open connection\<close>

definition uc_view :: "udp_control_conn \<Rightarrow> bytes" where
  "uc_view c = uc_rbuf c @ concat (queue (uc_incoming c))"

definition uc_put :: "udp_control_conn \<Rightarrow> bytes \<Rightarrow> udp_control_conn option" where
  "uc_put c p = (case uc_push True p c of (True, c') \<Rightarrow> Some c' | (False, _) \<Rightarrow> None)"

definition uc_get :: "nat \<Rightarrow> udp_control_conn \<Rightarrow> bytes \<times> udp_control_conn" where
  "uc_get n c = (case uc_read [] n c of Some (Inr b, c') \<Rightarrow> (b, c') | _ \<Rightarrow> ([], c))"

lemma uc_read_view:
  "uc_read choices n c = Some (Ok b, c') \<Longrightarrow>
   uc_view c = b @ uc_view c' \<and> length b \<le> n \<and> uc_closed c' = uc_closed c"
proof (induction choices n c rule: uc_read.induct)
  case (1 choices n c)
  show ?case
  proof (cases "uc_rbuf c = []")
    case False
    with "1.prems" show ?thesis by (subst (asm) uc_read.simps) (auto simp: uc_view_def)
  next
    case True
    then obtain pkt q where r: "try_recv (uc_incoming c) = Received pkt q"
      "\<not> (uc_closed c \<and> choices \<noteq> [] \<and> hd choices)"
      "uc_read (tl choices) n (c\<lparr>uc_rbuf := pkt, uc_incoming := q\<rparr>) = Some (Ok b, c')"
      using "1.prems" by (subst (asm) uc_read.simps) (auto split: recv_result.splits if_splits)
    then have "queue (uc_incoming c) = pkt # queue q"
      by (auto simp: try_recv_def split: list.splits if_splits)
    with "1.IH" True r show ?thesis by (simp add: uc_view_def)
  qed
qed

interpretation udp_conn: byte_stream uc_view uc_put "\<lambda>c. c" uc_get "\<lambda>_. True"
proof
  fix s p s'
  show "uc_put s p = Some s' \<Longrightarrow> uc_view s' = uc_view s @ p \<and> True"
    by (auto simp: uc_put_def uc_push_def uc_view_def try_send_conv
        split: send_result.splits if_splits prod.splits bool.splits)
next
  fix n s b s'
  show "uc_get n s = (b, s') \<Longrightarrow> uc_view s = b @ uc_view s' \<and> length b \<le> n \<and> True"
    by (auto simp: uc_get_def split: option.splits sum.splits dest: uc_read_view)
qed simp

section \<open>The listener\<close>

datatype closer =
    Closer_Idle
  | Closer_Lock
  | Closer_Closing "nat list"
  | Closer_Removing nat "nat list"
  | Closer_Done

record udp_control_listener =
  ul_list :: "udp_control_conn list"
  ul_conns :: "string \<rightharpoonup> nat"
  ul_accept :: "nat chan"
  ul_closed :: bool
  ul_locked :: bool
  ul_closer :: closer

definition listen_udp_control :: udp_control_listener where
  "listen_udp_control =
     \<lparr>ul_list = [], ul_conns = Map.empty, ul_accept = make_chan 256, ul_closed = False,
      ul_locked = False, ul_closer = Closer_Idle\<rparr>"

definition set_uc :: "nat \<Rightarrow> udp_control_conn \<Rightarrow> udp_control_listener \<Rightarrow> udp_control_listener" where
  "set_uc i c l = l\<lparr>ul_list := (ul_list l)[i := c]\<rparr>"

text \<open>\<open>closeLocal\<close> up to the removal, which needs the mutex, and the removal.\<close>

definition uc_close_begin :: "nat \<Rightarrow> udp_control_listener \<Rightarrow> udp_control_listener" where
  "uc_close_begin i l = set_uc i ((ul_list l ! i)\<lparr>uc_closed := True, uc_removing := True\<rparr>) l"

definition uc_close_end :: "nat \<Rightarrow> udp_control_listener \<Rightarrow> udp_control_listener" where
  "uc_close_end i l =
     (set_uc i ((ul_list l ! i)\<lparr>uc_removing := False\<rparr>) l)
       \<lparr>ul_conns := (ul_conns l)(uc_key (ul_list l ! i) := None)\<rparr>"

text \<open>The lookup of \<open>readLoop\<close>, under the mutex: the connection the packet goes to; a source that does
  not fit the accept queue is forgotten.\<close>

definition ul_lookup :: "string \<Rightarrow> udp_control_listener \<Rightarrow> nat option \<times> udp_control_listener" where
  "ul_lookup key l =
     (case ul_conns l key of
        Some i \<Rightarrow> (Some i, l)
      | None \<Rightarrow>
          (let i = length (ul_list l); c = new_udp_control_conn key in
           case try_send (ul_accept l) i of
             Sent q \<Rightarrow>
               (Some i, l\<lparr>ul_list := ul_list l @ [c], ul_conns := (ul_conns l)(key \<mapsto> i), ul_accept := q\<rparr>)
           | _ \<Rightarrow>
               (None, l\<lparr>ul_list := ul_list l @ [c\<lparr>uc_closed := True\<rparr>],
                  ul_conns := (ul_conns l)(key := None)\<rparr>)))"

text \<open>One round of \<open>readLoop\<close>: a packet its connection does not take closes the connection (the removal
  is the step after it).\<close>

definition ul_packet :: "bool \<Rightarrow> string \<Rightarrow> bytes \<Rightarrow> udp_control_listener \<Rightarrow> udp_control_listener" where
  "ul_packet choice key pkt l =
     (case ul_lookup key l of
        (None, l') \<Rightarrow> l'
      | (Some i, l') \<Rightarrow>
          (case uc_push choice pkt (ul_list l' ! i) of
             (True, c) \<Rightarrow> set_uc i c l'
           | (False, c) \<Rightarrow> if uc_closed c then l' else uc_close_begin i l'))"

text \<open>\<open>Close\<close>: its steps, \<open>None\<close> where it waits for the mutex. \<open>order\<close> is the order in which the
  iteration over the map visits the connections.\<close>

definition ul_close_step :: "nat list \<Rightarrow> udp_control_listener \<Rightarrow> udp_control_listener option" where
  "ul_close_step order l =
     (case ul_closer l of
        Closer_Idle \<Rightarrow> Some (l\<lparr>ul_closed := True, ul_closer := Closer_Lock\<rparr>)
      | Closer_Lock \<Rightarrow>
          (if ul_locked l then None else Some (l\<lparr>ul_locked := True, ul_closer := Closer_Closing order\<rparr>))
      | Closer_Closing [] \<Rightarrow>
          Some (l\<lparr>ul_conns := Map.empty, ul_locked := False, ul_closer := Closer_Done\<rparr>)
      | Closer_Closing (i # is) \<Rightarrow>
          (if uc_removing (ul_list l ! i) then None
           else if uc_closed (ul_list l ! i) then Some (l\<lparr>ul_closer := Closer_Closing is\<rparr>)
           else Some ((uc_close_begin i l)\<lparr>ul_closer := Closer_Removing i is\<rparr>))
      | Closer_Removing i is \<Rightarrow>
          (if ul_locked l then None else Some ((uc_close_end i l)\<lparr>ul_closer := Closer_Closing is\<rparr>))
      | Closer_Done \<Rightarrow> None)"

text \<open>The steps of the goroutines: \<open>readLoop\<close> (which a closed socket ends), closing and reading a
  connection, \<open>Accept\<close>, and \<open>Close\<close>. A removal may come any time after the close that asks for it.\<close>

inductive ul_step :: "udp_control_listener \<Rightarrow> udp_control_listener \<Rightarrow> bool" where
  Packet: "\<not> ul_locked l \<Longrightarrow> \<not> ul_closed l \<Longrightarrow> ul_step l (ul_packet choice key pkt l)"
| Conn_Close: "i < length (ul_list l) \<Longrightarrow> \<not> uc_closed (ul_list l ! i) \<Longrightarrow> ul_step l (uc_close_begin i l)"
| Conn_Removed: "i < length (ul_list l) \<Longrightarrow> uc_removing (ul_list l ! i) \<Longrightarrow> \<not> ul_locked l \<Longrightarrow>
    ul_step l (uc_close_end i l)"
| Conn_Read: "i < length (ul_list l) \<Longrightarrow> uc_read choices n (ul_list l ! i) = Some (r, c) \<Longrightarrow>
    ul_step l (set_uc i c l)"
| Accept: "try_recv (ul_accept l) = Received i q \<Longrightarrow> ul_step l (l\<lparr>ul_accept := q\<rparr>)"
| Close: "set order = ran (ul_conns l) \<Longrightarrow> ul_close_step order l = Some l' \<Longrightarrow> ul_step l l'"

inductive ul_run :: "udp_control_listener \<Rightarrow> udp_control_listener \<Rightarrow> bool" for l where
  Here: "ul_run l l"
| Step: "ul_run l t \<Longrightarrow> ul_step t u \<Longrightarrow> ul_run l u"

lemma set_uc_simps [simp]:
  "length (ul_list (set_uc i c l)) = length (ul_list l)"
  "ul_conns (set_uc i c l) = ul_conns l" "ul_accept (set_uc i c l) = ul_accept l"
  "ul_closed (set_uc i c l) = ul_closed l" "ul_locked (set_uc i c l) = ul_locked l"
  "ul_closer (set_uc i c l) = ul_closer l"
  "i < length (ul_list l) \<Longrightarrow> ul_list (set_uc i c l) ! j = (if i = j then c else ul_list l ! j)"
  by (simp_all add: set_uc_def nth_list_update)

lemma uc_close_begin_simps [simp]:
  "length (ul_list (uc_close_begin i l)) = length (ul_list l)"
  "ul_conns (uc_close_begin i l) = ul_conns l" "ul_accept (uc_close_begin i l) = ul_accept l"
  "ul_closed (uc_close_begin i l) = ul_closed l" "ul_locked (uc_close_begin i l) = ul_locked l"
  "ul_closer (uc_close_begin i l) = ul_closer l"
  "i < length (ul_list l) \<Longrightarrow> ul_list (uc_close_begin i l) ! j =
     (if i = j then (ul_list l ! i)\<lparr>uc_closed := True, uc_removing := True\<rparr> else ul_list l ! j)"
  by (simp_all add: uc_close_begin_def)

lemma uc_close_end_simps [simp]:
  "length (ul_list (uc_close_end i l)) = length (ul_list l)"
  "ul_conns (uc_close_end i l) = (ul_conns l)(uc_key (ul_list l ! i) := None)"
  "ul_accept (uc_close_end i l) = ul_accept l"
  "ul_closed (uc_close_end i l) = ul_closed l" "ul_locked (uc_close_end i l) = ul_locked l"
  "ul_closer (uc_close_end i l) = ul_closer l"
  by (simp_all add: uc_close_end_def)

lemma uc_close_end_nth [simp]:
  "i < length (ul_list l) \<Longrightarrow> ul_list (uc_close_end i l) ! j =
     (if i = j then (ul_list l ! i)\<lparr>uc_removing := False\<rparr> else ul_list l ! j)"
  by (simp add: uc_close_end_def set_uc_def nth_list_update)

section \<open>Closing the listener\<close>

lemma ul_packet_lock:
  "ul_locked (ul_packet ch key pkt l) = ul_locked l" "ul_closer (ul_packet ch key pkt l) = ul_closer l"
  by (auto simp: ul_packet_def ul_lookup_def Let_def split: prod.splits option.splits send_result.splits bool.splits)

text \<open>While \<open>Close\<close> waits to remove a connection it holds the mutex itself: no step of any goroutine
  changes that.\<close>

lemma deadlock_step:
  assumes "ul_step l l'" "ul_locked l" "ul_closer l = Closer_Removing i is"
  shows "ul_locked l' \<and> ul_closer l' = Closer_Removing i is"
  using assms by (induction rule: ul_step.induct) (auto simp: ul_close_step_def)

lemma deadlock_run:
  "ul_run l l' \<Longrightarrow> ul_locked l \<Longrightarrow> ul_closer l = Closer_Removing i is \<Longrightarrow>
   ul_locked l' \<and> ul_closer l' = Closer_Removing i is"
  by (induction rule: ul_run.induct) (auto dest: deadlock_step)

text \<open>C26. Closing the listener deadlocks as soon as it has an open connection: \<open>Close\<close> holds the mutex
  while it closes the connections and the removal of the first one waits for the same mutex, so
  from then on, whatever any goroutine does, the mutex stays locked and \<open>Close\<close> does not return.
  Without connections it returns.\<close>

theorem udp_listener_close_deadlocks:
  assumes "ul_closer l = Closer_Lock" "\<not> ul_locked l"
    and "i < length (ul_list l)" "\<not> uc_closed (ul_list l ! i)" "\<not> uc_removing (ul_list l ! i)"
  shows "(\<exists>l1 l2. ul_close_step (i # is) l = Some l1 \<and> ul_close_step (i # is) l1 = Some l2 \<and>
      (\<forall>l3. ul_run l2 l3 \<longrightarrow> ul_locked l3 \<and> (\<forall>order. ul_close_step order l3 = None))) \<and>
    (\<exists>l1 l2. ul_close_step [] l = Some l1 \<and> ul_close_step [] l1 = Some l2 \<and>
      ul_closer l2 = Closer_Done \<and> \<not> ul_locked l2)"
proof
  define l1 where "l1 = l\<lparr>ul_locked := True, ul_closer := Closer_Closing (i # is)\<rparr>"
  define l2 where "l2 = (uc_close_begin i l1)\<lparr>ul_closer := Closer_Removing i is\<rparr>"
  have 1: "ul_close_step (i # is) l = Some l1" using assms(1,2) by (simp add: ul_close_step_def l1_def)
  have 2: "ul_close_step (i # is) l1 = Some l2"
    using assms(4,5) by (simp add: ul_close_step_def l1_def l2_def)
  have "ul_locked l2" "ul_closer l2 = Closer_Removing i is" by (simp_all add: l2_def l1_def)
  with deadlock_run have "\<forall>l3. ul_run l2 l3 \<longrightarrow> ul_locked l3 \<and> ul_closer l3 = Closer_Removing i is"
    by blast
  then have "\<forall>l3. ul_run l2 l3 \<longrightarrow> ul_locked l3 \<and> (\<forall>order. ul_close_step order l3 = None)"
    by (auto simp: ul_close_step_def)
  with 1 2 show "\<exists>l1 l2. ul_close_step (i # is) l = Some l1 \<and> ul_close_step (i # is) l1 = Some l2 \<and>
      (\<forall>l3. ul_run l2 l3 \<longrightarrow> ul_locked l3 \<and> (\<forall>order. ul_close_step order l3 = None))" by blast
  show "\<exists>l1 l2. ul_close_step [] l = Some l1 \<and> ul_close_step [] l1 = Some l2 \<and>
      ul_closer l2 = Closer_Done \<and> \<not> ul_locked l2"
    using assms(1,2) by (simp add: ul_close_step_def)
qed

text \<open>A listener with one connection, from a first packet.\<close>

definition one_client :: udp_control_listener where
  "one_client = ul_packet False ''peer'' [1, 2] listen_udp_control"

lemma one_client_conn:
  "ul_list one_client = [(new_udp_control_conn ''peer'')
     \<lparr>uc_incoming := (make_chan 512)\<lparr>queue := [[1, 2]]\<rparr>\<rparr>]"
  by (simp add: one_client_def ul_packet_def ul_lookup_def listen_udp_control_def try_send_def
      make_chan_def new_udp_control_conn_def uc_push_def set_uc_def Let_def)

theorem udp_listener_close_deadlocks_witness:
  "let l = one_client\<lparr>ul_closed := True, ul_closer := Closer_Lock\<rparr> in
   \<exists>l1 l2. ul_close_step [0] l = Some l1 \<and> ul_close_step [0] l1 = Some l2 \<and>
     (\<forall>l3. ul_run l2 l3 \<longrightarrow> ul_locked l3 \<and> (\<forall>order. ul_close_step order l3 = None))"
proof -
  define l where "l = one_client\<lparr>ul_closed := True, ul_closer := Closer_Lock\<rparr>"
  have "ul_locked one_client = False"
    by (simp add: one_client_def ul_packet_lock listen_udp_control_def)
  then show ?thesis
    using udp_listener_close_deadlocks [of l 0 "[]"]
    unfolding l_def [symmetric] Let_def
    by (simp add: l_def one_client_conn new_udp_control_conn_def)
qed

section \<open>The table of connections\<close>

definition uc_ok :: "udp_control_conn \<Rightarrow> bool" where
  "uc_ok c \<longleftrightarrow> length (queue (uc_incoming c)) \<le> 512 \<and> capacity (uc_incoming c) = 512 \<and>
     (uc_removing c \<longrightarrow> uc_closed c)"

definition uc_alive :: "udp_control_conn \<Rightarrow> bool" where
  "uc_alive c \<longleftrightarrow> \<not> uc_closed c \<or> uc_removing c"

definition closer_list :: "closer \<Rightarrow> nat list" where
  "closer_list cl = (case cl of Closer_Closing is \<Rightarrow> is | Closer_Removing i is \<Rightarrow> i # is | _ \<Rightarrow> [])"

definition closer_holds :: "closer \<Rightarrow> bool" where
  "closer_holds cl = (case cl of Closer_Closing _ \<Rightarrow> True | Closer_Removing _ _ \<Rightarrow> True | _ \<Rightarrow> False)"

definition ul_ok :: "udp_control_listener \<Rightarrow> bool" where
  "ul_ok l \<longleftrightarrow>
     (\<forall>k i. ul_conns l k = Some i \<longrightarrow> i < length (ul_list l) \<and> uc_key (ul_list l ! i) = k) \<and>
     (\<forall>i < length (ul_list l). uc_ok (ul_list l ! i)) \<and>
     (\<forall>i < length (ul_list l). uc_alive (ul_list l ! i) \<longrightarrow> ul_closer l \<noteq> Closer_Done \<longrightarrow>
        ul_conns l (uc_key (ul_list l ! i)) = Some i) \<and>
     (ul_closer l \<noteq> Closer_Idle \<longrightarrow> ul_closed l) \<and>
     (\<forall>i \<in> set (closer_list (ul_closer l)). i < length (ul_list l)) \<and>
     length (queue (ul_accept l)) \<le> 256 \<and> capacity (ul_accept l) = 256 \<and>
     (closer_holds (ul_closer l) \<longrightarrow> ul_locked l)"

lemma ul_okD:
  assumes "ul_ok l"
  shows "ul_conns l k = Some i \<Longrightarrow> i < length (ul_list l)"
    and "ul_conns l k = Some i \<Longrightarrow> uc_key (ul_list l ! i) = k"
    and "i < length (ul_list l) \<Longrightarrow> uc_ok (ul_list l ! i)"
    and "i < length (ul_list l) \<Longrightarrow> uc_alive (ul_list l ! i) \<Longrightarrow> ul_closer l \<noteq> Closer_Done \<Longrightarrow>
      ul_conns l (uc_key (ul_list l ! i)) = Some i"
    and "ul_closer l \<noteq> Closer_Idle \<Longrightarrow> ul_closed l"
    and "i \<in> set (closer_list (ul_closer l)) \<Longrightarrow> i < length (ul_list l)"
    and "length (queue (ul_accept l)) \<le> 256" and "capacity (ul_accept l) = 256"
    and "closer_holds (ul_closer l) \<Longrightarrow> ul_locked l"
  using assms by (auto simp: ul_ok_def)

lemma ul_okI:
  assumes "\<And>k i. ul_conns l k = Some i \<Longrightarrow> i < length (ul_list l) \<and> uc_key (ul_list l ! i) = k"
    and "\<And>i. i < length (ul_list l) \<Longrightarrow> uc_ok (ul_list l ! i)"
    and "\<And>i. i < length (ul_list l) \<Longrightarrow> uc_alive (ul_list l ! i) \<Longrightarrow> ul_closer l \<noteq> Closer_Done \<Longrightarrow>
      ul_conns l (uc_key (ul_list l ! i)) = Some i"
    and "ul_closer l \<noteq> Closer_Idle \<Longrightarrow> ul_closed l"
    and "\<And>i. i \<in> set (closer_list (ul_closer l)) \<Longrightarrow> i < length (ul_list l)"
    and "length (queue (ul_accept l)) \<le> 256" "capacity (ul_accept l) = 256"
    and "closer_holds (ul_closer l) \<Longrightarrow> ul_locked l"
  shows "ul_ok l"
  using assms by (simp add: ul_ok_def)

lemma set_uc_ok:
  assumes "ul_ok l" "i < length (ul_list l)" "uc_ok c" "uc_key c = uc_key (ul_list l ! i)"
    and "uc_alive c \<Longrightarrow> uc_alive (ul_list l ! i)"
  shows "ul_ok (set_uc i c l)"
  using ul_okD [OF assms(1)] assms(2-5) by (intro ul_okI) (auto split: if_splits)

lemma uc_close_begin_ok:
  assumes "ul_ok l" "i < length (ul_list l)" "\<not> uc_closed (ul_list l ! i)"
  shows "ul_ok (uc_close_begin i l)"
  unfolding uc_close_begin_def
  using ul_okD(3) [OF assms(1,2)] assms by (intro set_uc_ok) (auto simp: uc_ok_def uc_alive_def)

lemma uc_close_end_ok:
  assumes "ul_ok l" "i < length (ul_list l)" "uc_removing (ul_list l ! i)"
  shows "ul_ok (uc_close_end i l)"
proof -
  note D = ul_okD [OF assms(1)]
  have i: "uc_closed (ul_list l ! i)" using D(3) [OF assms(2)] assms(3) by (simp add: uc_ok_def)
  show ?thesis
  proof (rule ul_okI)
    fix k j assume "ul_conns (uc_close_end i l) k = Some j"
    then have "ul_conns l k = Some j" by (auto split: if_splits)
    with D(1,2) assms(2) show "j < length (ul_list (uc_close_end i l)) \<and>
        uc_key (ul_list (uc_close_end i l) ! j) = k" by auto
  next
    fix j assume "j < length (ul_list (uc_close_end i l))"
    then show "uc_ok (ul_list (uc_close_end i l) ! j)"
      using D(3) assms(2) by (auto simp: uc_ok_def)
  next
    fix j assume j: "j < length (ul_list (uc_close_end i l))" "uc_alive (ul_list (uc_close_end i l) ! j)"
      "ul_closer (uc_close_end i l) \<noteq> Closer_Done"
    with assms(2) i have ne: "j \<noteq> i" by (auto simp: uc_alive_def)
    with j assms(2) have m: "ul_conns l (uc_key (ul_list l ! j)) = Some j" by (intro D(4)) auto
    have "ul_conns l (uc_key (ul_list l ! i)) = Some i"
      using assms j by (intro D(4)) (auto simp: uc_alive_def)
    with m ne have "uc_key (ul_list l ! j) \<noteq> uc_key (ul_list l ! i)" by auto
    with m ne assms(2) show "ul_conns (uc_close_end i l) (uc_key (ul_list (uc_close_end i l) ! j)) = Some j"
      by simp
  qed (use D in auto)
qed

lemma uc_push_fields:
  "uc_push ch pkt c = (r, c') \<Longrightarrow>
   uc_key c' = uc_key c \<and> uc_closed c' = uc_closed c \<and> uc_removing c' = uc_removing c \<and> (uc_ok c \<longrightarrow> uc_ok c')"
  by (auto simp: uc_push_def uc_ok_def try_send_conv split: send_result.splits if_splits)

lemma uc_read_fields:
  "uc_read choices n c = Some (r, c') \<Longrightarrow>
   uc_key c' = uc_key c \<and> uc_closed c' = uc_closed c \<and> uc_removing c' = uc_removing c \<and> (uc_ok c \<longrightarrow> uc_ok c')"
proof (induction choices n c rule: uc_read.induct)
  case (1 choices n c)
  show ?case
  proof (cases "uc_rbuf c \<noteq> [] \<or> (\<forall>pkt q. try_recv (uc_incoming c) \<noteq> Received pkt q) \<or>
      (uc_closed c \<and> choices \<noteq> [] \<and> hd choices)")
    case True
    with "1.prems" show ?thesis
      by (subst (asm) uc_read.simps) (auto split: if_splits recv_result.splits simp: uc_ok_def)
  next
    case False
    then obtain pkt q where r: "try_recv (uc_incoming c) = Received pkt q" by blast
    with "1.prems" False have "uc_read (tl choices) n (c\<lparr>uc_rbuf := pkt, uc_incoming := q\<rparr>) = Some (r, c')"
      by (subst (asm) uc_read.simps) (auto split: if_splits)
    with "1.IH" False r have
      "uc_key c' = uc_key c \<and> uc_closed c' = uc_closed c \<and> uc_removing c' = uc_removing c \<and>
       (uc_ok (c\<lparr>uc_rbuf := pkt, uc_incoming := q\<rparr>) \<longrightarrow> uc_ok c')" by auto
    moreover have "uc_ok c \<longrightarrow> uc_ok (c\<lparr>uc_rbuf := pkt, uc_incoming := q\<rparr>)"
      using r by (auto simp: uc_ok_def try_recv_def split: list.splits if_splits)
    ultimately show ?thesis by blast
  qed
qed

lemma ul_lookup_new:
  assumes "ul_conns l key = None" "try_send (ul_accept l) (length (ul_list l)) = Sent q"
  shows "ul_lookup key l = (Some (length (ul_list l)),
    l\<lparr>ul_list := ul_list l @ [new_udp_control_conn key],
      ul_conns := (ul_conns l)(key \<mapsto> length (ul_list l)), ul_accept := q\<rparr>)"
  using assms by (simp add: ul_lookup_def Let_def)

lemma ul_lookup_full:
  assumes "ul_conns l key = None" "\<And>q. try_send (ul_accept l) (length (ul_list l)) \<noteq> Sent q"
  shows "ul_lookup key l = (None,
    l\<lparr>ul_list := ul_list l @ [(new_udp_control_conn key)\<lparr>uc_closed := True\<rparr>]\<rparr>)"
proof -
  have "(ul_conns l)(key := None) = ul_conns l" using assms(1) by auto
  with assms show ?thesis by (simp add: ul_lookup_def Let_def split: send_result.splits)
qed

text \<open>Adding a connection to the list, under its key or (closed) under none.\<close>

lemma add_conn_ok:
  assumes "ul_ok l" "uc_ok c" "\<not> uc_alive c"
  shows "ul_ok (l\<lparr>ul_list := ul_list l @ [c]\<rparr>)"
proof -
  note D = ul_okD [OF assms(1)]
  show ?thesis
  proof (rule ul_okI)
    fix k i assume "ul_conns (l\<lparr>ul_list := ul_list l @ [c]\<rparr>) k = Some i"
    then have "ul_conns l k = Some i" by simp
    with D(1) [OF this] D(2) [OF this] show "i < length (ul_list (l\<lparr>ul_list := ul_list l @ [c]\<rparr>)) \<and>
        uc_key (ul_list (l\<lparr>ul_list := ul_list l @ [c]\<rparr>) ! i) = k" by (simp add: nth_append)
  next
    fix i assume "i < length (ul_list (l\<lparr>ul_list := ul_list l @ [c]\<rparr>))"
    with D(3) assms(2) show "uc_ok (ul_list (l\<lparr>ul_list := ul_list l @ [c]\<rparr>) ! i)"
      by (simp add: nth_append)
  next
    fix i assume i: "i < length (ul_list (l\<lparr>ul_list := ul_list l @ [c]\<rparr>))"
      "uc_alive (ul_list (l\<lparr>ul_list := ul_list l @ [c]\<rparr>) ! i)"
      "ul_closer (l\<lparr>ul_list := ul_list l @ [c]\<rparr>) \<noteq> Closer_Done"
    with assms(3) have "i < length (ul_list l)" by (cases "i = length (ul_list l)") auto
    with i D(4) [of i] show "ul_conns (l\<lparr>ul_list := ul_list l @ [c]\<rparr>)
        (uc_key (ul_list (l\<lparr>ul_list := ul_list l @ [c]\<rparr>) ! i)) = Some i" by (simp add: nth_append)
  next
    fix i assume "i \<in> set (closer_list (ul_closer (l\<lparr>ul_list := ul_list l @ [c]\<rparr>)))"
    then show "i < length (ul_list (l\<lparr>ul_list := ul_list l @ [c]\<rparr>))"
      using D(6) [of i] by simp
  qed (use D in simp_all)
qed

lemma new_conn_ok:
  assumes "ul_ok l" "ul_closer l \<noteq> Closer_Done" "uc_ok c" "uc_key c = key" "ul_conns l key = None"
    and "length (queue q) \<le> 256" "capacity q = 256"
  shows "ul_ok (l\<lparr>ul_list := ul_list l @ [c],
    ul_conns := (ul_conns l)(key \<mapsto> length (ul_list l)), ul_accept := q\<rparr>)" (is "ul_ok ?l")
proof -
  note D = ul_okD [OF assms(1)]
  have old: "ul_list ?l ! i = ul_list l ! i" if "i < length (ul_list l)" for i
    using that by (simp add: nth_append)
  have new: "ul_list ?l ! length (ul_list l) = c" by simp
  have cases: "i < length (ul_list l) \<or> i = length (ul_list l)" if "i < length (ul_list ?l)" for i
    using that by auto
  show ?thesis
  proof (rule ul_okI)
    fix k i assume "ul_conns ?l k = Some i"
    then have "k = key \<and> i = length (ul_list l) \<or> k \<noteq> key \<and> ul_conns l k = Some i"
      by (auto split: if_splits)
    then show "i < length (ul_list ?l) \<and> uc_key (ul_list ?l ! i) = k"
      using D(1,2) [of k i] assms(4) by (auto simp: nth_append)
  next
    fix i assume "i < length (ul_list ?l)"
    from cases [OF this] show "uc_ok (ul_list ?l ! i)"
      using D(3) [of i] old [of i] new assms(3) by (elim disjE) simp_all
  next
    fix i assume i: "i < length (ul_list ?l)" and al: "uc_alive (ul_list ?l ! i)"
    from cases [OF i] show "ul_conns ?l (uc_key (ul_list ?l ! i)) = Some i"
    proof
      assume less: "i < length (ul_list l)"
      then have m: "ul_conns l (uc_key (ul_list l ! i)) = Some i"
        using D(4) [of i] al old assms(2) by simp
      with assms(5) have "uc_key (ul_list l ! i) \<noteq> key" by auto
      with m old [OF less] show ?thesis by simp
    qed (use new assms(4) in simp)
  next
    fix i assume "i \<in> set (closer_list (ul_closer ?l))"
    then show "i < length (ul_list ?l)" using D(6) [of i] by simp
  qed (use D(5,9) assms(6,7) in simp_all)
qed

lemma ul_lookup_ok:
  assumes "ul_ok l" "ul_closer l \<noteq> Closer_Done" "ul_lookup key l = (r, l')"
  shows "ul_ok l' \<and> ul_closer l' = ul_closer l \<and> (\<forall>i. r = Some i \<longrightarrow> ul_conns l' key = Some i)"
proof -
  have new: "uc_ok (new_udp_control_conn key)" "uc_key (new_udp_control_conn key) = key"
    "uc_ok ((new_udp_control_conn key)\<lparr>uc_closed := True\<rparr>)"
    "\<not> uc_alive ((new_udp_control_conn key)\<lparr>uc_closed := True\<rparr>)"
    by (simp_all add: uc_ok_def uc_alive_def new_udp_control_conn_def)
  show ?thesis
  proof (cases "ul_conns l key")
    case (Some i)
    with assms show ?thesis by (auto simp: ul_lookup_def)
  next
    case None
    show ?thesis
    proof (cases "\<exists>q. try_send (ul_accept l) (length (ul_list l)) = Sent q")
      case True
      then obtain q where q: "try_send (ul_accept l) (length (ul_list l)) = Sent q" by blast
      then have "length (queue q) \<le> 256" "capacity q = 256"
        using ul_okD(7,8) [OF assms(1)] by (auto simp: try_send_conv)
      from new_conn_ok [OF assms(1,2) new(1,2) None this] ul_lookup_new [OF None q] assms(3)
      show ?thesis by auto
    next
      case False
      with add_conn_ok [OF assms(1) new(3,4)] ul_lookup_full [OF None] assms(3) show ?thesis by auto
    qed
  qed
qed

lemma ul_packet_ok:
  assumes "ul_ok l" "ul_closer l \<noteq> Closer_Done"
  shows "ul_ok (ul_packet ch key pkt l)"
proof -
  obtain r l' where lk: "ul_lookup key l = (r, l')" by (cases "ul_lookup key l")
  from ul_lookup_ok [OF assms lk] have l': "ul_ok l'" "\<And>i. r = Some i \<Longrightarrow> ul_conns l' key = Some i"
    by auto
  show ?thesis
  proof (cases r)
    case None
    with lk l' show ?thesis by (simp add: ul_packet_def)
  next
    case (Some i)
    have i: "i < length (ul_list l')" using ul_okD(1) [OF l'(1) l'(2) [OF Some]] .
    obtain ok c where p: "uc_push ch pkt (ul_list l' ! i) = (ok, c)"
      by (cases "uc_push ch pkt (ul_list l' ! i)")
    note F = uc_push_fields [OF p]
    have "ul_ok (set_uc i c l')"
      using l'(1) i F ul_okD(3) [OF l'(1) i] by (intro set_uc_ok) (auto simp: uc_alive_def)
    with lk p Some F l'(1) uc_close_begin_ok [OF l'(1) i] show ?thesis
      by (auto simp: ul_packet_def split: bool.splits)
  qed
qed

lemma ul_close_step_ok:
  assumes "ul_ok l" "set order = ran (ul_conns l)" "ul_close_step order l = Some l'"
  shows "ul_ok l'"
proof -
  note D = ul_okD [OF assms(1)]
  have order: "i < length (ul_list l)" if "i \<in> set order" for i
    using that assms(2) D(1) by (auto simp: ran_def)
  show ?thesis
  proof (cases "ul_closer l")
    case (Closer_Closing js)
    show ?thesis
    proof (cases js)
      case Nil
      with Closer_Closing assms(3) have "l' = l\<lparr>ul_conns := Map.empty, ul_locked := False, ul_closer := Closer_Done\<rparr>"
        by (simp add: ul_close_step_def)
      with D Closer_Closing show ?thesis by (auto intro!: ul_okI simp: closer_list_def closer_holds_def)
    next
      case (Cons i ks)
      have i: "i < length (ul_list l)" "\<And>j. j \<in> set ks \<Longrightarrow> j < length (ul_list l)"
        using D(6) Closer_Closing Cons by (auto simp: closer_list_def)
      have lk: "ul_locked l" using D(9) Closer_Closing by (simp add: closer_holds_def)
      have upd: "ul_ok (m\<lparr>ul_closer := cl\<rparr>)"
        if "ul_ok m" "ul_closer m = ul_closer l" "length (ul_list m) = length (ul_list l)"
          "cl \<noteq> Closer_Done" "ul_locked m" "\<forall>j \<in> set (closer_list cl). j < length (ul_list l)" for m cl
        using ul_okD [OF that(1)] that Closer_Closing D(9) by (intro ul_okI) (auto simp: closer_holds_def)
      show ?thesis
      proof (cases "uc_closed (ul_list l ! i)")
        case True
        with Closer_Closing Cons assms(3) have "l' = l\<lparr>ul_closer := Closer_Closing ks\<rparr>"
          by (auto simp: ul_close_step_def split: if_splits)
        with i lk upd [of l "Closer_Closing ks"] assms(1) show ?thesis by (simp add: closer_list_def)
      next
        case False
        with Closer_Closing Cons assms(3) have "l' = (uc_close_begin i l)\<lparr>ul_closer := Closer_Removing i ks\<rparr>"
          by (auto simp: ul_close_step_def split: if_splits)
        with i lk upd [of "uc_close_begin i l" "Closer_Removing i ks"] uc_close_begin_ok [OF assms(1) i(1) False]
        show ?thesis by (simp add: closer_list_def)
      qed
    qed
  next
    case (Closer_Removing i ks)
    with ul_okD(9) [OF assms(1)] assms(3) show ?thesis
      by (simp add: ul_close_step_def closer_holds_def)
  next
    case Closer_Lock
    with assms(3) have "l' = l\<lparr>ul_locked := True, ul_closer := Closer_Closing order\<rparr>"
      by (auto simp: ul_close_step_def split: if_splits)
    with D Closer_Lock order show ?thesis by (auto intro!: ul_okI simp: closer_list_def closer_holds_def)
  qed (use D assms(3) in \<open>auto simp: ul_close_step_def closer_list_def closer_holds_def intro!: ul_okI\<close>)
qed

lemma ul_accept_ok:
  assumes "ul_ok l" "try_recv (ul_accept l) = Received i q"
  shows "ul_ok (l\<lparr>ul_accept := q\<rparr>)"
  using ul_okD [OF assms(1)] assms(2)
  by (intro ul_okI) (auto simp: try_recv_def split: list.splits if_splits)

lemma ul_step_ok:
  assumes "ul_step l l'" "ul_ok l"
  shows "ul_ok l'"
  using assms(1)
proof cases
  case (Packet ch key pkt)
  have "ul_closer l \<noteq> Closer_Done" using ul_okD(5) [OF assms(2)] Packet by auto
  with ul_packet_ok [OF assms(2)] Packet show ?thesis by simp
next
  case (Conn_Close i)
  with uc_close_begin_ok [OF assms(2)] show ?thesis by simp
next
  case (Conn_Removed i)
  with uc_close_end_ok [OF assms(2)] show ?thesis by simp
next
  case (Conn_Read i choices n r c)
  from uc_read_fields [OF Conn_Read(3)] ul_okD(3) [OF assms(2) Conn_Read(2)] Conn_Read
  show ?thesis by (auto intro!: set_uc_ok [OF assms(2)] simp: uc_alive_def)
next
  case (Accept i q)
  with ul_accept_ok [OF assms(2)] show ?thesis by simp
next
  case (Close order)
  with ul_close_step_ok [OF assms(2)] show ?thesis by simp
qed

lemma listen_ok: "ul_ok listen_udp_control"
  by (rule ul_okI) (simp_all add: listen_udp_control_def closer_list_def closer_holds_def)

lemma ul_run_ok: "ul_run listen_udp_control l \<Longrightarrow> ul_ok l"
  by (induction rule: ul_run.induct) (auto intro: listen_ok ul_step_ok)

text \<open>C25. In every run of the listener, a source address has at most one connection that is open or being
  removed, and until the listener has been closed that is the one its packets go to; a queue of
  packets holds at most 512 of them, the accept queue at most 256 connections.\<close>

theorem udp_listener_table:
  assumes "ul_run listen_udp_control l"
  shows "(\<forall>key i. ul_conns l key = Some i \<longrightarrow> i < length (ul_list l) \<and> uc_key (ul_list l ! i) = key) \<and>
    (ul_closer l \<noteq> Closer_Done \<longrightarrow>
      (\<forall>i < length (ul_list l). \<not> uc_closed (ul_list l ! i) \<or> uc_removing (ul_list l ! i) \<longrightarrow>
         ul_conns l (uc_key (ul_list l ! i)) = Some i)) \<and>
    (\<forall>i < length (ul_list l). length (queue (uc_incoming (ul_list l ! i))) \<le> 512) \<and>
    length (queue (ul_accept l)) \<le> 256"
  using ul_okD [OF ul_run_ok [OF assms]] by (auto simp: uc_alive_def uc_ok_def)

lemma one_client_run: "ul_run listen_udp_control one_client"
proof -
  have "ul_step listen_udp_control one_client"
    unfolding one_client_def by (rule ul_step.Packet) (simp_all add: listen_udp_control_def)
  then show ?thesis by (auto intro: ul_run.intros)
qed

theorem udp_listener_table_witness:
  "ul_conns one_client ''peer'' = Some 0 \<and> length (queue (uc_incoming (ul_list one_client ! 0))) \<le> 512"
  using udp_listener_table [OF one_client_run]
  by (simp add: one_client_conn) (simp add: one_client_def ul_packet_def ul_lookup_def listen_udp_control_def
      try_send_def make_chan_def uc_push_def new_udp_control_conn_def set_uc_def Let_def)

text \<open>A packet for a full queue is lost and restarts its source: the connection is closed and, once it is
  removed, the next packet of the same source opens a new connection that starts with that packet
  and waits to be accepted and authenticated anew.\<close>

theorem udp_overflow_restarts:
  assumes "ul_ok l" "ul_closer l \<noteq> Closer_Done" "ul_conns l key = Some i"
    and "\<not> uc_closed (ul_list l ! i)" "length (queue (uc_incoming (ul_list l ! i))) = 512"
    and "\<not> chan_closed (ul_accept l)" "length (queue (ul_accept l)) < 256"
  shows "let l1 = ul_packet c1 key lost l; l2 = uc_close_end i l1; l3 = ul_packet c2 key next l2;
      j = length (ul_list l)
    in uc_closed (ul_list l1 ! i) \<and> uc_view (ul_list l1 ! i) = uc_view (ul_list l ! i) \<and>
      ul_conns l2 key = None \<and>
      ul_conns l3 key = Some j \<and> uc_view (ul_list l3 ! j) = next \<and>
      queue (ul_accept l3) = queue (ul_accept l) @ [j]"
proof -
  note D = ul_okD [OF assms(1)]
  have i: "i < length (ul_list l)" "uc_key (ul_list l ! i) = key" using D(1,2) [OF assms(3)] .
  have "capacity (uc_incoming (ul_list l ! i)) = 512" using D(3) [OF i(1)] by (simp add: uc_ok_def)
  then have push: "uc_push c1 lost (ul_list l ! i) = (False, ul_list l ! i)"
    using assms(5) by (simp add: uc_push_def try_send_def)
  define l1 where "l1 = ul_packet c1 key lost l"
  have l1: "l1 = uc_close_begin i l"
    using push assms(3,4) by (simp add: l1_def ul_packet_def ul_lookup_def)
  define l2 where "l2 = uc_close_end i l1"
  have l2: "ul_conns l2 key = None" "length (ul_list l2) = length (ul_list l)" "ul_accept l2 = ul_accept l"
    using i by (simp_all add: l2_def l1)
  define q where "q = (ul_accept l)\<lparr>queue := queue (ul_accept l) @ [length (ul_list l)]\<rparr>"
  have "try_send (ul_accept l2) (length (ul_list l2)) = Sent q"
    using assms(6,7) D(8) by (simp add: l2 q_def try_send_def)
  from ul_lookup_new [OF l2(1) this] have
    "ul_lookup key l2 = (Some (length (ul_list l)), l2\<lparr>ul_list := ul_list l2 @ [new_udp_control_conn key],
      ul_conns := (ul_conns l2)(key \<mapsto> length (ul_list l)), ul_accept := q\<rparr>)" by (simp add: l2)
  moreover have "uc_push c2 next (new_udp_control_conn key) =
      (True, (new_udp_control_conn key)\<lparr>uc_incoming := (make_chan 512)\<lparr>queue := [next]\<rparr>\<rparr>)"
    by (simp add: uc_push_def new_udp_control_conn_def try_send_def make_chan_def)
  ultimately have "ul_packet c2 key next l2 =
      l2\<lparr>ul_list := ul_list l2 @ [(new_udp_control_conn key)
           \<lparr>uc_incoming := (make_chan 512)\<lparr>queue := [next]\<rparr>\<rparr>],
         ul_conns := (ul_conns l2)(key \<mapsto> length (ul_list l)), ul_accept := q\<rparr>"
    unfolding l2(2) [symmetric] by (simp add: ul_packet_def nth_append set_uc_def)
  then show ?thesis
    unfolding Let_def l1_def [symmetric] l2_def [symmetric]
    using i l2 by (simp add: l1 q_def uc_view_def nth_append new_udp_control_conn_def)
qed

definition full_client :: udp_control_listener where
  "full_client = listen_udp_control
     \<lparr>ul_list := [(new_udp_control_conn ''peer'')
        \<lparr>uc_incoming := (make_chan 512)\<lparr>queue := replicate 512 [7]\<rparr>\<rparr>],
      ul_conns := [''peer'' \<mapsto> 0]\<rparr>"

theorem udp_overflow_restarts_witness:
  "let l2 = uc_close_end 0 (ul_packet False ''peer'' [8] full_client);
       l3 = ul_packet False ''peer'' [9] l2
   in ul_conns l3 ''peer'' = Some 1 \<and> uc_view (ul_list l3 ! 1) = [9]"
proof -
  have ok: "ul_ok full_client"
    by (rule ul_okI)
      (auto simp: full_client_def listen_udp_control_def new_udp_control_conn_def uc_ok_def
        closer_list_def closer_holds_def split: if_splits)
  have "ul_closer full_client \<noteq> Closer_Done" "ul_conns full_client ''peer'' = Some 0"
    "\<not> uc_closed (ul_list full_client ! 0)" "length (queue (uc_incoming (ul_list full_client ! 0))) = 512"
    "\<not> chan_closed (ul_accept full_client)" "length (queue (ul_accept full_client)) < 256"
    "length (ul_list full_client) = 1"
    by (simp_all add: full_client_def listen_udp_control_def new_udp_control_conn_def)
  with udp_overflow_restarts [OF ok this(1-6), of False "[8]" False "[9]"]
  show ?thesis by (simp add: Let_def)
qed

end
