(* ===== verification/Ws_Frame.thy ===== *)
theory Ws_Frame
  imports Framing
begin

text \<open>
  The WebSocket connection of \<open>internal/tunnel/runner.go\<close> (\<open>wsFrameConn\<close>, \<open>wsReadLen\<close>): binary
  frames of at most 65535 bytes, masked by the client; on the read side also text, continuation,
  ping, pong and close frames of up to 2^31-1 bytes. The mask keys that \<open>crypto/rand\<close> returns are a
  list given with the connection; an empty list is a failing \<open>rand.Read\<close>.
\<close>

section \<open>The connection\<close>

text \<open>What writing uses: the connection, the role and the mask keys still to come.\<close>

record ws_side =
  ws_out :: net_conn
  ws_isClient :: bool
  ws_keys :: "bytes list"

record ws_frame_conn = ws_side +
  ws_rbuf :: bytes

definition new_ws_frame_conn :: "net_conn \<Rightarrow> bool \<Rightarrow> bytes list \<Rightarrow> ws_frame_conn" where
  "new_ws_frame_conn c is_client keys =
     \<lparr>ws_out = c, ws_isClient = is_client, ws_keys = keys, ws_rbuf = []\<rparr>"

text \<open>Byte \<open>i\<close> is combined with byte \<open>i mod 4\<close> of the key.\<close>

fun ws_mask_from :: "bytes \<Rightarrow> nat \<Rightarrow> bytes \<Rightarrow> bytes" where
  "ws_mask_from key i [] = []"
| "ws_mask_from key i (b # bs) = (b XOR key ! (i mod 4)) # ws_mask_from key (Suc i) bs"

definition ws_mask :: "bytes \<Rightarrow> bytes \<Rightarrow> bytes" where
  "ws_mask key p = ws_mask_from key 0 p"

definition put_uint64 :: "64 word \<Rightarrow> bytes" where
  "put_uint64 v = map (\<lambda>k. ucast (drop_bit k v)) [56, 48, 40, 32, 24, 16, 8, 0]"

definition ws_header :: "bool \<Rightarrow> byte \<Rightarrow> nat \<Rightarrow> bytes" where
  "ws_header is_client opcode n =
     (let mask_bit = if is_client then 0x80 else 0 :: byte;
          first = 0x80 OR (opcode AND 0x0F)
      in if n < 126 then [first, mask_bit OR of_nat n]
         else if n \<le> 65535 then [first, mask_bit OR 126] @ put_uint16 (of_nat n)
         else [first, mask_bit OR 127] @ put_uint64 (of_nat n))"

definition ws_write_frame ::
  "byte \<Rightarrow> bytes \<Rightarrow> 'a ws_side_scheme \<Rightarrow> io_error option \<times> 'a ws_side_scheme" where
  "ws_write_frame opcode payload w =
     (case conn_write (ws_out w) (ws_header (ws_isClient w) opcode (length payload)) of
        ((_, Some e), c) \<Rightarrow> (Some e, w\<lparr>ws_out := c\<rparr>)
      | ((_, None), c) \<Rightarrow>
          (if ws_isClient w then
             (case ws_keys w of
                [] \<Rightarrow> (Some (Protocol_Error ''rand''), w\<lparr>ws_out := c\<rparr>)
              | mk # keys \<Rightarrow>
                  (case write2 conn_write c mk (ws_mask mk payload) of
                     (e, c') \<Rightarrow> (e, w\<lparr>ws_out := c', ws_keys := keys\<rparr>)))
           else if payload = [] then (None, w\<lparr>ws_out := c\<rparr>)
           else (case conn_write c payload of ((_, e), c') \<Rightarrow> (e, w\<lparr>ws_out := c'\<rparr>))))"

definition ws_max_payload :: nat where
  "ws_max_payload = 65535"

function ws_write_loop ::
  "nat \<Rightarrow> bytes \<Rightarrow> 'a ws_side_scheme \<Rightarrow> (nat \<times> io_error option) \<times> 'a ws_side_scheme" where
  "ws_write_loop written p w =
     (if p = [] then ((written, None), w)
      else
        (let chunk = take ws_max_payload p in
         case ws_write_frame 0x2 chunk w of
           (Some e, w') \<Rightarrow> ((written, Some e), w')
         | (None, w') \<Rightarrow> ws_write_loop (written + length chunk) (drop (length chunk) p) w'))"
  by pat_completeness auto
termination
  by (relation "measure (\<lambda>(_, p, _). length p)") (auto simp: ws_max_payload_def)

declare ws_write_loop.simps [simp del]

definition ws_write :: "bytes \<Rightarrow> 'a ws_side_scheme \<Rightarrow> (nat \<times> io_error option) \<times> 'a ws_side_scheme" where
  "ws_write p w = ws_write_loop 0 p w"

text \<open>\<open>Close\<close>: a close frame, whose error is ignored, then the connection.\<close>

definition ws_close :: "'a ws_side_scheme \<Rightarrow> 'a ws_side_scheme" where
  "ws_close w = (case ws_write_frame 0x8 [] w of (_, w') \<Rightarrow> w'\<lparr>ws_out := conn_close (ws_out w')\<rparr>)"

section \<open>Reading\<close>

text \<open>\<open>wsReadLen\<close>: the length, and the input left. A read that meets the end of the input has
  consumed all of it.\<close>

definition ws_read_len :: "bytes \<Rightarrow> byte \<Rightarrow> (io_error, nat) result \<times> bytes" where
  "ws_read_len inp n0 =
     (if n0 = 126 then
        (case read_full 2 inp of
           Inl e \<Rightarrow> (Err e, [])
         | Inr (b, rest) \<Rightarrow> (Ok (unat (uint16_be (b ! 0) (b ! 1))), rest))
      else if n0 = 127 then
        (case read_full 8 inp of
           Inl e \<Rightarrow> (Err e, [])
         | Inr (b, rest) \<Rightarrow>
             (let n = uint64_be b in
              if n > 2147483647 then (Err (Protocol_Error ''websocket frame too large''), rest)
              else (Ok (unat n), rest)))
      else (Ok (unat n0), inp))"

text \<open>\<open>readNextDataFrame\<close>: what the frame adds to the buffer or the error, the side after a pong, the
  input left.\<close>

definition read_next_data_frame ::
  "ws_side \<Rightarrow> bytes \<Rightarrow> (io_error, bytes) result \<times> ws_side \<times> bytes" where
  "read_next_data_frame w inp =
     (case read_full 2 inp of
        Inl e \<Rightarrow> (Err e, w, [])
      | Inr (h, inp1) \<Rightarrow>
          (let opcode = (h ! 0) AND 0x0F; has_mask = ((h ! 1) AND 0x80 \<noteq> 0) in
           case ws_read_len inp1 ((h ! 1) AND 0x7F) of
             (Inl e, inp2) \<Rightarrow> (Err e, w, inp2)
           | (Inr n, inp2) \<Rightarrow>
               (case (if has_mask then read_full 4 inp2 else Ok (replicate 4 0, inp2)) of
                  Inl e \<Rightarrow> (Err e, w, [])
                | Inr (mask_key, inp3) \<Rightarrow>
                    (case read_full n inp3 of
                       Inl e \<Rightarrow> (Err e, w, [])
                     | Inr (raw, rest) \<Rightarrow>
                         (let payload = if has_mask then ws_mask mask_key raw else raw in
                          if opcode \<in> {0x1, 0x2, 0x0} then (Ok payload, w, rest)
                          else if opcode = 0x8 then (Err EOF, w, rest)
                          else if opcode = 0x9 then (Ok [], snd (ws_write_frame 0xA payload w), rest)
                          else (Ok [], w, rest))))))"

lemma ws_read_len_shrinks: "ws_read_len inp n0 = (res, rest) \<Longrightarrow> length rest \<le> length inp"
  by (auto simp: ws_read_len_def Let_def split: if_splits sum.splits dest!: read_full_Ok)

lemma read_next_data_frame_shrinks:
  "read_next_data_frame w inp = (Ok p, w', rest) \<Longrightarrow> length rest < length inp"
  by (auto simp: read_next_data_frame_def Let_def split: if_splits sum.splits prod.splits
      dest!: read_full_Ok ws_read_len_shrinks)

function ws_read_loop ::
  "nat \<Rightarrow> ws_side receiver \<Rightarrow> (io_error, bytes) result \<times> ws_side receiver" where
  "ws_read_loop n (w, rbuf, inp) =
     (if rbuf \<noteq> [] then (Ok (take n rbuf), (w, drop n rbuf, inp))
      else (case read_next_data_frame w inp of
              (Inl e, w', inp') \<Rightarrow> (Err e, (w', [], inp'))
            | (Inr payload, w', inp') \<Rightarrow> ws_read_loop n (w', payload, inp')))"
  by pat_completeness auto
termination
  by (relation "measure (\<lambda>(_, _, _, inp). length inp)")
    (auto dest!: sym [of _ "read_next_data_frame _ _"] read_next_data_frame_shrinks)

declare ws_read_loop.simps [simp del]

text \<open>\<open>Read\<close> of the connection: the input is what its network connection still delivers, the side is
  the rest of it.\<close>

definition ws_side_of :: "ws_frame_conn \<Rightarrow> ws_side" where
  "ws_side_of w = \<lparr>ws_out = (ws_out w)\<lparr>rx := []\<rparr>, ws_isClient = ws_isClient w, ws_keys = ws_keys w\<rparr>"

definition ws_read :: "nat \<Rightarrow> ws_frame_conn \<Rightarrow> (io_error, bytes) result \<times> ws_frame_conn" where
  "ws_read n w =
     (case ws_read_loop n (ws_side_of w, ws_rbuf w,
          if closed (ws_out w) then [] else rx (ws_out w)) of
        (res, (w', rbuf, inp)) \<Rightarrow>
          (res, \<lparr>ws_out = (ws_out w')\<lparr>rx := inp\<rparr>, ws_isClient = ws_isClient w',
                 ws_keys = ws_keys w', ws_rbuf = rbuf\<rparr>))"

section \<open>Masks and headers\<close>

lemma ws_mask_from_length [simp]: "length (ws_mask_from key i p) = length p"
  by (induction p arbitrary: i) simp_all

lemma ws_mask_length [simp]: "length (ws_mask key p) = length p"
  by (simp add: ws_mask_def)

lemma ws_mask_from_twice: "ws_mask_from key i (ws_mask_from key i p) = p"
  by (induction p arbitrary: i) simp_all

lemma ws_mask_twice [simp]: "ws_mask key (ws_mask key p) = p"
  by (simp add: ws_mask_def ws_mask_from_twice)

lemma byte_low_bits:
  assumes "n < 128"
  shows "(of_nat n :: byte) AND 0x7F = of_nat n" "(0x80 OR of_nat n :: byte) AND 0x7F = of_nat n"
    "(of_nat n :: byte) AND 0x80 = 0" "(0x80 OR of_nat n :: byte) AND 0x80 \<noteq> 0"
proof -
  have "take_bit 7 n = n" using assms by (simp add: take_bit_nat_eq_self)
  then have n7: "bit n i \<Longrightarrow> i < 7" for i by (metis bit_take_bit_iff)
  have m: "(0x7F :: byte) = mask 7" by (simp add: mask_eq_exp_minus_1)
  have p7: "(0x80 :: byte) = push_bit 7 1" by simp
  have b80: "bit (0x80 :: byte) i \<longleftrightarrow> i = 7" for i
    unfolding p7 bit_push_bit_iff bit_1_iff by auto
  have b7F: "bit (0x7F :: byte) i \<longleftrightarrow> i < 7" for i
    unfolding m bit_mask_iff by auto
  have bn: "bit (of_nat n :: byte) i \<longleftrightarrow> bit n i" for i
    using n7 [of i] by (auto simp: bit_of_nat_iff)
  note bits = bit_and_iff bit_or_iff b80 b7F bn
  show "(of_nat n :: byte) AND 0x7F = of_nat n"
    by (rule bit_word_eqI) (simp only: bits, use n7 in blast)
  show "(0x80 OR of_nat n :: byte) AND 0x7F = of_nat n"
    by (rule bit_word_eqI) (simp only: bits, use n7 in fastforce)
  show "(of_nat n :: byte) AND 0x80 = 0"
    by (rule bit_word_eqI) (simp only: bits bit_0_eq, use n7 in fastforce)
  have "bit ((0x80 OR of_nat n :: byte) AND 0x80) 7" by (simp only: bits) simp
  then show "(0x80 OR of_nat n :: byte) AND 0x80 \<noteq> 0" by auto
qed

lemma unat_byte: "n < 128 \<Longrightarrow> unat (of_nat n :: byte) = n"
  by (simp add: unat_of_nat)

lemma low_nibble: "(0x80 OR (op AND 0x0F)) AND 0x0F = op AND (0x0F :: byte)"
proof -
  have p7: "(0x80 :: byte) = push_bit 7 1" by simp
  have "bit (0x80 :: byte) i \<longleftrightarrow> i = 7" for i
    unfolding p7 bit_push_bit_iff bit_1_iff by auto
  moreover have m: "(0x0F :: byte) = mask 4" by (simp add: mask_eq_exp_minus_1)
  then have "bit (0x0F :: byte) i \<longleftrightarrow> i < 4" for i
    unfolding m bit_mask_iff by auto
  ultimately show ?thesis
    by (intro bit_word_eqI) (auto simp only: bit_and_iff bit_or_iff)
qed

lemma shift_in_byte:
  "push_bit 8 (drop_bit (k + 8) v) OR ucast (ucast (drop_bit k v) :: byte) = drop_bit k (v :: 64 word)"
proof (rule bit_word_eqI)
  fix i assume "i < LENGTH(64)"
  then show "bit (push_bit 8 (drop_bit (k + 8) v) OR ucast (ucast (drop_bit k v) :: byte)) i =
      bit (drop_bit k v) i"
    by (cases "i < 8") (auto simp: bit_simps)
qed

lemma uint64_be_put: "uint64_be (put_uint64 v) = v"
proof -
  have "drop_bit 64 v = 0" by (rule bit_word_eqI) (auto simp: bit_simps dest: bit_imp_le_length)
  then have "uint64_be (put_uint64 v) = fold (\<lambda>b acc. push_bit 8 acc OR ucast b) (put_uint64 v) (drop_bit 64 v)"
    by (simp only: uint64_be_def)
  also have "\<dots> = drop_bit 0 v"
    using shift_in_byte [of 56 v] shift_in_byte [of 48 v] shift_in_byte [of 40 v]
      shift_in_byte [of 32 v] shift_in_byte [of 24 v] shift_in_byte [of 16 v]
      shift_in_byte [of 8 v] shift_in_byte [of 0 v]
    by (simp add: put_uint64_def)
  finally show ?thesis by simp
qed

lemma put_uint64_length [simp]: "length (put_uint64 v) = 8"
  by (simp add: put_uint64_def)

section \<open>Frames\<close>

definition ws_bytes :: "bytes option \<Rightarrow> byte \<Rightarrow> bytes \<Rightarrow> bytes" where
  "ws_bytes mk op p =
     ws_header (mk \<noteq> None) op (length p) @
     (case mk of None \<Rightarrow> p | Some key \<Rightarrow> key @ ws_mask key p)"

definition ws_len_byte :: "nat \<Rightarrow> nat" where
  "ws_len_byte n = (if n < 126 then n else if n \<le> 65535 then 126 else 127)"

definition ws_len_tail :: "nat \<Rightarrow> bytes" where
  "ws_len_tail n =
     (if n < 126 then [] else if n \<le> 65535 then put_uint16 (of_nat n) else put_uint64 (of_nat n))"

lemma ws_header_split:
  "ws_header m op n =
     [0x80 OR (op AND 0x0F), (if m then 0x80 else 0) OR of_nat (ws_len_byte n)] @ ws_len_tail n"
  by (simp add: ws_header_def ws_len_byte_def ws_len_tail_def Let_def)

lemma ws_len_byte_small: "ws_len_byte n < 128"
  by (simp add: ws_len_byte_def)

lemma ws_read_len_tail:
  assumes "n \<le> 2147483647"
  shows "ws_read_len (ws_len_tail n @ rest) (of_nat (ws_len_byte n)) = (Ok n, rest)"
proof -
  consider "n < 126" | "126 \<le> n" "n \<le> 65535" | "65535 < n" by linarith
  then show ?thesis
  proof cases
    case 1
    then have "(of_nat n :: byte) \<noteq> 126" "(of_nat n :: byte) \<noteq> 127"
      by (auto simp: word_unat_eq_iff unat_of_nat)
    with 1 show ?thesis
      by (simp add: ws_read_len_def ws_len_byte_def ws_len_tail_def unat_byte)
  next
    case 2
    have "read_full 2 (put_uint16 (of_nat n) @ rest) = Ok (put_uint16 (of_nat n), rest)"
      by (simp add: read_full_append)
    with 2 show ?thesis
      by (simp add: ws_read_len_def ws_len_byte_def ws_len_tail_def put_uint16_def unat_of_nat16)
  next
    case 3
    have "read_full 8 (put_uint64 (of_nat n) @ rest) = Ok (put_uint64 (of_nat n), rest)"
      by (simp add: read_full_append)
    moreover have "unat (of_nat n :: 64 word) = n" using assms by (simp add: unat_of_nat)
    moreover from this have "\<not> (of_nat n :: 64 word) > 2147483647"
      using assms by (simp add: word_less_nat_alt)
    ultimately show ?thesis using 3
      by (simp add: ws_read_len_def ws_len_byte_def ws_len_tail_def uint64_be_put Let_def)
  qed
qed

lemma read_next_ws_bytes:
  assumes "length p \<le> 2147483647" "op AND 0x0F = op" "pred_option (\<lambda>key. length key = 4) mk"
  shows "read_next_data_frame w (ws_bytes mk op p @ rest) =
    (if op \<in> {0x1, 0x2, 0x0} then (Ok p, w, rest)
     else if op = 0x8 then (Err EOF, w, rest)
     else if op = 0x9 then (Ok [], snd (ws_write_frame 0xA p w), rest)
     else (Ok [], w, rest))"
proof -
  define body where "body = (case mk of None \<Rightarrow> p | Some key \<Rightarrow> key @ ws_mask key p)"
  define b1 :: byte where "b1 = (if mk \<noteq> None then 0x80 else 0) OR of_nat (ws_len_byte (length p))"
  have in_: "ws_bytes mk op p @ rest =
      [0x80 OR (op AND 0x0F), b1] @ (ws_len_tail (length p) @ (body @ rest))"
    by (simp add: ws_bytes_def ws_header_split body_def b1_def)
  have h: "read_full 2 (ws_bytes mk op p @ rest) =
      Ok ([0x80 OR (op AND 0x0F), b1], ws_len_tail (length p) @ (body @ rest))"
    unfolding in_ by (rule read_full_append) simp
  note bits = byte_low_bits [OF ws_len_byte_small [of "length p"]]
  have len: "ws_read_len (ws_len_tail (length p) @ (body @ rest)) (b1 AND 0x7F) =
      (Ok (length p), body @ rest)"
    using ws_read_len_tail [OF assms(1), of "body @ rest"] bits(1,2) by (simp add: b1_def)
  have mask: "b1 AND 0x80 \<noteq> 0 \<longleftrightarrow> mk \<noteq> None"
    using bits(3,4) by (simp add: b1_def)
  have op: "(0x80 OR (op AND 0x0F)) AND 0x0F = op" using low_nibble [of op] assms(2) by simp
  have full: "length a = n \<Longrightarrow> read_full n (a @ r) = Ok (a, r)" for a n r
    by (rule read_full_append)
  show ?thesis
  proof (cases mk)
    case None
    then show ?thesis
      unfolding read_next_data_frame_def h
      using len mask op full [of p "length p" rest] by (simp add: body_def Let_def)
  next
    case (Some key)
    have "read_full 4 (body @ rest) = Ok (key, ws_mask key p @ rest)"
      using Some assms(3) full [of key 4 "ws_mask key p @ rest"] by (simp add: body_def)
    with Some show ?thesis
      unfolding read_next_data_frame_def h
      using len mask op full [of "ws_mask key p" "length p" rest] by (simp add: Let_def)
  qed
qed

text \<open>Frames as the contract sees them: an opcode and a payload. A close frame ends the stream.\<close>

definition ws_encodes :: "ws_side \<Rightarrow> byte \<times> bytes \<Rightarrow> bytes \<Rightarrow> bool" where
  "ws_encodes w f b \<longleftrightarrow>
     (\<exists>mk. pred_option (\<lambda>key. length key = 4) mk \<and> b = ws_bytes mk (fst f) (snd f)) \<and>
     fst f AND 0x0F = fst f \<and> fst f \<noteq> 0x8 \<and> length (snd f) \<le> 2147483647"

definition ws_data :: "byte \<times> bytes \<Rightarrow> bytes" where
  "ws_data f = (if fst f \<in> {0x1, 0x2, 0x0} then snd f else [])"

definition ws_advance :: "ws_side \<Rightarrow> byte \<times> bytes \<Rightarrow> ws_side" where
  "ws_advance w f = (if fst f = 0x9 then snd (ws_write_frame 0xA (snd f) w) else w)"

definition ws_decode :: "ws_side \<Rightarrow> bytes \<Rightarrow> (io_error, bytes \<times> ws_side \<times> bytes) result" where
  "ws_decode w inp =
     (case read_next_data_frame w inp of
        (Inl e, _, _) \<Rightarrow> Err e
      | (Inr p, w', rest) \<Rightarrow> Ok (p, w', rest))"

interpretation ws: framing ws_encodes ws_data ws_advance ws_decode ws_read_loop
proof
  fix k f b rest
  assume "ws_encodes k f b"
  then obtain mk where f: "pred_option (\<lambda>key. length key = 4) mk" "b = ws_bytes mk (fst f) (snd f)"
    "fst f AND 0x0F = fst f" "fst f \<noteq> 0x8" "length (snd f) \<le> 2147483647"
    by (auto simp: ws_encodes_def)
  show "ws_decode k (b @ rest) = Ok (ws_data f, ws_advance k f, rest)"
    using f(4) unfolding ws_decode_def f(2) read_next_ws_bytes [OF f(5,3,1)]
    by (auto simp: ws_data_def ws_advance_def)
next
  fix buf :: bytes and n and k and inp
  show "buf \<noteq> [] \<Longrightarrow> ws_read_loop n (k, buf, inp) = (Ok (take n buf), (k, drop n buf, inp))"
    by (simp add: ws_read_loop.simps)
next
  fix k inp p k' inp' n
  assume "ws_decode k inp = Ok (p, k', inp')"
  then show "ws_read_loop n (k, [], inp) = ws_read_loop n (k', p, inp')"
    by (subst ws_read_loop.simps) (auto simp: ws_decode_def split: prod.splits sum.splits)
next
  fix k inp e n
  assume "ws_decode k inp = Err e"
  then show "fst (ws_read_loop n (k, [], inp)) = Err e"
    by (subst ws_read_loop.simps) (auto simp: ws_decode_def split: prod.splits sum.splits)
qed

section \<open>Transfer\<close>

function ws_chunks :: "bytes \<Rightarrow> bytes list" where
  "ws_chunks p = (if p = [] then [] else take ws_max_payload p # ws_chunks (drop ws_max_payload p))"
  by pat_completeness auto
termination
  by (relation "measure length") (auto simp: ws_max_payload_def)

declare ws_chunks.simps [simp del]

lemma concat_ws_chunks: "concat (ws_chunks p) = p"
proof (induction p rule: ws_chunks.induct)
  case (1 p)
  then show ?case by (subst ws_chunks.simps) simp
qed

text \<open>Keys as \<open>crypto/rand\<close> fills them.\<close>

definition good_keys :: "'a ws_side_scheme \<Rightarrow> bool" where
  "good_keys w \<longleftrightarrow> list_all (\<lambda>key. length key = 4) (ws_keys w)"

lemma ws_write_frame_ok:
  assumes "ws_write_frame op p w = (None, w')" "good_keys w"
  shows "good_keys w' \<and> (\<exists>mk. pred_option (\<lambda>key. length key = 4) mk \<and>
    tx (ws_out w') = tx (ws_out w) @ ws_bytes mk op p)"
proof -
  obtain n e c where h: "conn_write (ws_out w) (ws_header (ws_isClient w) op (length p)) = ((n, e), c)"
    by (metis surj_pair)
  with assms(1) have e: "e = None" by (auto simp: ws_write_frame_def split: option.splits)
  have c: "tx c = tx (ws_out w) @ ws_header (ws_isClient w) op (length p)"
    using h e conn.write_ok by simp
  show ?thesis
  proof (cases "ws_isClient w")
    case True
    with assms(1) h e obtain mk keys c' where k: "ws_keys w = mk # keys"
      "write2 conn_write c mk (ws_mask mk p) = (None, c')" "w' = w\<lparr>ws_out := c', ws_keys := keys\<rparr>"
      by (auto simp: ws_write_frame_def split: list.splits prod.splits)
    from conn.write2_ok [OF k(2)] c True k assms(2) show ?thesis
      by (intro conjI exI [of _ "Some mk"]) (auto simp: good_keys_def ws_bytes_def)
  next
    case False
    show ?thesis
    proof (cases "p = []")
      case True
      with assms h e False c show ?thesis
        by (intro conjI exI [of _ None]) (auto simp: ws_write_frame_def good_keys_def ws_bytes_def)
    next
      case p: False
      obtain m e2 c2 where w2: "conn_write c p = ((m, e2), c2)" by (metis surj_pair)
      with assms(1) h e False p have "e2 = None" "w' = w\<lparr>ws_out := c2\<rparr>"
        by (auto simp: ws_write_frame_def)
      with w2 conn.write_ok [of c p m c2] c assms(2) False show ?thesis
        by (intro conjI exI [of _ None]) (auto simp: good_keys_def ws_bytes_def)
    qed
  qed
qed

lemma ws_data_encodes:
  "pred_option (\<lambda>key. length key = 4) mk \<Longrightarrow> length p \<le> 2147483647 \<Longrightarrow>
     ws_encodes w (0x2, p) (ws_bytes mk 0x2 p)"
  by (auto simp: ws_encodes_def)

lemma ws_data_binary [simp]: "ws_data (0x2, p) = p"
  by (simp add: ws_data_def)

lemma ws_data_advance [simp]: "ws_advance w (0x2, p) = w"
  by (simp add: ws_advance_def)

lemma ws_data_foldl [simp]: "foldl ws_advance w (map (Pair 0x2) ps) = w"
  by (induction ps) simp_all

lemma ws_write_loop_ok:
  "ws_write_loop n p w = ((m, None), w') \<Longrightarrow> good_keys w \<Longrightarrow>
     m = n + length p \<and> good_keys w' \<and>
     (\<exists>b. tx (ws_out w') = tx (ws_out w) @ b \<and> ws.encodes_all k (map (Pair 0x2) (ws_chunks p)) b)"
proof (induction p arbitrary: n w rule: length_induct)
  case (1 p)
  show ?case
  proof (cases "p = []")
    case True
    with "1.prems" show ?thesis by (simp add: ws_write_loop.simps ws_chunks.simps ws.all_Nil)
  next
    case False
    define chunk where "chunk = take ws_max_payload p"
    obtain e w1 where f: "ws_write_frame 0x2 chunk w = (e, w1)" by (cases "ws_write_frame 0x2 chunk w")
    with "1.prems"(1) False have e: "e = None"
      by (cases e) (auto simp: ws_write_loop.simps [of n p w] Let_def chunk_def)
    with f ws_write_frame_ok "1.prems"(2) obtain mk where mk: "good_keys w1"
      "pred_option (\<lambda>key. length key = 4) mk" "tx (ws_out w1) = tx (ws_out w) @ ws_bytes mk 0x2 chunk"
      by blast
    have d: "drop (length chunk) p = drop ws_max_payload p" by (simp add: chunk_def min_def)
    have l: "ws_write_loop (n + length chunk) (drop ws_max_payload p) w1 = ((m, None), w')"
      using "1.prems"(1) False f e d
      by (simp add: ws_write_loop.simps [of n p w] Let_def flip: chunk_def)
    have "length (drop ws_max_payload p) < length p" using False by (simp add: ws_max_payload_def)
    with "1.IH" l mk(1) obtain b where ih: "m = n + length chunk + length (drop ws_max_payload p)"
      "good_keys w'" "tx (ws_out w') = tx (ws_out w1) @ b"
      "ws.encodes_all k (map (Pair 0x2) (ws_chunks (drop ws_max_payload p))) b"
      by blast
    have ch: "ws_chunks p = chunk # ws_chunks (drop ws_max_payload p)"
      using False by (subst ws_chunks.simps) (simp add: chunk_def)
    have "ws_encodes k (0x2, chunk) (ws_bytes mk 0x2 chunk)"
      using mk(2) by (intro ws_data_encodes) (auto simp: chunk_def ws_max_payload_def)
    from ws.all_Cons [OF this, of "map (Pair 0x2) (ws_chunks (drop ws_max_payload p))" b] ih mk(3)
    show ?thesis by (auto simp: ch chunk_def)
  qed
qed

lemma ws_writes_ok:
  "conn_writes ws_write ps w = Some w' \<Longrightarrow> good_keys w \<Longrightarrow>
     \<exists>b. tx (ws_out w') = tx (ws_out w) @ b \<and>
       ws.encodes_all k (map (Pair 0x2) (concat (map ws_chunks ps))) b"
proof (induction ps arbitrary: w)
  case Nil
  then show ?case by (simp add: ws.all_Nil)
next
  case (Cons p ps)
  then obtain m w1 where w: "ws_write p w = ((m, None), w1)" "conn_writes ws_write ps w1 = Some w'"
    by (auto split: prod.splits option.splits)
  from ws_write_loop_ok [OF w(1) [unfolded ws_write_def] Cons.prems(2), of k] obtain b1 where 1:
    "good_keys w1" "tx (ws_out w1) = tx (ws_out w) @ b1"
    "ws.encodes_all k (map (Pair 0x2) (ws_chunks p)) b1" by blast
  from Cons.IH [OF w(2) 1(1)] obtain b2 where 2: "tx (ws_out w') = tx (ws_out w1) @ b2"
    "ws.encodes_all k (map (Pair 0x2) (concat (map ws_chunks ps))) b2" by blast
  from ws.encodes_all_append [OF 1(3), of "map (Pair 0x2) (concat (map ws_chunks ps))" b2] 1 2
  show ?case by auto
qed

lemma ws_content_data: "ws.content (map (Pair 0x2) cs) = concat cs"
  by (induction cs) simp_all

lemma concat_all_chunks: "concat (concat (map ws_chunks ps)) = concat ps"
  by (induction ps) (simp_all add: concat_ws_chunks)

definition ws_receiver :: "ws_frame_conn \<Rightarrow> ws_side receiver" where
  "ws_receiver w = (ws_side_of w, ws_rbuf w, if closed (ws_out w) then [] else rx (ws_out w))"

lemma ws_write_frame_conn:
  "ws_write_frame op p w = (e, w') \<Longrightarrow>
     rx (ws_out w') = rx (ws_out w) \<and> closed (ws_out w') = closed (ws_out w)"
proof -
  assume a: "ws_write_frame op p w = (e, w')"
  obtain n e1 c1 where h: "conn_write (ws_out w) (ws_header (ws_isClient w) op (length p)) = ((n, e1), c1)"
    by (metis surj_pair)
  note f1 = conn_write_frame [OF h]
  have f2: "write2 conn_write c1 a b = (e2, c2) \<Longrightarrow> rx c2 = rx c1 \<and> closed c2 = closed c1"
    for a b e2 c2
    by (auto simp: write2_def split: prod.splits option.splits) (metis conn_write_frame)+
  show ?thesis
    using a h f1 by (auto simp: ws_write_frame_def split: option.splits if_splits list.splits prod.splits
        dest!: f2 conn_write_frame)
qed

lemma read_next_side:
  assumes "read_next_data_frame w inp = (res, w', rest)"
  shows "rx (ws_out w') = rx (ws_out w) \<and> closed (ws_out w') = closed (ws_out w)"
proof -
  have pong: "rx (ws_out (snd (ws_write_frame op p w))) = rx (ws_out w) \<and>
      closed (ws_out (snd (ws_write_frame op p w))) = closed (ws_out w)" for op p
    using ws_write_frame_conn by (metis prod.collapse)
  have "w' = w \<or> (\<exists>p. w' = snd (ws_write_frame 0xA p w))"
    using assms
    by (auto simp: read_next_data_frame_def Let_def split: if_splits sum.splits prod.splits)
  with pong show ?thesis by blast
qed

lemma ws_read_loop_side:
  "ws_read_loop n (w, rbuf, inp) = (res, (w', rbuf', inp')) \<Longrightarrow>
     rx (ws_out w') = rx (ws_out w) \<and> closed (ws_out w') = closed (ws_out w)"
proof (induction n "(w, rbuf, inp)" arbitrary: w rbuf inp rule: ws_read_loop.induct)
  case (1 n w rbuf inp)
  obtain r w1 inp1 where r: "read_next_data_frame w inp = (r, w1, inp1)" by (metis surj_pair)
  with "1.prems" "1.hyps" read_next_side [OF r] show ?case
    by (cases "rbuf = []"; cases r) (auto simp: ws_read_loop.simps [of n w])
qed

lemma ws_reads_receiver:
  assumes "\<not> closed (ws_out w)"
  shows "fst (conn_reads ws_read ns w) = fst (conn_reads ws_read_loop ns (ws_receiver w)) \<and>
    ws_receiver (snd (conn_reads ws_read ns w)) = snd (conn_reads ws_read_loop ns (ws_receiver w))"
proof (rule conn_reads_sim [where ok = "\<lambda>t. \<not> closed (ws_out t)"])
  fix n and t :: ws_frame_conn
  assume t: "\<not> closed (ws_out t)"
  obtain res w' rbuf inp where r: "ws_read_loop n (ws_receiver t) = (res, (w', rbuf, inp))"
    by (metis surj_pair)
  then have "rx (ws_out w') = []" "\<not> closed (ws_out w')"
    using ws_read_loop_side t by (fastforce simp: ws_receiver_def ws_side_of_def)+
  with r t show "fst (ws_read n t) = fst (ws_read_loop n (ws_receiver t)) \<and>
      ws_receiver (snd (ws_read n t)) = snd (ws_read_loop n (ws_receiver t)) \<and>
      \<not> closed (ws_out (snd (ws_read n t)))"
    by (simp add: ws_read_def ws_receiver_def ws_side_of_def)
qed (rule assms)

section \<open>Properties\<close>

text \<open>C19. The WebSocket framing carries bytes faithfully in both roles: what one side writes, in any
  number of writes of any size, masked with whatever keys the random source yields, the other side
  reads back in order, however it cuts its reads.\<close>

theorem ws_transfer:
  assumes "conn_writes ws_write ps a = Some a'" "good_keys a"
    and "\<not> closed (ws_out b)" "ws_rbuf b = []"
    and "tx (ws_out a') = tx (ws_out a) @ w" "rx (ws_out b) = w @ rest"
    and "list_all (\<lambda>n. 0 < n) ns" "sum_list ns \<le> length (concat ps)"
  shows "prefix (fst (conn_reads ws_read ns b)) (concat ps) \<and>
    length ns \<le> length (fst (conn_reads ws_read ns b))"
proof -
  let ?fs = "map (Pair 0x2) (concat (map ws_chunks ps))"
  from ws_writes_ok [OF assms(1,2), of "ws_side_of b"] assms(5)
  have "ws.encodes_all (ws_side_of b) ?fs w" by auto
  moreover have c: "ws.content ?fs = concat ps" by (simp add: ws_content_data concat_all_chunks)
  moreover have "sum_list ns \<le> length ([] @ ws.content ?fs)" using assms(8) c by simp
  ultimately obtain got k' buf' fs' bs' where
    "conn_reads ws_read_loop ns (ws_side_of b, [], w @ rest) = (got, (k', buf', bs' @ rest))"
    "got @ buf' @ ws.content fs' = concat ps" "length ns \<le> length got"
    using ws.reads_deliver [OF _ assms(7), of "ws_side_of b" ?fs w "[]" rest] by auto
  moreover have "ws_receiver b = (ws_side_of b, [], w @ rest)"
    using assms(3,4,6) by (simp add: ws_receiver_def)
  ultimately show ?thesis
    using ws_reads_receiver [OF assms(3), of ns] by (metis fst_conv prefixI)
qed

definition example_ws :: "bool \<Rightarrow> bytes \<Rightarrow> ws_frame_conn" where
  "example_ws is_client input = new_ws_frame_conn (new_conn input) is_client [[1, 2, 3, 4], [5, 6, 7, 8]]"

theorem ws_transfer_witness:
  "prefix (fst (conn_reads ws_read [2, 1] (example_ws False (ws_bytes (Some [1, 2, 3, 4]) 2 [9, 9, 9]))))
     [9, 9, 9]"
proof -
  have "ws_write [9, 9, 9] (example_ws True []) = ((3, None),
      (example_ws True [])\<lparr>ws_out := (new_conn [])\<lparr>tx := ws_bytes (Some [1, 2, 3, 4]) 2 [9, 9, 9]\<rparr>,
        ws_keys := [[5, 6, 7, 8]]\<rparr>)"
    by (simp add: ws_write_def ws_write_loop.simps example_ws_def new_ws_frame_conn_def Let_def
        ws_max_payload_def ws_write_frame_def new_conn_def conn_write_def write2_def ws_bytes_def)
  then have "conn_writes ws_write [[9, 9, 9]] (example_ws True []) = Some
      ((example_ws True [])\<lparr>ws_out := (new_conn [])\<lparr>tx := ws_bytes (Some [1, 2, 3, 4]) 2 [9, 9, 9]\<rparr>,
        ws_keys := [[5, 6, 7, 8]]\<rparr>)" by simp
  from ws_transfer [OF this, of "example_ws False (ws_bytes (Some [1, 2, 3, 4]) 2 [9, 9, 9])" _ "[]" "[2, 1]"]
  show ?thesis
    by (simp add: example_ws_def new_ws_frame_conn_def new_conn_def good_keys_def)
qed

text \<open>A frame of any kind but close, with or without a mask.\<close>

type_synonym ws_frame = "bytes option \<times> byte \<times> bytes"

definition sound_frame :: "ws_frame \<Rightarrow> bool" where
  "sound_frame f \<longleftrightarrow>
     (case f of (mk, op, p) \<Rightarrow>
        pred_option (\<lambda>key. length key = 4) mk \<and> op AND 0x0F = op \<and> op \<noteq> 0x8 \<and> length p \<le> 2147483647)"

definition ws_wire :: "ws_frame list \<Rightarrow> bytes" where
  "ws_wire fs = concat (map (\<lambda>(mk, op, p). ws_bytes mk op p) fs)"

lemma encodes_wire: "list_all sound_frame fs \<Longrightarrow> ws.encodes_all w (map snd fs) (ws_wire fs)"
proof (induction fs arbitrary: w)
  case Nil
  then show ?case by (simp add: ws_wire_def ws.all_Nil)
next
  case (Cons f fs)
  obtain mk op p where f: "f = (mk, op, p)" by (cases f)
  with Cons.prems have "ws_encodes w (op, p) (ws_bytes mk op p)"
    by (auto simp: ws_encodes_def sound_frame_def)
  from ws.all_Cons [OF this Cons.IH] Cons.prems f show ?case by (simp add: ws_wire_def)
qed

definition pings :: "ws_frame list \<Rightarrow> bytes list" where
  "pings fs = [p. (mk, op, p) \<leftarrow> fs, op = 0x9]"

lemma pong_server:
  assumes "\<not> ws_isClient w" "\<not> closed (ws_out w)" "budget (ws_out w) = None"
  shows "ws_write_frame 0xA p w =
    (None, w\<lparr>ws_out := (ws_out w)\<lparr>tx := tx (ws_out w) @ ws_bytes None 0xA p\<rparr>\<rparr>)"
  using assms by (simp add: ws_write_frame_def ws_bytes_def)

lemma pongs_server:
  assumes "\<not> ws_isClient w" "\<not> closed (ws_out w)" "budget (ws_out w) = None"
  shows "tx (ws_out (foldl ws_advance w (map snd fs))) =
    tx (ws_out w) @ concat (map (ws_bytes None 0xA) (pings fs))"
  using assms
proof (induction fs arbitrary: w)
  case (Cons f fs)
  obtain mk op p where f: "f = (mk, op, p)" by (cases f)
  show ?case
  proof (cases "op = 0x9")
    case True
    then have "ws_advance w (op, p) =
        w\<lparr>ws_out := (ws_out w)\<lparr>tx := tx (ws_out w) @ ws_bytes None 0xA p\<rparr>\<rparr>"
      using Cons.prems by (simp add: ws_advance_def pong_server)
    with Cons.IH [of "ws_advance w (op, p)"] Cons.prems True f show ?thesis
      by (simp add: pings_def)
  next
    case False
    then have "ws_advance w (op, p) = w" by (simp add: ws_advance_def)
    with Cons.IH [of w] Cons.prems False f show ?thesis by (simp add: pings_def)
  qed
qed (simp add: pings_def)

definition ws_text :: "ws_frame list \<Rightarrow> bytes" where
  "ws_text fs = concat (map (\<lambda>f. ws_data (snd f)) fs)"

lemma ws_content_text: "ws.content (map snd fs) = ws_text fs"
  by (simp add: ws.content_def ws_text_def comp_def)

lemma text_of_suffix:
  assumes "suffix gs fs" "gs \<noteq> []" "ws_data (snd (last fs)) \<noteq> []"
  shows "ws_text gs \<noteq> []"
proof -
  have l: "last gs = last fs" using assms(1,2) by (auto simp: suffix_def)
  have "last gs \<in> set gs" using assms(2) by (rule last_in_set)
  then have "\<not> (\<forall>f \<in> set gs. ws_data (snd f) = [])" using assms(3) unfolding l by blast
  then show ?thesis unfolding ws_text_def concat_eq_Nil_conv by simp
qed

text \<open>Control frames are invisible to the reader: from any mixture of data, ping, pong and unknown
  frames, with or without masks, the server's side reads exactly the payloads of the data frames,
  and by the time it has read the last of them it has answered every ping with a pong of the same
  payload, in order.\<close>

theorem ws_control_frames:
  assumes "list_all sound_frame fs" "fs \<noteq> []" "ws_data (snd (last fs)) \<noteq> []"
    and "\<not> ws_isClient b" "\<not> closed (ws_out b)" "budget (ws_out b) = None" "ws_rbuf b = []"
    and "rx (ws_out b) = ws_wire fs"
  shows "\<exists>b'. conn_reads ws_read (replicate (length (ws_text fs)) 1) b = (ws_text fs, b') \<and>
    tx (ws_out b') = tx (ws_out b) @ concat (map (ws_bytes None 0xA) (pings fs))"
proof -
  let ?ns = "replicate (length (ws_text fs)) (1 :: nat)"
  obtain k' fs' bs' where r:
    "conn_reads ws_read_loop ?ns (ws_side_of b, [], ws_wire fs @ []) = (ws_text fs, (k', [], bs' @ []))"
    "ws.content fs' = []" "foldl ws_advance k' fs' = foldl ws_advance (ws_side_of b) (map snd fs)"
    "suffix fs' (map snd fs)"
    using ws.reads_everything [OF encodes_wire [OF assms(1)], of "ws_side_of b" "[]"]
    by (auto simp: ws_content_text)
  from r(4) obtain gs where gs: "fs' = map snd gs" "suffix gs fs"
    by (auto simp: suffix_def map_eq_append_conv)
  have "fs' = []"
    using text_of_suffix [OF gs(2) _ assms(3)] r(2) gs(1) ws_content_text [of gs] by auto
  with r(3) have k': "k' = foldl ws_advance (ws_side_of b) (map snd fs)" by simp
  have rec: "ws_receiver b = (ws_side_of b, [], ws_wire fs)"
    using assms(5,7,8) by (simp add: ws_receiver_def)
  define b' where "b' = snd (conn_reads ws_read ?ns b)"
  have "fst (conn_reads ws_read ?ns b) = ws_text fs" "ws_side_of b' = k'"
    using ws_reads_receiver [OF assms(5), of ?ns] r(1) rec
    by (simp_all add: b'_def) (simp add: ws_receiver_def)
  moreover have "tx (ws_out k') = tx (ws_out b) @ concat (map (ws_bytes None 0xA) (pings fs))"
    unfolding k' using assms(4-6) by (subst pongs_server) (simp_all add: ws_side_of_def)
  ultimately have "conn_reads ws_read ?ns b = (ws_text fs, b')"
    "tx (ws_out b') = tx (ws_out b) @ concat (map (ws_bytes None 0xA) (pings fs))"
    by (auto simp: b'_def prod_eq_iff ws_side_of_def)
  then show ?thesis by blast
qed

theorem ws_control_frames_witness:
  "\<exists>b'. conn_reads ws_read [1, 1, 1] (example_ws False (ws_wire
        [(None, 2, [7]), (Some [1, 2, 3, 4], 9, [5]), (None, 10, []), (Some [0, 0, 0, 1], 1, [8, 9])])) =
      ([7, 8, 9], b') \<and> tx (ws_out b') = ws_bytes None 0xA [5]"
proof -
  let ?fs = "[(None, 2, [7]), (Some [1, 2, 3, 4], 9, [5]), (None, 10, []),
    (Some [0, 0, 0, 1], 1, [8, 9])] :: ws_frame list"
  have t: "ws_text ?fs = [7, 8, 9]" "pings ?fs = [[5]]"
    by (simp_all add: ws_text_def ws_data_def pings_def)
  have "list_all sound_frame ?fs" by (simp add: sound_frame_def)
  from ws_control_frames [OF this, of "example_ws False (ws_wire ?fs)"] t show ?thesis
    by (simp add: example_ws_def new_ws_frame_conn_def new_conn_def ws_data_def numeral_3_eq_3)
qed

text \<open>A frame's announced length never makes the reader allocate more than 2^31-1 bytes: whatever
  the second header byte and the input are, an accepted length is at most that, and a 64-bit length
  above it is refused before any payload is read.\<close>

theorem ws_length_bounded:
  assumes "ws_read_len inp (h AND 0x7F) = (Ok n, rest)"
  shows "n \<le> 2147483647 \<and>
    (\<forall>v more. v > 2147483647 \<longrightarrow> ws_read_len (put_uint64 v @ more) 127 =
       (Err (Protocol_Error ''websocket frame too large''), more))"
proof
  have "unat (uint16_be a b) \<le> 2147483647" for a b
    using unat_16_le [of "uint16_be a b"] by simp
  moreover have "unat v \<le> 2147483647" if "\<not> v > 2147483647" for v :: "64 word"
    using that by (simp add: word_less_nat_alt)
  moreover have "unat (h AND 0x7F) \<le> 2147483647"
    using unsigned_less [of "h AND 0x7F", where 'a = nat] by simp
  ultimately show "n \<le> 2147483647"
    using assms by (auto simp: ws_read_len_def Let_def split: if_splits sum.splits)
  show "\<forall>v more. v > 2147483647 \<longrightarrow> ws_read_len (put_uint64 v @ more) 127 =
       (Err (Protocol_Error ''websocket frame too large''), more)"
    by (simp add: ws_read_len_def read_full_append uint64_be_put)
qed

theorem ws_length_bounded_witness:
  "(256 :: nat) \<le> 2147483647 \<and> ws_read_len (put_uint64 2147483648 @ [1]) 127 =
     (Err (Protocol_Error ''websocket frame too large''), [1])"
proof -
  have "ws_read_len [1, 0, 9] (0xFE AND 0x7F) = (Ok 256, [9])" by code_simp
  from ws_length_bounded [OF this] show ?thesis by simp
qed

end
