(* ===== verification/Http_Dial.thy ===== *)
theory Http_Dial
  imports Control Ws_Frame
begin

text \<open>
  The HTTP exchanges in front of a control connection, from \<open>internal/tunnel/runner.go\<close>: the websocket
  upgrade and the CONNECT request, what the client writes and how it reads the reply
  (\<open>dialWSControl\<close>, \<open>dialHTTPConnectControl\<close>), what the handlers of the server check and write
  (\<open>serveWSControl\<close>, \<open>serveHTTPConnectControl\<close>). The parsing of requests is the HTTP server's;
  the handlers are functions of the header values. Random numbers, SHA-1 and base64 are parameters.
\<close>

section \<open>Texts\<close>

abbreviation crlf :: string where "crlf \<equiv> [CHR 0x0D, CHR 0x0A]"



definition ws_guid :: string where
  "ws_guid = ''258EAFA5-E914-47DA-95CA-C5AB0DC85B11''"

definition websocket_accept :: "(bytes \<Rightarrow> bytes) \<Rightarrow> (bytes \<Rightarrow> string) \<Rightarrow> string \<Rightarrow> string" where
  "websocket_accept sha1 base64 k = base64 (sha1 (bytes_of (k @ ws_guid)))"

section \<open>The handlers of the server\<close>






section \<open>The client\<close>

text \<open>The lines up to the empty one.\<close>

function skip_headers :: "bytes \<Rightarrow> (io_error, bytes) result" where
  "skip_headers inp =
     (case read_string_nl inp of
        Inl e \<Rightarrow> Err e
      | Inr (line, rest) \<Rightarrow> if string_of line = crlf then Ok rest else skip_headers rest)"
  by pat_completeness auto
termination
  by (relation "measure length") (auto dest!: read_string_nl_Ok)

declare skip_headers.simps [simp del]

text \<open>The status line has to contain the digits of the expected status anywhere.\<close>

definition read_reply :: "string \<Rightarrow> string \<Rightarrow> bytes \<Rightarrow> (io_error, bytes) result" where
  "read_reply status_code failure inp =
     (case read_string_nl inp of
        Inl e \<Rightarrow> Err e
      | Inr (status, rest) \<Rightarrow>
          if \<not> sublist status_code (string_of status)
          then Err (Protocol_Error (failure @ trim_space (string_of status)))
          else skip_headers rest)"




section \<open>Both sides agree\<close>

lemma skip_headers_line:
  "CHR 0x0A \<notin> set l \<Longrightarrow>
   skip_headers (bytes_of (l @ crlf) @ rest) = (if l = [] then Ok rest else skip_headers rest)"
proof -
  assume l: "CHR 0x0A \<notin> set l"
  then have "CHR 0x0A \<notin> set (l @ [CHR 0x0D])" by simp
  from read_text_line [OF this, of rest]
  have "read_string_nl (bytes_of (l @ crlf) @ rest) = Ok (bytes_of (l @ crlf), rest)" by simp
  then show ?thesis
    by (subst skip_headers.simps) (simp only: sum.case prod.case string_of_bytes_of append_self_conv2)
qed

definition reply_text :: "string \<Rightarrow> string list \<Rightarrow> string" where
  "reply_text status headers = status @ crlf @ concat (map (\<lambda>h. h @ crlf) headers) @ crlf"

lemma skip_headers_text:
  "list_all (\<lambda>h. h \<noteq> [] \<and> CHR 0x0A \<notin> set h) headers \<Longrightarrow>
   skip_headers (bytes_of (concat (map (\<lambda>h. h @ crlf) headers) @ crlf) @ rest) = Ok rest"
proof (induction headers)
  case Nil
  show ?case using skip_headers_line [of "[]" rest] by simp
next
  case (Cons h headers)
  then have "skip_headers (bytes_of (h @ crlf) @
      (bytes_of (concat (map (\<lambda>h. h @ crlf) headers) @ crlf) @ rest)) = Ok rest"
    by (subst skip_headers_line) simp_all
  then show ?case by (simp only: list.map concat.simps append_assoc bytes_of_append)
qed

text \<open>How the client takes a reply: the status line decides, the headers are skipped, what follows them
  stays in the reader.\<close>

lemma read_reply_text:
  assumes "CHR 0x0A \<notin> set status" "list_all (\<lambda>h. h \<noteq> [] \<and> CHR 0x0A \<notin> set h) headers"
  shows "read_reply code failure (bytes_of (reply_text status headers) @ rest) =
    (if sublist code (status @ crlf) then Ok rest
     else Err (Protocol_Error (failure @ trim_space (status @ crlf))))"
proof -
  have "CHR 0x0A \<notin> set (status @ [CHR 0x0D])" using assms(1) by simp
  from read_text_line [OF this]
  have "read_string_nl (bytes_of (status @ crlf) @ s) = Ok (bytes_of (status @ crlf), s)" for s by simp
  moreover have "bytes_of (reply_text status headers) @ rest =
      bytes_of (status @ crlf) @ (bytes_of (concat (map (\<lambda>h. h @ crlf) headers) @ crlf) @ rest)"
    by (simp only: reply_text_def bytes_of_append append_assoc)
  ultimately show ?thesis
    by (simp only: read_reply_def sum.case prod.case string_of_bytes_of skip_headers_text [OF assms(2)] if_not_P)
      simp
qed







text \<open>The client looks for the digits of the status anywhere in the status line: a refusal that contains
  them, in its reason for instance, is taken for success.\<close>

theorem status_matched_anywhere:
  assumes "CHR 0x0A \<notin> set a" "CHR 0x0A \<notin> set b"
    and "list_all (\<lambda>h. h \<noteq> [] \<and> CHR 0x0A \<notin> set h) headers"
  shows "read_reply ''200'' failure (bytes_of (reply_text (a @ ''200'' @ b) headers) @ rest) = Ok rest"
proof -
  have "sublist ''200'' ((a @ ''200'' @ b) @ crlf)"
    unfolding sublist_def by (intro exI [of _ a] exI [of _ "b @ crlf"]) simp
  with assms show ?thesis by (simp add: read_reply_text)
qed

theorem status_matched_anywhere_witness:
  "read_reply ''200'' ''http connect failed: ''
     (bytes_of (reply_text (''HTTP/1.1 407 '' @ ''200'' @ '' users allowed'') []) @ [5]) = Ok [5]"
  by (rule status_matched_anywhere) simp_all

end
