(* ===== verification/Mux.thy ===== *)
theory Mux
  imports Go_Chan "HOL-Library.AList"
begin

text \<open>
  The stream multiplexer of \<open>internal/tunnel/runner.go\<close> (\<open>simpleMuxSession\<close>, \<open>simpleMuxStream\<close>,
  \<open>simpleMuxHolder\<close>). A session is one connection and a table from stream ids to streams; streams
  are Go pointers, so the model keeps every stream ever created in a heap (a list) and the table,
  the accept queue and the callers hold indices into it. A method that can panic returns an
  \<open>outcome\<close>.
\<close>

section \<open>Frames\<close>

definition frame_open :: byte where "frame_open = 1"
definition frame_data :: byte where "frame_data = 2"
definition frame_close :: byte where "frame_close = 3"

lemmas frame_type_defs = frame_open_def frame_data_def frame_close_def

definition mux_header :: "byte \<Rightarrow> 32 word \<Rightarrow> nat \<Rightarrow> bytes" where
  "mux_header ft sid n = ft # put_uint32 sid @ put_uint32 (of_nat n)"

text \<open>The writes of \<open>writeFrame\<close>: the header, then the payload when there is one.\<close>

definition write_mux_frame ::
  "'w write_op \<Rightarrow> 'w \<Rightarrow> byte \<Rightarrow> 32 word \<Rightarrow> bytes \<Rightarrow> io_error option \<times> 'w" where
  "write_mux_frame wr w ft sid payload =
     (let hdr = mux_header ft sid (length payload) in
      if payload = [] then (case wr w hdr of ((_, e), w') \<Rightarrow> (e, w'))
      else write2 wr w hdr payload)"

text \<open>One round of \<open>readLoop\<close>: nine bytes of header, then the payload.\<close>

definition read_mux_frame ::
  "bytes \<Rightarrow> (io_error, (byte \<times> 32 word \<times> bytes) \<times> bytes) result" where
  "read_mux_frame s =
     (case read_full 9 s of
        Inl e \<Rightarrow> Err e
      | Inr (hdr, rest) \<Rightarrow>
          (let ft = hdr ! 0;
               sid = uint32_be (hdr ! 1) (hdr ! 2) (hdr ! 3) (hdr ! 4);
               n = uint32_be (hdr ! 5) (hdr ! 6) (hdr ! 7) (hdr ! 8)
           in if n > 0
              then (case read_full (unat n) rest of
                      Inl e \<Rightarrow> Err e
                    | Inr (payload, rest') \<Rightarrow> Ok ((ft, sid, payload), rest'))
              else Ok ((ft, sid, []), rest)))"

definition mux_frame :: "byte \<Rightarrow> 32 word \<Rightarrow> bytes \<Rightarrow> bytes" where
  "mux_frame ft sid payload = mux_header ft sid (length payload) @ payload"

lemma mux_header_length [simp]: "length (mux_header ft sid n) = 9"
  by (simp add: mux_header_def)

lemma mux_frame_length [simp]: "length (mux_frame ft sid p) = 9 + length p"
  by (simp add: mux_frame_def)

context io_writer_full
begin

lemma write_mux_frame_ok:
  "write_mux_frame wr w ft sid p = (None, w') \<Longrightarrow> sent w' = sent w @ mux_frame ft sid p"
  by (auto simp: write_mux_frame_def mux_frame_def Let_def split: if_splits prod.splits
      dest: write_ok write2_ok)

end

lemma read_mux_frame_frame [frame_simps]:
  assumes "length p < 4294967296"
  shows "read_mux_frame (mux_frame ft sid p @ rest) = Ok ((ft, sid, p), rest)"
proof -
  have h: "read_full 9 (mux_frame ft sid p @ rest) = Ok (mux_header ft sid (length p), p @ rest)"
    by (simp add: mux_frame_def read_full_append)
  have n: "unat (word_of_nat (length p) :: 32 word) = length p"
    using assms by (rule unat_of_nat32)
  then have z: "(word_of_nat (length p) :: 32 word) > 0 \<longleftrightarrow> p \<noteq> []"
    by (metis length_greater_0_conv unat_gt_0 word_gt_0)
  show ?thesis
    unfolding read_mux_frame_def h
    by (simp add: mux_header_def put_uint32_def z n read_full_append Let_def)
qed

lemma read_mux_frame_shrinks:
  "read_mux_frame s = Ok (f, rest) \<Longrightarrow> length rest + 9 \<le> length s"
  by (auto simp: read_mux_frame_def Let_def split: sum.splits prod.splits if_splits dest!: read_full_Ok)

section \<open>Streams and sessions\<close>

text \<open>\<open>stream_closeOnce\<close> tells whether \<open>closeOnce\<close> has fired; the mutex and the condition variable
  of a stream make its methods atomic and have no state of their own. The deadlines are stored by
  the program and never read.\<close>

record mux_stream =
  stream_id :: "32 word"
  stream_readCh :: "bytes chan"
  stream_readBuf :: bytes
  stream_readClosed :: bool
  stream_closeOnce :: bool
  stream_localClosed :: bool

definition new_mux_stream :: "32 word \<Rightarrow> mux_stream" where
  "new_mux_stream sid =
     \<lparr>stream_id = sid, stream_readCh = make_chan 256, stream_readBuf = [],
      stream_readClosed = False, stream_closeOnce = False, stream_localClosed = False\<rparr>"

record mux_session =
  sess_conn :: net_conn
  sess_heap :: "mux_stream list"
  sess_streams :: "(32 word \<times> nat) list"
  sess_acceptCh :: "nat chan"
  sess_nextID :: "32 word"
  sess_closed :: bool
  sess_done :: bool

definition new_mux_session :: "net_conn \<Rightarrow> mux_session" where
  "new_mux_session c =
     \<lparr>sess_conn = c, sess_heap = [], sess_streams = [], sess_acceptCh = make_chan 1024,
      sess_nextID = 1, sess_closed = False, sess_done = False\<rparr>"

datatype outcome = Next mux_session | Panics

definition stream_at :: "mux_session \<Rightarrow> nat \<Rightarrow> mux_stream" where
  "stream_at s r = sess_heap s ! r"

definition update_stream :: "nat \<Rightarrow> (mux_stream \<Rightarrow> mux_stream) \<Rightarrow> mux_session \<Rightarrow> mux_session" where
  "update_stream r f s = s\<lparr>sess_heap := (sess_heap s)[r := f (sess_heap s ! r)]\<rparr>"

definition alloc_stream :: "32 word \<Rightarrow> mux_session \<Rightarrow> nat \<times> mux_session" where
  "alloc_stream sid s =
     (length (sess_heap s), s\<lparr>sess_heap := sess_heap s @ [new_mux_stream sid]\<rparr>)"

definition get_stream :: "mux_session \<Rightarrow> 32 word \<Rightarrow> nat option" where
  "get_stream s sid = map_of (sess_streams s) sid"

definition remove_stream :: "32 word \<Rightarrow> mux_session \<Rightarrow> mux_session" where
  "remove_stream sid s = s\<lparr>sess_streams := AList.delete sid (sess_streams s)\<rparr>"

definition put_stream :: "32 word \<Rightarrow> nat \<Rightarrow> mux_session \<Rightarrow> mux_session" where
  "put_stream sid r s = s\<lparr>sess_streams := AList.update sid r (sess_streams s)\<rparr>"

text \<open>\<open>writeFrame\<close> of the session.\<close>

definition session_write_frame ::
  "byte \<Rightarrow> 32 word \<Rightarrow> bytes \<Rightarrow> mux_session \<Rightarrow> io_error option \<times> mux_session" where
  "session_write_frame ft sid payload s =
     (if sess_closed s then (Some EOF, s)
      else (case write_mux_frame conn_write (sess_conn s) ft sid payload of
              (e, c) \<Rightarrow> (e, s\<lparr>sess_conn := c\<rparr>)))"

definition remote_close :: "mux_stream \<Rightarrow> mux_stream" where
  "remote_close st =
     (if stream_closeOnce st then st
      else st\<lparr>stream_closeOnce := True, stream_readCh := chan_close (stream_readCh st)\<rparr>)"

definition stream_close :: "nat \<Rightarrow> mux_session \<Rightarrow> mux_session" where
  "stream_close r s =
     (if stream_localClosed (stream_at s r) then s
      else
        (let sid = stream_id (stream_at s r);
             s1 = update_stream r (\<lambda>st. st\<lparr>stream_localClosed := True\<rparr>) s;
             s2 = remove_stream sid s1;
             (_, s3) = session_write_frame frame_close sid [] s2
         in update_stream r remote_close s3))"

text \<open>\<open>pushData\<close>: an overflowing queue closes the stream, a closed queue panics.\<close>

definition push_data :: "nat \<Rightarrow> bytes \<Rightarrow> mux_session \<Rightarrow> outcome" where
  "push_data r p s =
     (if p = [] then Next s
      else (case try_send (stream_readCh (stream_at s r)) p of
              Sent c \<Rightarrow> Next (update_stream r (\<lambda>st. st\<lparr>stream_readCh := c\<rparr>) s)
            | Send_Blocks \<Rightarrow> Next (stream_close r s)
            | Send_Panics \<Rightarrow> Panics))"

definition handle_frame :: "byte \<Rightarrow> 32 word \<Rightarrow> bytes \<Rightarrow> mux_session \<Rightarrow> outcome" where
  "handle_frame ft sid payload s =
     (if ft = frame_open then
        (let (r, s1) = alloc_stream sid s;
             s2 = put_stream sid r s1
         in case try_send (sess_acceptCh s2) r of
              Sent c \<Rightarrow> Next (s2\<lparr>sess_acceptCh := c\<rparr>)
            | Send_Blocks \<Rightarrow> Next (stream_close r s2)
            | Send_Panics \<Rightarrow> Panics)
      else if ft = frame_data then
        (case get_stream s sid of
           None \<Rightarrow> Next s
         | Some r \<Rightarrow> push_data r payload s)
      else if ft = frame_close then
        (case get_stream s sid of
           None \<Rightarrow> Next s
         | Some r \<Rightarrow> Next (remove_stream sid (update_stream r remote_close s)))
      else Next s)"

text \<open>\<open>Close\<close> of the session: every stream of the table sees the end of its data.\<close>

definition session_close :: "mux_session \<Rightarrow> mux_session" where
  "session_close s =
     (if sess_closed s then s
      else
        (let s1 = s\<lparr>sess_closed := True, sess_done := True, sess_conn := conn_close (sess_conn s)\<rparr>;
             s2 = fold (\<lambda>(_, r). update_stream r remote_close) (sess_streams s1) s1
         in s2\<lparr>sess_streams := []\<rparr>))"

definition open_stream :: "mux_session \<Rightarrow> (io_error, nat) result \<times> mux_session" where
  "open_stream s =
     (if sess_closed s then (Err EOF, s)
      else
        (let sid = sess_nextID s + 1;
             (r, s1) = alloc_stream sid (s\<lparr>sess_nextID := sid\<rparr>);
             s2 = put_stream sid r s1
         in case session_write_frame frame_open sid [] s2 of
              (Some e, s3) \<Rightarrow> (Err e, remove_stream sid s3)
            | (None, s3) \<Rightarrow> (Ok r, s3)))"

text \<open>\<open>Accept\<close> selects among the ready cases; the choice is the scheduler's. \<open>None\<close> means the chosen
  case is not ready.\<close>

datatype accept_case = Case_Stream | Case_Done | Case_Ctx io_error

definition session_accept ::
  "accept_case \<Rightarrow> mux_session \<Rightarrow> ((io_error, nat) result \<times> mux_session) option" where
  "session_accept choice s =
     (case choice of
        Case_Stream \<Rightarrow>
          (case try_recv (sess_acceptCh s) of
             Received r c \<Rightarrow> Some (Ok r, s\<lparr>sess_acceptCh := c\<rparr>)
           | _ \<Rightarrow> None)
      | Case_Done \<Rightarrow> if sess_done s then Some (Err EOF, s) else None
      | Case_Ctx e \<Rightarrow> Some (Err e, s))"

text \<open>One round of \<open>ingestLoop\<close>: a queued payload moves to the buffer; once the queue is closed and
  drained, the stream is at its end. On an empty open queue the loop waits.\<close>

definition ingest :: "mux_stream \<Rightarrow> mux_stream" where
  "ingest st =
     (case try_recv (stream_readCh st) of
        Received p c \<Rightarrow> st\<lparr>stream_readCh := c, stream_readBuf := stream_readBuf st @ p\<rparr>
      | Recv_Closed \<Rightarrow> st\<lparr>stream_readClosed := True\<rparr>
      | Recv_Blocks \<Rightarrow> st)"

text \<open>\<open>Read\<close>; \<open>None\<close> means it waits.\<close>

definition stream_read :: "nat \<Rightarrow> mux_stream \<Rightarrow> ((io_error, bytes) result \<times> mux_stream) option" where
  "stream_read n st =
     (if stream_readBuf st = [] then
        (if stream_readClosed st then Some (Err EOF, st) else None)
      else (case buffer_read n (stream_readBuf st) of
              (b, rest) \<Rightarrow> Some (Ok b, st\<lparr>stream_readBuf := rest\<rparr>)))"

definition max_chunk :: nat where
  "max_chunk = 32 * 1024"

text \<open>\<open>Write\<close>: one data frame per 32 KiB; the number of bytes written and the error.\<close>

function stream_write_loop ::
  "32 word \<Rightarrow> nat \<Rightarrow> bytes \<Rightarrow> mux_session \<Rightarrow> (nat \<times> io_error option) \<times> mux_session" where
  "stream_write_loop sid written p s =
     (if p = [] then ((written, None), s)
      else
        (let chunk = take max_chunk p in
         case session_write_frame frame_data sid chunk s of
           (Some e, s') \<Rightarrow> ((written, Some e), s')
         | (None, s') \<Rightarrow>
             stream_write_loop sid (written + length chunk) (drop (length chunk) p) s'))"
  by pat_completeness auto
termination
  by (relation "measure (\<lambda>(_, _, p, _). length p)") (auto simp: max_chunk_def)

declare stream_write_loop.simps [simp del]

definition stream_write ::
  "nat \<Rightarrow> bytes \<Rightarrow> mux_session \<Rightarrow> (nat \<times> io_error option) \<times> mux_session" where
  "stream_write r p s =
     (if stream_localClosed (stream_at s r) \<or> sess_closed s then ((0, Some EOF), s)
      else stream_write_loop (stream_id (stream_at s r)) 0 p s)"

text \<open>One round of \<open>readLoop\<close> on the bytes the connection still delivers (none once it is closed): a
  read error closes the session.\<close>

definition read_step :: "mux_session \<Rightarrow> outcome" where
  "read_step s =
     (case read_mux_frame (if closed (sess_conn s) then [] else rx (sess_conn s)) of
        Inl e \<Rightarrow> Next (session_close s)
      | Inr ((ft, sid, payload), rest) \<Rightarrow>
          handle_frame ft sid payload (s\<lparr>sess_conn := (sess_conn s)\<lparr>rx := rest\<rparr>\<rparr>))"

section \<open>The session invariant\<close>

definition stream_ok :: "mux_stream \<Rightarrow> bool" where
  "stream_ok st \<longleftrightarrow>
     length (queue (stream_readCh st)) \<le> 256 \<and> capacity (stream_readCh st) = 256 \<and>
     chan_closed (stream_readCh st) = stream_closeOnce st \<and>
     (stream_readClosed st \<longrightarrow> chan_closed (stream_readCh st) \<and> queue (stream_readCh st) = [])"

definition table_ok :: "mux_session \<Rightarrow> bool" where
  "table_ok s \<longleftrightarrow>
     (\<forall>sid r. map_of (sess_streams s) sid = Some r \<longrightarrow>
        r < length (sess_heap s) \<and> stream_id (stream_at s r) = sid \<and>
        \<not> stream_closeOnce (stream_at s r) \<and> \<not> stream_localClosed (stream_at s r))"

definition accept_ok :: "mux_session \<Rightarrow> bool" where
  "accept_ok s \<longleftrightarrow>
     length (queue (sess_acceptCh s)) \<le> 1024 \<and> capacity (sess_acceptCh s) = 1024 \<and>
     \<not> chan_closed (sess_acceptCh s) \<and>
     list_all (\<lambda>r. r < length (sess_heap s)) (queue (sess_acceptCh s))"

definition mux_inv :: "mux_session \<Rightarrow> bool" where
  "mux_inv s \<longleftrightarrow>
     list_all stream_ok (sess_heap s) \<and> table_ok s \<and> distinct (map fst (sess_streams s)) \<and>
     accept_ok s \<and> sess_done s = sess_closed s \<and> (sess_closed s \<longrightarrow> closed (sess_conn s))"

lemma update_stream_fields [simp]:
  "sess_conn (update_stream r f s) = sess_conn s"
  "sess_streams (update_stream r f s) = sess_streams s"
  "sess_acceptCh (update_stream r f s) = sess_acceptCh s"
  "sess_nextID (update_stream r f s) = sess_nextID s"
  "sess_closed (update_stream r f s) = sess_closed s"
  "sess_done (update_stream r f s) = sess_done s"
  "length (sess_heap (update_stream r f s)) = length (sess_heap s)"
  by (simp_all add: update_stream_def)

lemma stream_at_update [simp]:
  "r < length (sess_heap s) \<Longrightarrow>
     stream_at (update_stream r f s) q = (if q = r then f (stream_at s r) else stream_at s q)"
  by (simp add: stream_at_def update_stream_def)

lemma remove_stream_fields [simp]:
  "sess_conn (remove_stream sid s) = sess_conn s"
  "sess_heap (remove_stream sid s) = sess_heap s"
  "sess_acceptCh (remove_stream sid s) = sess_acceptCh s"
  "sess_nextID (remove_stream sid s) = sess_nextID s"
  "sess_closed (remove_stream sid s) = sess_closed s"
  "sess_done (remove_stream sid s) = sess_done s"
  "stream_at (remove_stream sid s) q = stream_at s q"
  "map_of (sess_streams (remove_stream sid s)) = (map_of (sess_streams s))(sid := None)"
  by (simp_all add: remove_stream_def delete_conv' stream_at_def)

lemma put_stream_fields [simp]:
  "sess_conn (put_stream sid r s) = sess_conn s"
  "sess_heap (put_stream sid r s) = sess_heap s"
  "sess_acceptCh (put_stream sid r s) = sess_acceptCh s"
  "sess_nextID (put_stream sid r s) = sess_nextID s"
  "sess_closed (put_stream sid r s) = sess_closed s"
  "sess_done (put_stream sid r s) = sess_done s"
  "stream_at (put_stream sid r s) q = stream_at s q"
  "map_of (sess_streams (put_stream sid r s)) = (map_of (sess_streams s))(sid \<mapsto> r)"
  by (simp_all add: put_stream_def update_conv' stream_at_def)

lemma write_mux_frame_conn:
  assumes "write_mux_frame conn_write c ft sid p = (e, c')"
  shows "rx c' = rx c \<and> closed c' = closed c"
proof (cases "conn_write c (mux_header ft sid (length p))")
  case (Pair ne c1)
  obtain n e1 where ne: "ne = (n, e1)" by (cases ne)
  have 1: "rx c1 = rx c \<and> closed c1 = closed c" using Pair ne conn_write_frame by blast
  obtain m e2 c2 where 2: "conn_write c1 p = ((m, e2), c2)" by (cases "conn_write c1 p") auto
  then have "rx c2 = rx c1 \<and> closed c2 = closed c1" using conn_write_frame by blast
  with 1 2 assms Pair ne show ?thesis
    by (cases e1) (auto simp: write_mux_frame_def write2_def Let_def split: if_splits)
qed

lemma session_write_frame_cases:
  assumes "session_write_frame ft sid p s = (e, s')"
  obtains c where "s' = s\<lparr>sess_conn := c\<rparr>" "rx c = rx (sess_conn s)"
    "closed c = closed (sess_conn s)"
proof (cases "sess_closed s")
  case True
  with assms that [of "sess_conn s"] show ?thesis by (simp add: session_write_frame_def)
next
  case False
  obtain e2 c2 where w: "write_mux_frame conn_write (sess_conn s) ft sid p = (e2, c2)"
    by (cases "write_mux_frame conn_write (sess_conn s) ft sid p")
  with assms False that write_mux_frame_conn [OF w] show ?thesis
    by (fastforce simp: session_write_frame_def)
qed

lemma mux_inv_new [simp]: "mux_inv (new_mux_session c)"
  by (simp add: mux_inv_def new_mux_session_def table_ok_def accept_ok_def)

lemma stream_ok_new [simp]: "stream_ok (new_mux_stream sid)"
  by (simp add: stream_ok_def new_mux_stream_def)

lemma stream_ok_remote_close [simp]: "stream_ok st \<Longrightarrow> stream_ok (remote_close st)"
  by (auto simp: stream_ok_def remote_close_def)

lemma remote_close_fields [simp]:
  "stream_id (remote_close st) = stream_id st"
  "stream_localClosed (remote_close st) = stream_localClosed st"
  "stream_closeOnce (remote_close st)"
  "queue (stream_readCh (remote_close st)) = queue (stream_readCh st)"
  "stream_readBuf (remote_close st) = stream_readBuf st"
  by (auto simp: remote_close_def)

lemma stream_ok_ingest [simp]: "stream_ok st \<Longrightarrow> stream_ok (ingest st)"
  by (auto simp: stream_ok_def ingest_def try_recv_def split: list.splits)

lemma ingest_fields [simp]:
  "stream_id (ingest st) = stream_id st"
  "stream_localClosed (ingest st) = stream_localClosed st"
  "stream_closeOnce (ingest st) = stream_closeOnce st"
  by (auto simp: ingest_def split: recv_result.splits)

lemma stream_read_ok:
  "stream_read n st = Some (res, st') \<Longrightarrow> stream_ok st \<Longrightarrow>
     stream_ok st' \<and> stream_id st' = stream_id st \<and> stream_closeOnce st' = stream_closeOnce st \<and>
     stream_localClosed st' = stream_localClosed st"
  by (auto simp: stream_read_def stream_ok_def buffer_read_def split: if_splits)

text \<open>The two ways an operation changes a stream: keeping it usable, or after taking it out of the
  table.\<close>

lemma mux_inv_update:
  assumes "mux_inv s" "r < length (sess_heap s)" "stream_ok (f (stream_at s r))"
    and "r \<in> ran (map_of (sess_streams s)) \<Longrightarrow>
      stream_id (f (stream_at s r)) = stream_id (stream_at s r) \<and>
      \<not> stream_closeOnce (f (stream_at s r)) \<and> \<not> stream_localClosed (f (stream_at s r))"
  shows "mux_inv (update_stream r f s)"
proof -
  have "list_all stream_ok (sess_heap (update_stream r f s))"
    using assms(1,3) unfolding mux_inv_def update_stream_def stream_at_def
    by (simp add: list_all_length) (metis nth_list_update_eq nth_list_update_neq)
  moreover have "table_ok (update_stream r f s)"
    using assms by (auto simp: mux_inv_def table_ok_def ranI)
  moreover have "accept_ok (update_stream r f s)"
    using assms(1) by (simp add: mux_inv_def accept_ok_def)
  ultimately show ?thesis using assms(1) by (simp add: mux_inv_def)
qed

lemma mux_inv_remove: "mux_inv s \<Longrightarrow> mux_inv (remove_stream sid s)"
  by (auto simp: mux_inv_def table_ok_def accept_ok_def remove_stream_def stream_at_def
      delete_conv' intro!: distinct_delete)

lemma mux_inv_conn:
  "mux_inv s \<Longrightarrow> closed c = closed (sess_conn s) \<Longrightarrow> mux_inv (s\<lparr>sess_conn := c\<rparr>)"
  by (simp add: mux_inv_def table_ok_def accept_ok_def stream_at_def)

lemma mux_inv_write_frame:
  assumes "mux_inv s" "session_write_frame ft sid p s = (e, s')"
  shows "mux_inv s'"
  using assms(2) by (rule session_write_frame_cases) (simp add: assms(1) mux_inv_conn)

lemma alloc_stream_result:
  assumes "alloc_stream sid s = (r, s')"
  shows "r = length (sess_heap s)" "r < length (sess_heap s')"
    "stream_at s' r = new_mux_stream sid" "sess_acceptCh s' = sess_acceptCh s"
    "sess_streams s' = sess_streams s" "sess_heap s' = sess_heap s @ [new_mux_stream sid]"
    "sess_conn s' = sess_conn s" "sess_closed s' = sess_closed s" "sess_done s' = sess_done s"
    "sess_nextID s' = sess_nextID s"
  using assms by (auto simp: alloc_stream_def stream_at_def)

lemma mux_inv_alloc:
  assumes "mux_inv s" "alloc_stream sid s = (r, s')"
  shows "mux_inv s'"
proof -
  note a = alloc_stream_result [OF assms(2)]
  have "table_ok s'"
    using assms(1) unfolding mux_inv_def table_ok_def stream_at_def a
    by (auto simp: nth_append intro: less_SucI)
  moreover have "accept_ok s'"
    using assms(1) by (auto simp: mux_inv_def accept_ok_def a list_all_iff intro: less_SucI)
  ultimately show ?thesis using assms(1) by (simp add: mux_inv_def a)
qed

lemma mux_inv_put:
  "mux_inv s \<Longrightarrow> r < length (sess_heap s) \<Longrightarrow> stream_at s r = new_mux_stream sid \<Longrightarrow>
     mux_inv (put_stream sid r s)"
  by (auto simp: mux_inv_def table_ok_def accept_ok_def put_stream_def stream_at_def
      update_conv' new_mux_stream_def intro!: distinct_update)

lemma table_ran:
  "mux_inv s \<Longrightarrow> r \<in> ran (map_of (sess_streams s)) \<Longrightarrow>
     r < length (sess_heap s) \<and> map_of (sess_streams s) (stream_id (stream_at s r)) = Some r \<and>
     \<not> stream_closeOnce (stream_at s r) \<and> \<not> stream_localClosed (stream_at s r)"
  by (auto simp: mux_inv_def table_ok_def ran_def)

lemma removed_not_ran:
  assumes "mux_inv s"
  shows "r \<notin> ran (map_of (sess_streams (remove_stream (stream_id (stream_at s r)) s)))"
proof
  assume "r \<in> ran (map_of (sess_streams (remove_stream (stream_id (stream_at s r)) s)))"
  then obtain k where "k \<noteq> stream_id (stream_at s r)" "map_of (sess_streams s) k = Some r"
    by (auto simp: ran_def split: if_splits)
  with table_ran [OF assms ranI] assms show False
    unfolding mux_inv_def table_ok_def by blast
qed

section \<open>Every operation keeps the invariant\<close>

lemma mux_inv_stream_close:
  assumes "mux_inv s" "r < length (sess_heap s)"
  shows "mux_inv (stream_close r s) \<and> sess_heap (stream_close r s) =
    (if stream_localClosed (stream_at s r) then sess_heap s
     else (sess_heap s)[r := remote_close ((stream_at s r)\<lparr>stream_localClosed := True\<rparr>)])"
proof (cases "stream_localClosed (stream_at s r)")
  case True
  then show ?thesis using assms by (simp add: stream_close_def)
next
  case False
  define sid where "sid = stream_id (stream_at s r)"
  define mark where "mark st = st\<lparr>stream_localClosed := True\<rparr>" for st :: mux_stream
  have mark: "mark = stream_localClosed_update (\<lambda>_. True)" by (rule ext) (simp add: mark_def)
  obtain e s3 where w: "session_write_frame frame_close sid [] (update_stream r mark (remove_stream sid s)) = (e, s3)"
    by (cases "session_write_frame frame_close sid [] (update_stream r mark (remove_stream sid s))")
  have swap: "remove_stream sid (update_stream r mark s) = update_stream r mark (remove_stream sid s)"
    by (simp add: remove_stream_def update_stream_def)
  have res: "stream_close r s = update_stream r remote_close s3"
    using False w swap [unfolded sid_def] by (simp add: stream_close_def Let_def sid_def mark)
  have gone: "r \<notin> ran (map_of (sess_streams (remove_stream sid s)))"
    using removed_not_ran [OF assms(1)] unfolding sid_def .
  have ok: "stream_ok (stream_at s r)"
    using assms by (simp add: mux_inv_def list_all_length stream_at_def)
  have "mux_inv (update_stream r mark (remove_stream sid s))"
    using assms ok gone
    by (intro mux_inv_update mux_inv_remove) (auto simp: mark_def stream_ok_def)
  then have inv3: "mux_inv s3" using w by (rule mux_inv_write_frame)
  obtain c where s3: "s3 = (update_stream r mark (remove_stream sid s))\<lparr>sess_conn := c\<rparr>"
    using w by (rule session_write_frame_cases)
  have "r < length (sess_heap s3)" "r \<notin> ran (map_of (sess_streams s3))"
    using assms gone by (simp_all add: s3 del: remove_stream_fields(8))
  moreover from this inv3 have "stream_ok (stream_at s3 r)"
    by (simp add: mux_inv_def list_all_length stream_at_def)
  ultimately have "mux_inv (stream_close r s)"
    unfolding res using inv3 by (intro mux_inv_update) auto
  moreover have "sess_heap (stream_close r s) =
      (sess_heap s)[r := remote_close (mark (stream_at s r))]"
    using assms by (simp add: res s3 update_stream_def stream_at_def)
  ultimately show ?thesis using False by (simp add: mark_def)
qed

lemma stream_close_length:
  "mux_inv s \<Longrightarrow> r < length (sess_heap s) \<Longrightarrow>
     length (sess_heap (stream_close r s)) = length (sess_heap s)"
  by (simp add: mux_inv_stream_close)

text \<open>What a step may do to the heap: streams are never moved or freed.\<close>

definition good :: "mux_session \<Rightarrow> mux_session \<Rightarrow> bool" where
  "good s s' \<longleftrightarrow> mux_inv s' \<and> length (sess_heap s) \<le> length (sess_heap s')"

lemma good_refl: "mux_inv s \<Longrightarrow> good s s"
  by (simp add: good_def)

lemma good_close: "mux_inv s \<Longrightarrow> r < length (sess_heap s) \<Longrightarrow> good s (stream_close r s)"
  by (simp add: good_def mux_inv_stream_close)

lemma table_stream_open:
  assumes "mux_inv s" "get_stream s sid = Some r"
  shows "r < length (sess_heap s)" "\<not> chan_closed (stream_readCh (stream_at s r))"
    "stream_ok (stream_at s r)" "stream_id (stream_at s r) = sid"
    "\<not> stream_closeOnce (stream_at s r)" "\<not> stream_localClosed (stream_at s r)"
    "map_of (sess_streams s) sid = Some r"
proof -
  have *: "list_all stream_ok (sess_heap s)" "table_ok s" using assms by (auto simp: mux_inv_def)
  with assms(2) show r: "r < length (sess_heap s)" and "stream_id (stream_at s r) = sid"
    and c: "\<not> stream_closeOnce (stream_at s r)" and "\<not> stream_localClosed (stream_at s r)"
    and "map_of (sess_streams s) sid = Some r"
    by (auto simp: get_stream_def table_ok_def)
  from *(1) r show o: "stream_ok (stream_at s r)" by (simp add: list_all_length stream_at_def)
  with c show "\<not> chan_closed (stream_readCh (stream_at s r))" by (simp add: stream_ok_def)
qed

lemma push_data_table:
  assumes "mux_inv s" "get_stream s sid = Some r"
  shows "\<exists>s'. push_data r p s = Next s' \<and> good s s'"
proof (cases "p = []")
  case True
  then show ?thesis using assms(1) by (simp add: push_data_def good_refl)
next
  case False
  note t = table_stream_open [OF assms]
  show ?thesis
  proof (cases "try_send (stream_readCh (stream_at s r)) p")
    case (Sent c)
    have "stream_ok ((stream_at s r)\<lparr>stream_readCh := c\<rparr>)"
      using Sent t(3) t(2) by (auto simp: stream_ok_def try_send_conv)
    then have "mux_inv (update_stream r (\<lambda>st. st\<lparr>stream_readCh := c\<rparr>) s)"
      using t by (intro mux_inv_update assms(1)) auto
    with Sent False show ?thesis by (simp add: push_data_def good_def)
  next
    case Send_Blocks
    with False show ?thesis using good_close [OF assms(1) t(1)] by (simp add: push_data_def)
  next
    case Send_Panics
    with t(2) show ?thesis by (simp add: try_send_conv)
  qed
qed

lemma handle_frame_good:
  assumes "mux_inv s"
  shows "\<exists>s'. handle_frame ft sid payload s = Next s' \<and> good s s'"
proof -
  consider (Op) "ft = frame_open" | (Data) "ft = frame_data" | (Cl) "ft = frame_close"
    | (Other) "ft \<notin> {frame_open, frame_data, frame_close}" by blast
  then show ?thesis
  proof cases
    case Op
    obtain r s1 where a: "alloc_stream sid s = (r, s1)" by (cases "alloc_stream sid s")
    note r = alloc_stream_result [OF a]
    define s2 where "s2 = put_stream sid r s1"
    have i2: "mux_inv s2" unfolding s2_def
      using mux_inv_put [OF mux_inv_alloc [OF assms a]] r by simp
    have len: "length (sess_heap s) \<le> length (sess_heap s2)" "r < length (sess_heap s2)"
      using r by (simp_all add: s2_def)
    have h: "handle_frame ft sid payload s =
        (case try_send (sess_acceptCh s2) r of
           Sent c \<Rightarrow> Next (s2\<lparr>sess_acceptCh := c\<rparr>)
         | Send_Blocks \<Rightarrow> Next (stream_close r s2)
         | Send_Panics \<Rightarrow> Panics)"
      unfolding handle_frame_def s2_def by (simp add: Op a Let_def)
    show ?thesis
    proof (cases "try_send (sess_acceptCh s2) r")
      case (Sent c)
      then have "mux_inv (s2\<lparr>sess_acceptCh := c\<rparr>)"
        using i2 len by (auto simp: mux_inv_def table_ok_def accept_ok_def stream_at_def try_send_conv)
      with Sent len show ?thesis
        by (simp add: h good_def)
    next
      case Send_Blocks
      with good_close [OF i2 len(2)] len show ?thesis
        by (simp add: h good_def)
    next
      case Send_Panics
      with i2 show ?thesis by (simp add: try_send_conv mux_inv_def accept_ok_def)
    qed
  next
    case Data
    with push_data_table [OF assms] good_refl [OF assms] show ?thesis
      by (cases "get_stream s sid") (auto simp: handle_frame_def frame_type_defs)
  next
    case Cl
    show ?thesis
    proof (cases "get_stream s sid")
      case None
      with Cl good_refl [OF assms] show ?thesis by (simp add: handle_frame_def frame_type_defs)
    next
      case (Some r)
      note t = table_stream_open [OF assms Some]
      have swap: "remove_stream sid (update_stream r remote_close s) =
          update_stream r remote_close (remove_stream sid s)"
        by (simp add: remove_stream_def update_stream_def)
      have "r \<notin> ran (map_of (sess_streams (remove_stream sid s)))"
        using removed_not_ran [OF assms, of r] unfolding t(4) .
      then have "mux_inv (update_stream r remote_close (remove_stream sid s))"
        using t by (intro mux_inv_update mux_inv_remove assms) auto
      with Cl Some show ?thesis by (simp add: handle_frame_def frame_type_defs good_def swap)
    qed
  next
    case Other
    with good_refl [OF assms] show ?thesis by (simp add: handle_frame_def)
  qed
qed

lemma session_close_heap:
  "list_all stream_ok (sess_heap s) \<Longrightarrow>
   list_all stream_ok (sess_heap (fold (\<lambda>(_, r). update_stream r remote_close) al s)) \<and>
   length (sess_heap (fold (\<lambda>(_, r). update_stream r remote_close) al s)) = length (sess_heap s) \<and>
   sess_acceptCh (fold (\<lambda>(_, r). update_stream r remote_close) al s) = sess_acceptCh s \<and>
   sess_closed (fold (\<lambda>(_, r). update_stream r remote_close) al s) = sess_closed s \<and>
   sess_done (fold (\<lambda>(_, r). update_stream r remote_close) al s) = sess_done s \<and>
   sess_conn (fold (\<lambda>(_, r). update_stream r remote_close) al s) = sess_conn s"
proof (induction al arbitrary: s)
  case Nil
  then show ?case by simp
next
  case (Cons kr al)
  obtain k r where kr: "kr = (k, r)" by (cases kr)
  have "list_all stream_ok (sess_heap (update_stream r remote_close s))"
    using Cons.prems
    by (cases "r < length (sess_heap s)")
      (simp_all add: update_stream_def list_all_length nth_list_update)
  from Cons.IH [OF this] show ?case by (simp add: kr)
qed

lemma session_close_good:
  assumes "mux_inv s"
  shows "good s (session_close s)"
proof (cases "sess_closed s")
  case True
  then show ?thesis by (simp add: session_close_def good_refl assms)
next
  case False
  define s1 where
    "s1 = s\<lparr>sess_closed := True, sess_done := True, sess_conn := conn_close (sess_conn s)\<rparr>"
  have "list_all stream_ok (sess_heap s1)" using assms by (simp add: s1_def mux_inv_def)
  note f = session_close_heap [OF this, of "sess_streams s1"]
  have e: "session_close s =
      (fold (\<lambda>(_, r). update_stream r remote_close) (sess_streams s1) s1)\<lparr>sess_streams := []\<rparr>"
    using False by (simp add: session_close_def s1_def)
  show ?thesis
    unfolding good_def e using f assms
    by (simp add: mux_inv_def table_ok_def accept_ok_def s1_def conn_close_def)
qed

lemma open_stream_good:
  assumes "mux_inv s"
  shows "good s (snd (open_stream s)) \<and>
    (\<forall>r. fst (open_stream s) = Ok r \<longrightarrow> r < length (sess_heap (snd (open_stream s))))"
proof (cases "sess_closed s")
  case True
  then show ?thesis by (simp add: open_stream_def good_refl assms)
next
  case False
  define s0 where "s0 = s\<lparr>sess_nextID := sess_nextID s + 1\<rparr>"
  have i0: "mux_inv s0"
    using assms by (simp add: s0_def mux_inv_def table_ok_def accept_ok_def stream_at_def)
  obtain r s1 where a: "alloc_stream (sess_nextID s + 1) s0 = (r, s1)"
    by (cases "alloc_stream (sess_nextID s + 1) s0")
  note r = alloc_stream_result [OF a]
  define s2 where "s2 = put_stream (sess_nextID s + 1) r s1"
  have i2: "mux_inv s2" unfolding s2_def
    using mux_inv_put [OF mux_inv_alloc [OF i0 a]] r by simp
  obtain e s3 where w: "session_write_frame frame_open (sess_nextID s + 1) [] s2 = (e, s3)"
    by (cases "session_write_frame frame_open (sess_nextID s + 1) [] s2")
  have i3: "mux_inv s3" using i2 w by (rule mux_inv_write_frame)
  have h: "sess_heap s3 = sess_heap s @ [new_mux_stream (sess_nextID s + 1)]"
    using w by (rule session_write_frame_cases) (simp add: s2_def r(6), simp add: s0_def)
  have res: "open_stream s = (case e of Some e \<Rightarrow> (Err e, remove_stream (sess_nextID s + 1) s3)
      | None \<Rightarrow> (Ok r, s3))"
    using False a w unfolding open_stream_def s0_def s2_def
    by (simp add: Let_def split: option.splits)
  show ?thesis
    using i3 h r(1) by (cases e) (simp_all add: res good_def mux_inv_remove s0_def)
qed

lemma session_accept_good:
  assumes "mux_inv s" "session_accept choice s = Some (res, s')"
  shows "good s s' \<and> (\<forall>r. res = Ok r \<longrightarrow> r < length (sess_heap s'))"
proof (cases choice)
  case Case_Stream
  with assms(2) obtain r c where rc: "try_recv (sess_acceptCh s) = Received r c"
    "res = Ok r" "s' = s\<lparr>sess_acceptCh := c\<rparr>"
    by (auto simp: session_accept_def split: recv_result.splits)
  then obtain q where q: "queue (sess_acceptCh s) = r # q" "c = (sess_acceptCh s)\<lparr>queue := q\<rparr>"
    by (auto simp: try_recv_def split: list.splits if_splits)
  have "mux_inv s'"
    using assms(1) q by (simp add: rc(3) mux_inv_def table_ok_def accept_ok_def stream_at_def)
  with rc q assms(1) show ?thesis by (simp add: good_def mux_inv_def accept_ok_def)
qed (use assms in \<open>auto simp: session_accept_def good_refl split: if_splits\<close>)

lemma stream_write_loop_conn:
  "stream_write_loop sid n p s = (res, s') \<Longrightarrow>
     \<exists>c. s' = s\<lparr>sess_conn := c\<rparr> \<and> closed c = closed (sess_conn s) \<and> rx c = rx (sess_conn s)"
proof (induction sid n p s arbitrary: s' rule: stream_write_loop.induct)
  case (1 sid n p s)
  show ?case
  proof (cases "p = []")
    case True
    with 1(2) show ?thesis by (intro exI [of _ "sess_conn s"]) (simp add: stream_write_loop.simps)
  next
    case False
    obtain e s1 where w: "session_write_frame frame_data sid (take max_chunk p) s = (e, s1)"
      by (cases "session_write_frame frame_data sid (take max_chunk p) s")
    then obtain c1 where c1: "s1 = s\<lparr>sess_conn := c1\<rparr>" "rx c1 = rx (sess_conn s)"
      "closed c1 = closed (sess_conn s)" by (rule session_write_frame_cases)
    show ?thesis
    proof (cases e)
      case None
      with 1(2) False w have
        "stream_write_loop sid (n + length (take max_chunk p))
           (drop (length (take max_chunk p)) p) s1 = (res, s')"
        by (simp add: stream_write_loop.simps [of sid n p s] Let_def)
      from "1.IH" [OF False refl w [symmetric] None this] c1 show ?thesis by auto
    next
      case (Some e')
      with 1(2) False w c1 show ?thesis
        by (intro exI [of _ c1]) (simp add: stream_write_loop.simps [of sid n p s] Let_def)
    qed
  qed
qed

lemma stream_write_good:
  assumes "mux_inv s"
  shows "good s (snd (stream_write r p s))"
proof (cases "stream_localClosed (stream_at s r) \<or> sess_closed s")
  case True
  then show ?thesis by (simp add: stream_write_def good_refl assms)
next
  case False
  obtain res s' where l: "stream_write_loop (stream_id (stream_at s r)) 0 p s = (res, s')"
    by (cases "stream_write_loop (stream_id (stream_at s r)) 0 p s")
  from stream_write_loop_conn [OF this] False assms mux_inv_conn show ?thesis
    by (auto simp: stream_write_def l good_def)
qed

lemma stream_update_good:
  assumes "mux_inv s" "r < length (sess_heap s)"
    and "stream_ok (f (stream_at s r))" "stream_id (f (stream_at s r)) = stream_id (stream_at s r)"
    and "stream_closeOnce (f (stream_at s r)) = stream_closeOnce (stream_at s r)"
    and "stream_localClosed (f (stream_at s r)) = stream_localClosed (stream_at s r)"
  shows "good s (update_stream r f s)"
  unfolding good_def using assms table_ran [OF assms(1)] by (auto intro!: mux_inv_update)

lemma read_step_good:
  assumes "mux_inv s"
  shows "\<exists>s'. read_step s = Next s' \<and> good s s'"
proof (cases "read_mux_frame (if closed (sess_conn s) then [] else rx (sess_conn s))")
  case (Inl e)
  with session_close_good [OF assms] show ?thesis by (simp add: read_step_def)
next
  case (Inr fr)
  obtain ft sid p rest where fr: "fr = ((ft, sid, p), rest)" by (metis surj_pair)
  let ?s = "s\<lparr>sess_conn := (sess_conn s)\<lparr>rx := rest\<rparr>\<rparr>"
  have "mux_inv ?s" using assms by (intro mux_inv_conn) simp_all
  from handle_frame_good [OF this, of ft sid p] Inr fr show ?thesis
    by (simp add: read_step_def good_def)
qed

section \<open>Steps of a session\<close>

text \<open>What the goroutines that share a session may do next, one whole method call at a time. Stream
  references are those that \<open>OpenStream\<close> and \<open>Accept\<close> have handed out, so they are in the heap.\<close>

datatype mux_event =
    Ev_Open
  | Ev_Read_Loop
  | Ev_Session_Close
  | Ev_Accept accept_case
  | Ev_Ingest nat
  | Ev_Read nat nat
  | Ev_Write nat bytes
  | Ev_Close nat

inductive mux_step :: "mux_session \<Rightarrow> mux_event \<Rightarrow> outcome \<Rightarrow> bool" where
  step_open: "mux_step s Ev_Open (Next (snd (open_stream s)))"
| step_read_loop: "mux_step s Ev_Read_Loop (read_step s)"
| step_session_close: "mux_step s Ev_Session_Close (Next (session_close s))"
| step_accept: "session_accept c s = Some (res, s') \<Longrightarrow> mux_step s (Ev_Accept c) (Next s')"
| step_ingest: "r < length (sess_heap s) \<Longrightarrow>
    mux_step s (Ev_Ingest r) (Next (update_stream r ingest s))"
| step_read: "r < length (sess_heap s) \<Longrightarrow> stream_read n (stream_at s r) = Some (res, st) \<Longrightarrow>
    mux_step s (Ev_Read r n) (Next (update_stream r (\<lambda>_. st) s))"
| step_write: "r < length (sess_heap s) \<Longrightarrow>
    mux_step s (Ev_Write r p) (Next (snd (stream_write r p s)))"
| step_close: "r < length (sess_heap s) \<Longrightarrow> mux_step s (Ev_Close r) (Next (stream_close r s))"

inductive_simps mux_step_read_loop: "mux_step s Ev_Read_Loop res"

inductive mux_reachable :: "mux_session \<Rightarrow> bool" where
  reach_new: "mux_reachable (new_mux_session c)"
| reach_step: "mux_reachable s \<Longrightarrow> mux_step s ev (Next s') \<Longrightarrow> mux_reachable s'"

lemma mux_step_good:
  assumes "mux_inv s" "mux_step s ev res"
  shows "\<exists>s'. res = Next s' \<and> good s s'"
  using assms(2)
proof (cases rule: mux_step.cases)
  case step_open
  with open_stream_good [OF assms(1)] show ?thesis by simp
next
  case step_read_loop
  with read_step_good [OF assms(1)] show ?thesis by simp
next
  case step_session_close
  with session_close_good [OF assms(1)] show ?thesis by simp
next
  case (step_accept c r s')
  with session_accept_good [OF assms(1)] show ?thesis by blast
next
  case (step_ingest r)
  have "stream_ok (stream_at s r)"
    using assms(1) step_ingest by (simp add: mux_inv_def list_all_length stream_at_def)
  with step_ingest stream_update_good [OF assms(1), of r ingest] show ?thesis by simp
next
  case (step_read r n rs st)
  have "stream_ok (stream_at s r)"
    using assms(1) step_read by (simp add: mux_inv_def list_all_length stream_at_def)
  from stream_read_ok [OF step_read(4) this] step_read
    stream_update_good [OF assms(1), of r "\<lambda>_. st"] show ?thesis by simp
next
  case (step_write r p)
  with stream_write_good [OF assms(1)] show ?thesis by simp
next
  case (step_close r)
  with good_close [OF assms(1)] show ?thesis by simp
qed

lemma reachable_inv: "mux_reachable s \<Longrightarrow> mux_inv s"
proof (induction rule: mux_reachable.induct)
  case (reach_step s ev s')
  with mux_step_good [of s ev "Next s'"] show ?case by (auto simp: good_def)
qed simp



lemma session_close_fold:
  assumes "(sid, r) \<in> set al" "r < length (sess_heap s)"
  shows "stream_closeOnce (stream_at (fold (\<lambda>(_, r). update_stream r remote_close) al s) r)"
proof -
  have keep: "q < length (sess_heap t) \<Longrightarrow> stream_closeOnce (stream_at t q) \<Longrightarrow>
      stream_closeOnce (stream_at (fold (\<lambda>(_, r). update_stream r remote_close) bl t) q)" for q t bl
  proof (induction bl arbitrary: t)
    case (Cons kr bl)
    have "q < length (sess_heap (update_stream (snd kr) remote_close t))" using Cons.prems by simp
    moreover have "stream_closeOnce (stream_at (update_stream (snd kr) remote_close t) q)"
      using Cons.prems by (cases "snd kr < length (sess_heap t)")
        (simp_all add: stream_at_def update_stream_def nth_list_update)
    ultimately show ?case using Cons.IH by (simp add: case_prod_beta)
  qed simp
  show ?thesis using assms
  proof (induction al arbitrary: s)
    case (Cons kr al)
    show ?case
    proof (cases "kr = (sid, r)")
      case True
      with Cons.prems keep [of r "update_stream r remote_close s" al] show ?thesis by simp
    next
      case False
      with Cons show ?thesis by (cases kr) auto
    qed
  qed simp
qed

text \<open>C16. But \<open>handleFrame\<close> looks the stream up and sends to its queue in two critical sections: when
  the application's \<open>Close\<close> of the stream, or the session's \<open>Close\<close>, runs between the two, the
  send hits a closed channel and the process panics, in every reachable state with that stream in
  the table and for every payload.\<close>

theorem mux_push_close_race:
  assumes "mux_reachable s" "get_stream s sid = Some r" "p \<noteq> []" "\<not> sess_closed s"
  shows "push_data r p (stream_close r s) = Panics \<and> push_data r p (session_close s) = Panics"
proof
  note inv = reachable_inv [OF assms(1)]
  note t = table_stream_open [OF inv assms(2)]
  have "stream_at (stream_close r s) r =
      remote_close ((stream_at s r)\<lparr>stream_localClosed := True\<rparr>)"
    using mux_inv_stream_close [OF inv t(1)] t by (simp add: stream_at_def)
  then have "chan_closed (stream_readCh (stream_at (stream_close r s) r))"
    using t by (simp add: remote_close_def)
  then show "push_data r p (stream_close r s) = Panics"
    using assms(3) by (simp add: push_data_def try_send_def)
next
  note inv = reachable_inv [OF assms(1)]
  note t = table_stream_open [OF inv assms(2)]
  have "stream_closeOnce (stream_at (session_close s) r)"
    using session_close_fold [of sid r "sess_streams s"] t assms(4)
    by (auto simp: session_close_def stream_at_def dest: map_of_SomeD)
  moreover have "stream_ok (stream_at (session_close s) r)"
    using session_close_good [OF inv] t(1)
    by (simp add: good_def mux_inv_def list_all_length stream_at_def)
  ultimately have "chan_closed (stream_readCh (stream_at (session_close s) r))"
    by (simp add: stream_ok_def)
  then show "push_data r p (session_close s) = Panics"
    using assms(3) by (simp add: push_data_def try_send_def)
qed

definition example_session :: mux_session where
  "example_session = snd (open_stream (new_mux_session (new_conn [])))"

lemma example_reachable: "mux_reachable example_session"
  unfolding example_session_def by (rule reach_step [OF reach_new step_open])

lemma example_stream: "get_stream example_session 2 = Some 0 \<and> \<not> sess_closed example_session"
  by code_simp

theorem mux_push_close_race_witness:
  "push_data 0 [1] (stream_close 0 example_session) = Panics \<and>
   push_data 0 [1] (session_close example_session) = Panics"
  by (rule mux_push_close_race [where sid = 2]) (simp_all add: example_reachable example_stream)

section \<open>Delivery\<close>

text \<open>What has arrived on a stream and is not yet read.\<close>

definition stream_view :: "mux_stream \<Rightarrow> bytes" where
  "stream_view st = stream_readBuf st @ concat (queue (stream_readCh st))"

text \<open>The arrival of a payload at a stream that does not overflow: the part of \<open>pushData\<close> that stays
  within the stream.\<close>

definition stream_put :: "mux_stream \<Rightarrow> bytes \<Rightarrow> mux_stream option" where
  "stream_put st p =
     (if p = [] then Some st
      else (case try_send (stream_readCh st) p of
              Sent c \<Rightarrow> Some (st\<lparr>stream_readCh := c\<rparr>)
            | _ \<Rightarrow> None))"




lemma push_data_put:
  "stream_put (stream_at s r) p = Some st \<Longrightarrow>
     push_data r p s = Next (if p = [] then s else update_stream r (\<lambda>_. st) s)"
  by (auto simp: push_data_def stream_put_def update_stream_def stream_at_def
      split: send_result.splits if_splits)



function chunks_of :: "bytes \<Rightarrow> bytes list" where
  "chunks_of p = (if p = [] then [] else take max_chunk p # chunks_of (drop max_chunk p))"
  by pat_completeness auto
termination
  by (relation "measure length") (auto simp: max_chunk_def)

declare chunks_of.simps [simp del]

lemma chunks_of_Nil [simp]: "chunks_of [] = []"
  by (simp add: chunks_of.simps)

lemma concat_chunks_of [simp]: "concat (chunks_of p) = p"
  by (induction p rule: chunks_of.induct) (subst chunks_of.simps, simp)

lemma chunks_of_bounds: "c \<in> set (chunks_of p) \<Longrightarrow> c \<noteq> [] \<and> length c \<le> max_chunk"
proof (induction p rule: chunks_of.induct)
  case (1 p)
  then show ?case
    by (cases "p = []") (auto simp: chunks_of.simps [of p] max_chunk_def)
qed

text \<open>Frames that carry data, and their bytes on the wire.\<close>

type_synonym data_frame = "32 word \<times> bytes"

definition wire :: "data_frame list \<Rightarrow> bytes" where
  "wire fs = concat (map (\<lambda>(sid, p). mux_frame frame_data sid p) fs)"

lemma wire_simps [simp]:
  "wire [] = []" "wire ((sid, p) # fs) = mux_frame frame_data sid p @ wire fs"
  "wire (fs @ gs) = wire fs @ wire gs"
  by (simp_all add: wire_def)

definition good_frame :: "data_frame \<Rightarrow> bool" where
  "good_frame f \<longleftrightarrow> snd f \<noteq> [] \<and> length (snd f) < 4294967296"

lemma session_write_frame_ok:
  assumes "session_write_frame ft sid p s = (None, s')"
  shows "tx (sess_conn s') = tx (sess_conn s) @ mux_frame ft sid p"
  using assms conn.write_mux_frame_ok
  by (auto simp: session_write_frame_def split: if_splits prod.splits)

lemma stream_write_loop_ok:
  "stream_write_loop sid n p s = ((m, None), s') \<Longrightarrow>
     m = n + length p \<and>
     tx (sess_conn s') = tx (sess_conn s) @ wire (map (Pair sid) (chunks_of p))"
proof (induction sid n p s arbitrary: s' rule: stream_write_loop.induct)
  case (1 sid n p s)
  show ?case
  proof (cases "p = []")
    case True
    with 1(2) show ?thesis by (simp add: stream_write_loop.simps)
  next
    case False
    obtain e s1 where w: "session_write_frame frame_data sid (take max_chunk p) s = (e, s1)"
      by (cases "session_write_frame frame_data sid (take max_chunk p) s")
    with 1(2) False have e: "e = None" by (cases e) (auto simp: stream_write_loop.simps [of sid n p s])
    with 1(2) False w have l:
      "stream_write_loop sid (n + length (take max_chunk p))
         (drop (length (take max_chunk p)) p) s1 = ((m, None), s')"
      by (simp add: stream_write_loop.simps [of sid n p s] Let_def)
    have d: "drop (length (take max_chunk p)) p = drop max_chunk p" by (simp add: min_def)
    from "1.IH" [OF False refl w [symmetric] e l] session_write_frame_ok [of frame_data sid "take max_chunk p" s s1]
      w e False d show ?thesis
      by (simp add: chunks_of.simps [of p])
  qed
qed

lemma stream_write_ok:
  assumes "stream_write r p s = ((m, None), s')"
  shows "m = length p"
    and "tx (sess_conn s') =
      tx (sess_conn s) @ wire (map (Pair (stream_id (stream_at s r))) (chunks_of p))"
    and "\<exists>c. s' = s\<lparr>sess_conn := c\<rparr>"
proof -
  from assms have "stream_write_loop (stream_id (stream_at s r)) 0 p s = ((m, None), s')"
    by (auto simp: stream_write_def split: if_splits)
  from stream_write_loop_ok [OF this] stream_write_loop_conn [OF this]
  show "m = length p" "\<exists>c. s' = s\<lparr>sess_conn := c\<rparr>"
    "tx (sess_conn s') =
      tx (sess_conn s) @ wire (map (Pair (stream_id (stream_at s r))) (chunks_of p))"
    by auto
qed

text \<open>Several writes of one side, stopping at the first that fails.\<close>

fun write_all :: "(nat \<times> bytes) list \<Rightarrow> mux_session \<Rightarrow> mux_session option" where
  "write_all [] s = Some s"
| "write_all ((r, p) # ws) s =
     (case stream_write r p s of
        ((_, None), s') \<Rightarrow> write_all ws s'
      | ((_, Some _), _) \<Rightarrow> None)"

definition frames_of :: "mux_session \<Rightarrow> (nat \<times> bytes) list \<Rightarrow> data_frame list" where
  "frames_of s ws = concat (map (\<lambda>(r, p). map (Pair (stream_id (stream_at s r))) (chunks_of p)) ws)"

lemma frames_of_conn [simp]: "frames_of (s\<lparr>sess_conn := c\<rparr>) ws = frames_of s ws"
  by (simp add: frames_of_def stream_at_def)

lemma write_all_wire:
  "write_all ws s = Some s' \<Longrightarrow> tx (sess_conn s') = tx (sess_conn s) @ wire (frames_of s ws)"
proof (induction ws s rule: write_all.induct)
  case (2 r p ws s)
  then obtain m s1 where w: "stream_write r p s = ((m, None), s1)" "write_all ws s1 = Some s'"
    by (auto split: prod.splits option.splits)
  from stream_write_ok(3) [OF w(1)] obtain c where c: "s1 = s\<lparr>sess_conn := c\<rparr>" ..
  from "2.IH" w have
    "tx (sess_conn s') = tx (sess_conn s1) @ wire (frames_of s1 ws)" by simp
  with stream_write_ok(2) [OF w(1)] c show ?case by (simp add: frames_of_def stream_at_def)
qed (simp add: frames_of_def)

lemma frames_of_good: "f \<in> set (frames_of s ws) \<Longrightarrow> good_frame f"
  by (auto simp: frames_of_def good_frame_def max_chunk_def dest!: chunks_of_bounds)

lemma frames_of_stream:
  "concat [p. (i, p) \<leftarrow> frames_of s ws, i = sid] =
     concat [p. (r, p) \<leftarrow> ws, stream_id (stream_at s r) = sid]"
proof (induction ws)
  case (Cons w ws)
  obtain r p where w: "w = (r, p)" by (cases w)
  have "concat [q. (i, q) \<leftarrow> map (Pair k) cs, i = sid] = (if k = sid then concat cs else [])"
    for k and cs :: "bytes list" by (induction cs) auto
  with Cons show ?case by (simp add: frames_of_def w)
qed (simp add: frames_of_def)

text \<open>Rounds of the read loop.\<close>

fun read_steps :: "nat \<Rightarrow> mux_session \<Rightarrow> outcome" where
  "read_steps 0 s = Next s"
| "read_steps (Suc n) s =
     (case read_step s of Next s' \<Rightarrow> read_steps n s' | Panics \<Rightarrow> Panics)"

definition room :: "mux_session \<Rightarrow> data_frame list \<Rightarrow> bool" where
  "room s fs \<longleftrightarrow>
     (\<forall>sid r. get_stream s sid = Some r \<longrightarrow>
        length (queue (stream_readCh (stream_at s r))) + length (filter (\<lambda>f. fst f = sid) fs) \<le> 256)"

text \<open>What the frames add to the stream \<open>r\<close>.\<close>

definition payloads :: "mux_session \<Rightarrow> nat \<Rightarrow> data_frame list \<Rightarrow> bytes" where
  "payloads s r fs = concat [p. (i, p) \<leftarrow> fs, get_stream s i = Some r]"

lemma get_stream_cong: "sess_streams s' = sess_streams s \<Longrightarrow> get_stream s' = get_stream s"
  by (rule ext) (simp add: get_stream_def)

lemma handle_data_known:
  assumes inv: "mux_inv s" and g: "get_stream s sid = Some r" and p: "p \<noteq> []"
    and room: "length (queue (stream_readCh (stream_at s r))) < 256"
  shows "handle_frame frame_data sid p s =
    Next (update_stream r (\<lambda>st. st\<lparr>stream_readCh := (stream_readCh st)\<lparr>queue :=
      queue (stream_readCh st) @ [p]\<rparr>\<rparr>) s)"
proof -
  note t = table_stream_open [OF inv g]
  have "try_send (stream_readCh (stream_at s r)) p =
      Sent ((stream_readCh (stream_at s r))\<lparr>queue := queue (stream_readCh (stream_at s r)) @ [p]\<rparr>)"
    using t room by (simp add: try_send_conv stream_ok_def)
  then show ?thesis
    using g p by (simp add: handle_frame_def frame_type_defs push_data_def update_stream_def stream_at_def)
qed

lemma handle_data_frame:
  assumes inv: "mux_inv s" and f: "good_frame (sid, p)" and room: "room s ((sid, p) # fs)"
  shows "\<exists>s'. handle_frame frame_data sid p s = Next s' \<and> mux_inv s' \<and>
    sess_streams s' = sess_streams s \<and> sess_conn s' = sess_conn s \<and> room s' fs \<and>
    length (sess_heap s') = length (sess_heap s) \<and>
    (\<forall>q < length (sess_heap s).
       stream_view (stream_at s' q) = stream_view (stream_at s q) @ payloads s q [(sid, p)])"
proof (cases "get_stream s sid")
  case None
  then have "handle_frame frame_data sid p s = Next s"
    by (simp add: handle_frame_def frame_type_defs)
  moreover have "room s fs"
    unfolding room_def
  proof (intro allI impI)
    fix i r assume "get_stream s i = Some r"
    with room have "length (queue (stream_readCh (stream_at s r))) +
        length (filter (\<lambda>f. fst f = i) ((sid, p) # fs)) \<le> 256"
      unfolding room_def by blast
    then show "length (queue (stream_readCh (stream_at s r))) +
        length (filter (\<lambda>f. fst f = i) fs) \<le> 256"
      by (simp split: if_splits)
  qed
  ultimately show ?thesis using None inv by (simp add: payloads_def)
next
  case (Some r)
  define add where "add st = st\<lparr>stream_readCh := (stream_readCh st)\<lparr>queue :=
      queue (stream_readCh st) @ [p]\<rparr>\<rparr>" for st :: mux_stream
  note t = table_stream_open [OF inv Some]
  have q: "length (queue (stream_readCh (stream_at s r))) < 256"
    using room [unfolded room_def, rule_format, OF Some] by simp
  have h: "handle_frame frame_data sid p s = Next (update_stream r add s)"
    using handle_data_known [OF inv Some _ q, of p] f by (simp add: good_frame_def add_def [abs_def])
  have "mux_inv (update_stream r add s)"
    using t q by (intro mux_inv_update inv) (auto simp: add_def stream_ok_def)
  moreover have only: "i = sid" if "get_stream s i = Some r" for i
    using table_stream_open(4) [OF inv that] t(4) by simp
  have "room (update_stream r add s) fs"
    unfolding room_def
  proof (intro allI impI)
    fix i q' assume "get_stream (update_stream r add s) i = Some q'"
    then have g: "get_stream s i = Some q'" by (simp add: get_stream_def)
    with room have le: "length (queue (stream_readCh (stream_at s q'))) +
        length (filter (\<lambda>f. fst f = i) ((sid, p) # fs)) \<le> 256"
      unfolding room_def by blast
    show "length (queue (stream_readCh (stream_at (update_stream r add s) q'))) +
        length (filter (\<lambda>f. fst f = i) fs) \<le> 256"
    proof (cases "q' = r")
      case True
      with g only have "i = sid" by blast
      with True le t(1) show ?thesis by (simp add: add_def)
    next
      case False
      with le t(1) show ?thesis by (simp split: if_splits)
    qed
  qed
  moreover have "stream_view (stream_at (update_stream r add s) q') =
      stream_view (stream_at s q') @ payloads s q' [(sid, p)]" for q'
    using Some t(1) by (auto simp: payloads_def add_def stream_view_def)
  ultimately show ?thesis using h by simp
qed

lemma read_steps_deliver:
  assumes "mux_inv s" "\<not> closed (sess_conn s)" "rx (sess_conn s) = wire fs @ rest"
    and "list_all good_frame fs" "room s fs"
  shows "\<exists>s'. read_steps (length fs) s = Next s' \<and> mux_inv s' \<and>
    sess_streams s' = sess_streams s \<and> rx (sess_conn s') = rest \<and>
    (\<forall>q < length (sess_heap s).
       stream_view (stream_at s' q) = stream_view (stream_at s q) @ payloads s q fs)"
  using assms
proof (induction fs arbitrary: s)
  case Nil
  then show ?case by (simp add: payloads_def)
next
  case (Cons f fs)
  obtain sid p where f: "f = (sid, p)" by (cases f)
  define s0 where "s0 = s\<lparr>sess_conn := (sess_conn s)\<lparr>rx := wire fs @ rest\<rparr>\<rparr>"
  have inv0: "mux_inv s0" unfolding s0_def using Cons.prems by (intro mux_inv_conn) simp_all
  have good: "good_frame (sid, p)" using Cons.prems f by simp
  have at0: "stream_at s0 = stream_at s" "get_stream s0 = get_stream s"
    by (simp_all add: s0_def stream_at_def get_stream_def fun_eq_iff)
  then have "room s0 ((sid, p) # fs)" using Cons.prems f by (simp add: room_def)
  from handle_data_frame [OF inv0 good this] obtain s1 where
    h: "handle_frame frame_data sid p s0 = Next s1" and
    s1: "mux_inv s1" "sess_streams s1 = sess_streams s0" "sess_conn s1 = sess_conn s0" "room s1 fs"
      "length (sess_heap s1) = length (sess_heap s0)" and
    v1: "\<forall>q < length (sess_heap s0). stream_view (stream_at s1 q) =
      stream_view (stream_at s0 q) @ payloads s0 q [(sid, p)]"
    by blast
  have step: "read_step s = Next s1"
    using Cons.prems f good h
    by (simp add: read_step_def read_mux_frame_frame good_frame_def s0_def)
  have "\<not> closed (sess_conn s1)" "rx (sess_conn s1) = wire fs @ rest"
    using Cons.prems s1(3) by (simp_all add: s0_def)
  from Cons.IH [OF s1(1) this _ s1(4)] Cons.prems obtain s' where
    s': "read_steps (length fs) s1 = Next s'" "mux_inv s'" "sess_streams s' = sess_streams s1"
      "rx (sess_conn s') = rest" and
    v': "\<forall>q < length (sess_heap s1). stream_view (stream_at s' q) =
      stream_view (stream_at s1 q) @ payloads s1 q fs"
    by auto
  have "payloads s1 q fs = payloads s q fs" for q
    using get_stream_cong [OF s1(2)] at0 by (simp add: payloads_def)
  moreover have "payloads s q (f # fs) = payloads s q [(sid, p)] @ payloads s q fs" for q
    by (simp add: payloads_def f)
  moreover have "payloads s0 q [(sid, p)] = payloads s q [(sid, p)]" for q
    by (simp add: payloads_def at0)
  ultimately have "\<forall>q < length (sess_heap s). stream_view (stream_at s' q) =
      stream_view (stream_at s q) @ payloads s q (f # fs)"
    using v1 v' s1(5) at0 by (simp add: s0_def)
  moreover have "sess_streams s' = sess_streams s" using s'(3) s1(2) by (simp add: s0_def)
  ultimately show ?case using step s' by simp
qed

lemma payloads_frames_of:
  assumes "mux_inv b" "get_stream b sid = Some r"
  shows "payloads b r (frames_of a ws) = concat [p. (q, p) \<leftarrow> ws, stream_id (stream_at a q) = sid]"
proof -
  have "get_stream b i = Some r \<longleftrightarrow> i = sid" for i
    using table_stream_open(4) [OF assms(1), of i r] table_stream_open(4) [OF assms] assms(2) by auto
  then show ?thesis by (simp only: payloads_def frames_of_stream)
qed

lemma reachable_read_steps: "mux_reachable s \<Longrightarrow> read_steps n s = Next s' \<Longrightarrow> mux_reachable s'"
proof (induction n s rule: read_steps.induct)
  case (2 n s)
  then obtain t where t: "read_step s = Next t" "read_steps n t = Next s'"
    by (auto split: outcome.splits)
  with 2 reach_step [OF "2.prems"(1), of Ev_Read_Loop t] show ?case
    by (simp add: mux_step_read_loop)
qed simp

text \<open>C4. Streams do not mix and lose nothing: if one side's writes to any of its streams all succeed
  and the other side reads exactly the bytes they put on the connection, every open stream of the
  other side receives, after what it already held, the data written to the stream of the same id,
  in order. The writes may interleave streams and be of any size; the condition is that no
  stream's queue of 256 payloads overflows.\<close>

theorem mux_delivery:
  assumes "mux_reachable b" "write_all ws a = Some a'"
    and "tx (sess_conn a') = tx (sess_conn a) @ rx (sess_conn b)" "\<not> closed (sess_conn b)"
    and "room b (frames_of a ws)" "get_stream b sid = Some r"
  shows "\<exists>b'. read_steps (length (frames_of a ws)) b = Next b' \<and> get_stream b' sid = Some r \<and>
    stream_view (stream_at b' r) =
      stream_view (stream_at b r) @ concat [p. (q, p) \<leftarrow> ws, stream_id (stream_at a q) = sid]"
proof -
  note inv = reachable_inv [OF assms(1)]
  have "rx (sess_conn b) = wire (frames_of a ws) @ []"
    using write_all_wire [OF assms(2)] assms(3) by simp
  from read_steps_deliver [OF inv assms(4) this _ assms(5)] frames_of_good
  obtain b' where b': "read_steps (length (frames_of a ws)) b = Next b'"
    "sess_streams b' = sess_streams b"
    "\<forall>q < length (sess_heap b). stream_view (stream_at b' q) =
       stream_view (stream_at b q) @ payloads b q (frames_of a ws)"
    by (auto simp: list_all_iff)
  with table_stream_open(1) [OF inv assms(6)] payloads_frames_of [OF inv assms(6), of a ws]
    assms(6) show ?thesis by (simp add: get_stream_def)
qed

text \<open>A sender with two streams and a receiver that has read their open frames.\<close>

definition example_sender :: mux_session where
  "example_sender = snd (open_stream example_session)"

definition example_writes :: "(nat \<times> bytes) list" where
  "example_writes = [(0, [10, 11]), (1, [20]), (0, [12])]"

definition example_receiver :: mux_session where
  "example_receiver =
     (case read_steps 2 (new_mux_session (new_conn
         (mux_frame frame_open 2 [] @ mux_frame frame_open 3 [] @
          wire [(2, [10, 11]), (3, [20]), (2, [12])]))) of
        Next s \<Rightarrow> s | Panics \<Rightarrow> new_mux_session (new_conn []))"

lemma example_receiver_reachable: "mux_reachable example_receiver"
  unfolding example_receiver_def
  using reachable_read_steps [OF reach_new] by (simp add: reach_new split: outcome.split)

lemma example_receiver_table:
  "sess_streams example_receiver = [(2, 0), (3, 1)] \<and>
   map (\<lambda>st. queue (stream_readCh st)) (sess_heap example_receiver) = [[], []] \<and>
   map stream_view (sess_heap example_receiver) = [[], []] \<and>
   rx (sess_conn example_receiver) = wire [(2, [10, 11]), (3, [20]), (2, [12])] \<and>
   \<not> closed (sess_conn example_receiver)"
  by (simp add: example_receiver_def numeral_2_eq_2 read_step_def read_mux_frame_frame
      handle_frame_def alloc_stream_def put_stream_def new_mux_session_def new_conn_def
      new_mux_stream_def try_send_def make_chan_def stream_view_def AList.update.simps)

lemma example_sender_writes:
  "(case write_all example_writes example_sender of
      None \<Rightarrow> False
    | Some a' \<Rightarrow> tx (sess_conn a') = tx (sess_conn example_sender) @
        wire [(2, [10, 11]), (3, [20]), (2, [12])]) \<and>
   frames_of example_sender example_writes = [(2, [10, 11]), (3, [20]), (2, [12])] \<and>
   concat [p. (q, p) \<leftarrow> example_writes, stream_id (stream_at example_sender q) = 2] = [10, 11, 12]"
  by code_simp

theorem mux_delivery_witness:
  "\<exists>b'. read_steps 3 example_receiver = Next b' \<and> stream_view (stream_at b' 0) = [10, 11, 12]"
proof -
  note r = example_receiver_table and w = example_sender_writes
  obtain a' where a': "write_all example_writes example_sender = Some a'"
    "tx (sess_conn a') = tx (sess_conn example_sender) @ rx (sess_conn example_receiver)"
    using w r by (auto split: option.splits)
  have at0: "stream_view (stream_at example_receiver 0) = []"
    using r by (simp add: stream_at_def) (metis list.sel(1) list.simps(9) nth_Cons_0 map_eq_Cons_conv)
  have room: "room example_receiver (frames_of example_sender example_writes)"
    unfolding room_def
  proof (intro allI impI)
    fix sid q assume "get_stream example_receiver sid = Some q"
    with r have "q = 0 \<or> q = 1" by (auto simp: get_stream_def split: if_splits)
    with r have "queue (stream_readCh (stream_at example_receiver q)) = []"
      by (auto simp: stream_at_def map_eq_Cons_conv)
    moreover have "length (filter (\<lambda>f. fst f = sid) (frames_of example_sender example_writes)) \<le> 3"
      using w length_filter_le [of "\<lambda>f. fst f = sid" "frames_of example_sender example_writes"] by simp
    ultimately show "length (queue (stream_readCh (stream_at example_receiver q))) +
        length (filter (\<lambda>f. fst f = sid) (frames_of example_sender example_writes)) \<le> 256"
      by simp
  qed
  have "\<exists>b'. read_steps (length (frames_of example_sender example_writes)) example_receiver = Next b' \<and>
      get_stream b' 2 = Some 0 \<and>
      stream_view (stream_at b' 0) = stream_view (stream_at example_receiver 0) @
        concat [p. (q, p) \<leftarrow> example_writes, stream_id (stream_at example_sender q) = 2]"
    using r by (intro mux_delivery [OF example_receiver_reachable a' _ room])
      (simp_all add: get_stream_def)
  with w at0 show ?thesis by (auto simp: numeral_3_eq_3)
qed

section \<open>Opening, overflowing and closing\<close>

lemma open_stream_Ok:
  assumes "open_stream s = (Ok r, s')"
  shows "r = length (sess_heap s)" "stream_at s' r = new_mux_stream (sess_nextID s + 1)"
    "get_stream s' (sess_nextID s + 1) = Some r" "sess_nextID s' = sess_nextID s + 1"
    "tx (sess_conn s') = tx (sess_conn s) @ mux_frame frame_open (sess_nextID s + 1) []"
    "length (sess_heap s') = Suc (length (sess_heap s))"
proof -
  define sid where "sid = sess_nextID s + 1"
  define s2 where "s2 = put_stream sid (length (sess_heap s))
    (s\<lparr>sess_nextID := sid, sess_heap := sess_heap s @ [new_mux_stream sid]\<rparr>)"
  obtain e s3 where w: "session_write_frame frame_open sid [] s2 = (e, s3)"
    by (cases "session_write_frame frame_open sid [] s2")
  from assms have res: "e = None" "s3 = s'" "r = length (sess_heap s)"
    using w unfolding open_stream_def alloc_stream_def s2_def sid_def
    by (auto simp: Let_def split: if_splits option.splits)
  from w obtain c where c: "s3 = s2\<lparr>sess_conn := c\<rparr>" by (rule session_write_frame_cases)
  have t: "tx (sess_conn s3) = tx (sess_conn s2) @ mux_frame frame_open sid []"
    using w res(1) by (intro session_write_frame_ok) simp
  show "r = length (sess_heap s)" by (fact res(3))
  show "stream_at s' r = new_mux_stream (sess_nextID s + 1)"
    using res c by (simp add: s2_def stream_at_def sid_def flip: res(2))
  show "get_stream s' (sess_nextID s + 1) = Some r"
    using res c by (simp add: s2_def get_stream_def sid_def flip: res(2))
  show "sess_nextID s' = sess_nextID s + 1" "length (sess_heap s') = Suc (length (sess_heap s))"
    using res c by (simp_all add: s2_def sid_def flip: res(2))
  show "tx (sess_conn s') = tx (sess_conn s) @ mux_frame frame_open (sess_nextID s + 1) []"
    using res(2) t by (simp add: s2_def sid_def)
qed

text \<open>A successful \<open>OpenStream\<close> appears at the other side: the frame it sends makes the peer's
  read loop add a fresh, empty stream with the same id to its table and to the end of its accept
  queue, where \<open>Accept\<close> finds it after the streams opened before it.\<close>

theorem mux_open_accept:
  assumes "mux_reachable b" "open_stream a = (Ok r, a')"
    and "tx (sess_conn a') = tx (sess_conn a) @ rx (sess_conn b)" "\<not> closed (sess_conn b)"
    and "length (queue (sess_acceptCh b)) < 1024"
  shows "\<exists>b' q. read_step b = Next b' \<and>
    queue (sess_acceptCh b') = queue (sess_acceptCh b) @ [q] \<and>
    get_stream b' (stream_id (stream_at a' r)) = Some q \<and>
    stream_at b' q = new_mux_stream (stream_id (stream_at a' r))"
proof -
  note a = open_stream_Ok [OF assms(2)]
  have ok: "capacity (sess_acceptCh b) = 1024" "\<not> chan_closed (sess_acceptCh b)"
    using reachable_inv [OF assms(1)] by (auto simp: mux_inv_def accept_ok_def)
  have "rx (sess_conn b) = mux_frame frame_open (sess_nextID a + 1) [] @ []"
    using a(5) assms(3) by simp
  then have f: "read_mux_frame (rx (sess_conn b)) = Ok ((frame_open, sess_nextID a + 1, []), [])"
    using read_mux_frame_frame [of "[]" frame_open "sess_nextID a + 1" "[]"] by simp
  show ?thesis
    using ok assms(4,5) unfolding a(2)
    by (simp add: read_step_def f handle_frame_def alloc_stream_def try_send_def
        new_mux_stream_def get_stream_def stream_at_def)
qed

definition example_opened :: mux_session where
  "example_opened = new_mux_session (new_conn (mux_frame frame_open 2 []))"

lemma example_open:
  "open_stream (new_mux_session (new_conn [])) = (Ok 0, example_session) \<and>
   tx (sess_conn example_session) = mux_frame frame_open 2 [] \<and>
   stream_id (stream_at example_session 0) = 2"
  by code_simp

theorem mux_open_accept_witness:
  "\<exists>b' q. read_step example_opened = Next b' \<and> queue (sess_acceptCh b') = [q] \<and>
    get_stream b' 2 = Some q \<and> stream_at b' q = new_mux_stream 2"
  using mux_open_accept [of example_opened "new_mux_session (new_conn [])" 0 example_session]
    example_open reach_new [of "new_conn (mux_frame frame_open 2 [])"]
  by (simp add: example_opened_def new_mux_session_def new_conn_def make_chan_def)

text \<open>The stream after its ingest loop has run to the end of a closed queue.\<close>

lemma ingest_drain:
  assumes "chan_closed (stream_readCh st)" "n = length (queue (stream_readCh st))"
  shows "(ingest ^^ Suc n) st =
    st\<lparr>stream_readCh := (stream_readCh st)\<lparr>queue := []\<rparr>, stream_readBuf := stream_view st,
       stream_readClosed := True\<rparr>"
  using assms
proof (induction n arbitrary: st)
  case 0
  then show ?case by (simp add: ingest_def try_recv_def stream_view_def)
next
  case (Suc n)
  then obtain p ps where q: "queue (stream_readCh st) = p # ps"
    by (cases "queue (stream_readCh st)") auto
  have i: "ingest st = st\<lparr>stream_readCh := (stream_readCh st)\<lparr>queue := ps\<rparr>,
      stream_readBuf := stream_readBuf st @ p\<rparr>"
    using q by (simp add: ingest_def try_recv_def)
  have "(ingest ^^ Suc (Suc n)) st = (ingest ^^ Suc n) (ingest st)"
    by (simp only: funpow_Suc_right o_apply)
  also have "\<dots> = (ingest st)\<lparr>stream_readCh := (stream_readCh (ingest st))\<lparr>queue := []\<rparr>,
      stream_readBuf := stream_view (ingest st), stream_readClosed := True\<rparr>"
    using Suc.prems q by (intro Suc.IH) (simp_all add: i)
  finally show ?case using q by (simp add: i stream_view_def)
qed

text \<open>The end of a stream is reported in order: when the peer's close frame arrives, the stream
  leaves the table; nothing buffered is lost; once the ingest loop has run, reads never wait
  again, return the remaining bytes, and then \<open>EOF\<close>.\<close>

theorem mux_close_eof:
  assumes "mux_reachable s" "get_stream s sid = Some r"
    and "n = Suc (length (queue (stream_readCh (stream_at s r))))"
  shows "\<exists>s' st. handle_frame frame_close sid [] s = Next s' \<and> get_stream s' sid = None \<and>
    (ingest ^^ n) (stream_at s' r) = st \<and> stream_readBuf st = stream_view (stream_at s r) \<and>
    (\<forall>k. stream_read k st =
       (if stream_view (stream_at s r) = [] then Some (Err EOF, st)
        else Some (Ok (take k (stream_view (stream_at s r))),
          st\<lparr>stream_readBuf := drop k (stream_view (stream_at s r))\<rparr>)))"
proof -
  note t = table_stream_open [OF reachable_inv [OF assms(1)] assms(2)]
  define s' where "s' = remove_stream sid (update_stream r remote_close s)"
  have h: "handle_frame frame_close sid [] s = Next s'"
    using assms(2) by (simp add: handle_frame_def frame_type_defs s'_def)
  have "stream_at s' r = remote_close (stream_at s r)" "get_stream s' sid = None"
    using t(1) by (simp_all add: s'_def get_stream_def)
  moreover have "chan_closed (stream_readCh (remote_close (stream_at s r)))"
    using t(5) by (simp add: remote_close_def)
  moreover have "stream_view (remote_close (stream_at s r)) = stream_view (stream_at s r)"
    by (simp add: stream_view_def)
  ultimately show ?thesis
    using h ingest_drain [of "remote_close (stream_at s r)" "length (queue (stream_readCh (stream_at s r)))"]
      assms(3)
    by (intro exI [of _ s']) (simp add: stream_read_def buffer_read_def del: funpow.simps)
qed

theorem mux_close_eof_witness:
  "\<exists>s' st. handle_frame frame_close 2 [] example_session = Next s' \<and> get_stream s' 2 = None \<and>
    (ingest ^^ 1) (stream_at s' 0) = st \<and> stream_read 5 st = Some (Err EOF, st)"
proof -
  have v: "queue (stream_readCh (stream_at example_session 0)) = [] \<and>
      stream_view (stream_at example_session 0) = []"
    by code_simp
  from mux_close_eof [OF example_reachable conjunct1 [OF example_stream], of 1] v
  show ?thesis by auto
qed

text \<open>C36. A payload for a stream whose queue is full is never stored: the stream is closed instead.
  The peer is told with a close frame, what was stored before stays readable, and from then on
  every frame for that id is dropped without effect.\<close>

theorem mux_overflow_closes:
  assumes "mux_reachable s" "get_stream s sid = Some r" "p \<noteq> []"
    and "length (queue (stream_readCh (stream_at s r))) = 256"
    and "\<not> sess_closed s" "\<not> closed (sess_conn s)" "budget (sess_conn s) = None"
  shows "\<exists>s'. handle_frame frame_data sid p s = Next s' \<and> get_stream s' sid = None \<and>
    tx (sess_conn s') = tx (sess_conn s) @ mux_frame frame_close sid [] \<and>
    stream_view (stream_at s' r) = stream_view (stream_at s r) \<and>
    chan_closed (stream_readCh (stream_at s' r)) \<and>
    (\<forall>ft p'. ft \<noteq> frame_open \<longrightarrow> handle_frame ft sid p' s' = Next s')"
proof -
  note inv = reachable_inv [OF assms(1)]
  note t = table_stream_open [OF inv assms(2)]
  define mark :: "mux_stream \<Rightarrow> mux_stream" where "mark = stream_localClosed_update (\<lambda>_. True)"
  define s2 where "s2 = remove_stream sid (update_stream r mark s)"
  define s3 where "s3 = s2\<lparr>sess_conn := (sess_conn s)\<lparr>tx := tx (sess_conn s) @ mux_frame frame_close sid []\<rparr>\<rparr>"
  have w: "session_write_frame frame_close sid [] s2 = (None, s3)"
    using assms(5-7)
    by (simp add: session_write_frame_def write_mux_frame_def s2_def s3_def mux_frame_def)
  have c: "stream_close r s = update_stream r remote_close s3"
    using t w by (simp add: stream_close_def Let_def s2_def mark_def)
  have full: "try_send (stream_readCh (stream_at s r)) p = Send_Blocks"
    using t(2,3) assms(4) by (simp add: try_send_conv stream_ok_def)
  have h: "handle_frame frame_data sid p s = Next (stream_close r s)"
    using assms(2,3) full by (simp add: handle_frame_def frame_type_defs push_data_def)
  have at_r: "stream_at (stream_close r s) r = remote_close (mark (stream_at s r))"
    using mux_inv_stream_close [OF inv t(1)] t by (simp add: stream_at_def mark_def)
  have none: "get_stream (stream_close r s) sid = None"
    by (simp add: c s3_def s2_def get_stream_def)
  have "tx (sess_conn (stream_close r s)) = tx (sess_conn s) @ mux_frame frame_close sid []"
    by (simp add: c s3_def)
  moreover have "stream_view (remote_close (mark (stream_at s r))) = stream_view (stream_at s r)"
    "chan_closed (stream_readCh (remote_close (mark (stream_at s r))))"
    using t(5) by (simp_all add: stream_view_def mark_def remote_close_def)
  moreover have "ft \<noteq> frame_open \<Longrightarrow> handle_frame ft sid p' (stream_close r s) = Next (stream_close r s)"
    for ft p'
    using none by (simp add: handle_frame_def)
  ultimately show ?thesis using h at_r none by simp
qed

lemma read_steps_fill:
  assumes "mux_inv s" "get_stream s sid = Some r" "\<not> closed (sess_conn s)"
    and "rx (sess_conn s) = wire (replicate n (sid, p))" "good_frame (sid, p)"
    and "length (queue (stream_readCh (stream_at s r))) + n \<le> 256"
  shows "\<exists>s'. read_steps n s = Next s' \<and> get_stream s' sid = Some r \<and>
    length (queue (stream_readCh (stream_at s' r))) =
      length (queue (stream_readCh (stream_at s r))) + n \<and>
    sess_closed s' = sess_closed s \<and> closed (sess_conn s') = closed (sess_conn s) \<and>
    budget (sess_conn s') = budget (sess_conn s)"
  using assms
proof (induction n arbitrary: s)
  case (Suc n)
  define s0 where "s0 = s\<lparr>sess_conn := (sess_conn s)\<lparr>rx := wire (replicate n (sid, p))\<rparr>\<rparr>"
  have inv0: "mux_inv s0" unfolding s0_def using Suc.prems by (intro mux_inv_conn) simp_all
  have g0: "get_stream s0 sid = Some r" and at0: "stream_at s0 r = stream_at s r"
    using Suc.prems by (simp_all add: s0_def get_stream_def stream_at_def)
  define s1 where "s1 = update_stream r (\<lambda>st. st\<lparr>stream_readCh := (stream_readCh st)\<lparr>queue :=
      queue (stream_readCh st) @ [p]\<rparr>\<rparr>) s0"
  have h: "handle_frame frame_data sid p s0 = Next s1"
    using handle_data_known [OF inv0 g0, of p] Suc.prems at0 by (simp add: s1_def good_frame_def)
  have step: "read_step s = Next s1"
    using Suc.prems h
    by (simp add: read_step_def read_mux_frame_frame good_frame_def s0_def)
  have inv1: "mux_inv s1"
    using handle_frame_good [OF inv0, of frame_data sid p] h by (simp add: good_def)
  have "length (queue (stream_readCh (stream_at s1 r))) =
      Suc (length (queue (stream_readCh (stream_at s r))))"
    using table_stream_open(1) [OF inv0 g0] at0 by (simp add: s1_def)
  with Suc.IH [OF inv1] Suc.prems g0 step show ?case
    by (simp add: s1_def s0_def get_stream_def)
qed simp

theorem mux_overflow_closes_witness:
  "\<exists>s s'. mux_reachable s \<and> handle_frame frame_data 2 [7] s = Next s' \<and> get_stream s' 2 = None \<and>
    chan_closed (stream_readCh (stream_at s' 0))"
proof -
  define s0 where
    "s0 = new_mux_session (new_conn (mux_frame frame_open 2 [] @ wire (replicate 256 (2, [1]))))"
  obtain s1 where s1: "read_step s0 = Next s1" "get_stream s1 2 = Some 0"
    "stream_at s1 0 = new_mux_stream 2" "rx (sess_conn s1) = wire (replicate 256 (2, [1]))"
    "\<not> closed (sess_conn s1)" "\<not> sess_closed s1" "budget (sess_conn s1) = None"
    by (simp add: s0_def read_step_def read_mux_frame_frame handle_frame_def alloc_stream_def
        new_mux_session_def new_conn_def try_send_def make_chan_def get_stream_def stream_at_def)
  have "mux_reachable s0" unfolding s0_def by (rule reach_new)
  then have r1: "mux_reachable s1"
    by (rule reach_step [where ev = Ev_Read_Loop]) (simp add: mux_step_read_loop s1(1))
  obtain s where s: "read_steps 256 s1 = Next s" "get_stream s 2 = Some 0"
    "length (queue (stream_readCh (stream_at s 0))) = 256" "\<not> sess_closed s"
    "\<not> closed (sess_conn s)" "budget (sess_conn s) = None"
    using read_steps_fill [OF reachable_inv [OF r1] s1(2) s1(5) s1(4)] s1(3,6,7)
    by (auto simp: good_frame_def new_mux_stream_def s1(5))
  have "mux_reachable s" using r1 s(1) by (rule reachable_read_steps)
  with mux_overflow_closes [OF this s(2) _ s(3-6), of "[7]"] show ?thesis by auto
qed

end
