(* ===== verification/Mux_Holder.thy ===== *)
theory Mux_Holder
  imports Mux
begin

text \<open>
  \<open>simpleMuxHolder\<close> of \<open>internal/tunnel/runner.go\<close>: the sessions of all connected clients, used in
  turn. The holder keeps references to sessions; the sessions themselves are a list that the
  references index. Whether a session is closed is read from it each time.
\<close>

section \<open>The holder\<close>

record mux_holder =
  holder_sessions :: "nat list"
  holder_next :: nat

definition closed_in :: "mux_session list \<Rightarrow> nat \<Rightarrow> bool" where
  "closed_in ss r = sess_closed (ss ! r)"

definition holder_add :: "nat \<Rightarrow> mux_holder \<Rightarrow> mux_holder" where
  "holder_add r h = h\<lparr>holder_sessions := holder_sessions h @ [r]\<rparr>"

definition holder_remove :: "(nat \<Rightarrow> bool) \<Rightarrow> nat \<Rightarrow> mux_holder \<Rightarrow> mux_holder" where
  "holder_remove is_closed r h =
     (let left = filter (\<lambda>it. it \<noteq> r \<and> \<not> is_closed it) (holder_sessions h) in
      h\<lparr>holder_sessions := left,
        holder_next := (if holder_next h \<ge> length left then 0 else holder_next h)\<rparr>)"

fun next_session_loop ::
  "(nat \<Rightarrow> bool) \<Rightarrow> nat list \<Rightarrow> mux_holder \<Rightarrow> nat option \<times> mux_holder" where
  "next_session_loop is_closed [] h = (None, h)"
| "next_session_loop is_closed (i # js) h =
     (let len = length (holder_sessions h);
          idx = (holder_next h + i) mod len;
          s = holder_sessions h ! idx
      in if is_closed s then next_session_loop is_closed js h
         else (Some s, h\<lparr>holder_next := (idx + 1) mod len\<rparr>))"

definition next_session :: "(nat \<Rightarrow> bool) \<Rightarrow> mux_holder \<Rightarrow> nat option \<times> mux_holder" where
  "next_session is_closed h =
     (if holder_sessions h = [] then (None, h)
      else next_session_loop is_closed [0..<length (holder_sessions h)] h)"

text \<open>\<open>OpenStream\<close>: the loop waits 120 ms after a failed round. The first argument says, round by
  round, whether the context is done when the loop waits; \<open>None\<close> means the rounds ran out.\<close>

definition context_canceled :: io_error where
  "context_canceled = Protocol_Error ''context canceled''"

fun holder_open ::
  "bool list \<Rightarrow> mux_holder \<Rightarrow> mux_session list \<Rightarrow>
    (io_error, nat \<times> nat) result option \<times> mux_holder \<times> mux_session list" where
  "holder_open [] h ss = (None, h, ss)"
| "holder_open (ctx_done # rounds) h ss =
     (case next_session (closed_in ss) h of
        (Some r, h1) \<Rightarrow>
          (case open_stream (ss ! r) of
             (Inr q, s') \<Rightarrow> (Some (Ok (r, q)), h1, ss[r := s'])
           | (Inl e, s') \<Rightarrow>
               (let ss' = ss[r := s']; h2 = holder_remove (closed_in ss') r h1
                in if ctx_done then (Some (Err context_canceled), h2, ss')
                   else holder_open rounds h2 ss'))
      | (None, h1) \<Rightarrow>
          if ctx_done then (Some (Err context_canceled), h1, ss) else holder_open rounds h1 ss)"

section \<open>Round robin\<close>

definition holder_ok :: "mux_holder \<Rightarrow> bool" where
  "holder_ok h \<longleftrightarrow> holder_next h < length (holder_sessions h) \<or> holder_next h = 0"

lemma rotate_conv:
  "map (\<lambda>i. xs ! ((k + i) mod length xs)) [0..<length xs] = rotate k xs"
  by (rule nth_equalityI) (auto simp: nth_rotate)

lemma next_session_loop_find:
  "fst (next_session_loop is_closed js h) =
     find (\<lambda>s. \<not> is_closed s)
       (map (\<lambda>i. holder_sessions h ! ((holder_next h + i) mod length (holder_sessions h))) js)"
  by (induction js) (simp_all add: Let_def)

lemma next_session_find:
  "fst (next_session is_closed h) =
     find (\<lambda>s. \<not> is_closed s) (rotate (holder_next h) (holder_sessions h))"
  by (cases "holder_sessions h = []")
    (simp_all add: next_session_def next_session_loop_find rotate_conv)

lemma next_session_loop_sessions [simp]:
  "holder_sessions (snd (next_session_loop is_closed js h)) = holder_sessions h"
  by (induction js) (simp_all add: Let_def)

lemma next_session_sessions [simp]:
  "holder_sessions (snd (next_session is_closed h)) = holder_sessions h"
  by (simp add: next_session_def)

lemma next_session_loop_ok:
  assumes "holder_ok h" "holder_sessions h \<noteq> []"
  shows "holder_ok (snd (next_session_loop is_closed js h))"
proof (induction js)
  case (Cons i js)
  have "0 < length (holder_sessions h)" using assms(2) by simp
  then have "k mod length (holder_sessions h) < length (holder_sessions h)" for k
    by (rule mod_less_divisor)
  with Cons show ?case by (simp add: Let_def holder_ok_def)
qed (simp add: assms(1))

lemma holder_ok_next [intro]: "holder_ok h \<Longrightarrow> holder_ok (snd (next_session is_closed h))"
  by (simp add: next_session_def next_session_loop_ok)

lemma holder_ok_add [intro]: "holder_ok h \<Longrightarrow> holder_ok (holder_add r h)"
  by (auto simp: holder_ok_def holder_add_def)

lemma holder_ok_remove [intro]: "holder_ok (holder_remove is_closed r h)"
  by (auto simp: holder_ok_def holder_remove_def Let_def)

lemma next_session_Some:
  assumes "next_session is_closed h = (Some r, h')"
  shows "r \<in> set (holder_sessions h) \<and> \<not> is_closed r"
proof -
  from assms have "find (\<lambda>s. \<not> is_closed s) (rotate (holder_next h) (holder_sessions h)) = Some r"
    using next_session_find [of is_closed h] by simp
  then have "r \<in> set (rotate (holder_next h) (holder_sessions h)) \<and> \<not> is_closed r"
    by (metis find_Some_iff nth_mem)
  then show ?thesis by simp
qed

lemma next_session_None:
  "fst (next_session is_closed h) = None \<longleftrightarrow> list_all is_closed (holder_sessions h)"
  by (auto simp: next_session_find find_None_iff list_all_iff)

text \<open>The answers of \<open>n\<close> calls in a row.\<close>

fun picks :: "nat \<Rightarrow> (nat \<Rightarrow> bool) \<Rightarrow> mux_holder \<Rightarrow> nat option list" where
  "picks 0 is_closed h = []"
| "picks (Suc n) is_closed h =
     (case next_session is_closed h of (res, h') \<Rightarrow> res # picks n is_closed h')"

lemma next_session_all_open:
  assumes "holder_sessions h \<noteq> []" "list_all (\<lambda>s. \<not> is_closed s) (holder_sessions h)"
  shows "next_session is_closed h =
    (Some (holder_sessions h ! (holder_next h mod length (holder_sessions h))),
     h\<lparr>holder_next := (holder_next h mod length (holder_sessions h) + 1) mod length (holder_sessions h)\<rparr>)"
proof -
  have "[0..<length (holder_sessions h)] = 0 # [1..<length (holder_sessions h)]"
    using assms(1) by (simp add: upt_conv_Cons)
  moreover have "\<not> is_closed (holder_sessions h ! (holder_next h mod length (holder_sessions h)))"
    using assms by (simp add: list_all_length)
  ultimately show ?thesis using assms(1) by (simp add: next_session_def Let_def)
qed

lemma picks_all_open:
  assumes "holder_sessions h \<noteq> []" "list_all (\<lambda>s. \<not> is_closed s) (holder_sessions h)"
  shows "picks n is_closed h =
    map (\<lambda>i. Some (holder_sessions h ! ((holder_next h + i) mod length (holder_sessions h)))) [0..<n]"
  using assms
proof (induction n arbitrary: h)
  case (Suc n)
  let ?len = "length (holder_sessions h)"
  let ?h = "h\<lparr>holder_next := (holder_next h mod ?len + 1) mod ?len\<rparr>"
  have "picks n is_closed ?h =
      map (\<lambda>i. Some (holder_sessions h ! (((holder_next h mod ?len + 1) mod ?len + i) mod ?len))) [0..<n]"
    using Suc.IH [of ?h] Suc.prems by simp
  also have "\<dots> = map (\<lambda>i. Some (holder_sessions h ! ((holder_next h + Suc i) mod ?len))) [0..<n]"
    by (simp add: mod_simps)
  also have "\<dots> = map (\<lambda>i. Some (holder_sessions h ! ((holder_next h + i) mod ?len))) [1..<Suc n]"
    by (simp only: map_Suc_upt [symmetric] map_map o_def One_nat_def)
  finally show ?case
    by (simp add: next_session_all_open [OF Suc.prems] upt_conv_Cons del: upt_Suc)
qed simp

text \<open>Load is spread evenly: with \<open>k\<close> open sessions, any \<open>k\<close> calls of \<open>nextSession\<close> in a row
  name every session exactly once, in the order of the list from the current position on; and the
  position stays inside the list under \<open>Add\<close>, \<open>Remove\<close> and \<open>nextSession\<close>.\<close>

theorem holder_round_robin:
  assumes "holder_ok h" "list_all (\<lambda>s. \<not> is_closed s) (holder_sessions h)"
  shows "picks (length (holder_sessions h)) is_closed h =
      map Some (rotate (holder_next h) (holder_sessions h)) \<and>
    holder_ok (snd (next_session is_closed h)) \<and> holder_ok (holder_add r h) \<and>
    holder_ok (holder_remove is_closed r h)"
proof -
  have "picks (length (holder_sessions h)) is_closed h =
      map Some (map (\<lambda>i. holder_sessions h ! ((holder_next h + i) mod length (holder_sessions h)))
        [0..<length (holder_sessions h)])"
    using picks_all_open [OF _ assms(2)] by (cases "holder_sessions h = []") simp_all
  then show ?thesis using assms(1) by (auto simp only: rotate_conv)
qed

theorem holder_round_robin_witness:
  "picks 3 (\<lambda>_. False) \<lparr>holder_sessions = [4, 5, 6], holder_next = 1\<rparr> = [Some 5, Some 6, Some 4] \<and>
   holder_ok (holder_add 9 \<lparr>holder_sessions = [4, 5, 6], holder_next = 1\<rparr>)"
  using holder_round_robin [of "\<lparr>holder_sessions = [4, 5, 6], holder_next = 1\<rparr>" "\<lambda>_. False" 9]
  by (simp add: holder_ok_def numeral_3_eq_3)

section \<open>Finding a session that works\<close>

text \<open>A session on which \<open>OpenStream\<close> succeeds.\<close>

definition working :: "mux_session \<Rightarrow> bool" where
  "working s \<longleftrightarrow> \<not> sess_closed s \<and> \<not> closed (sess_conn s) \<and> budget (sess_conn s) = None"

lemma open_stream_working: "working s \<Longrightarrow> \<exists>r s'. open_stream s = (Ok r, s')"
  by (simp add: working_def open_stream_def alloc_stream_def put_stream_def Let_def
      session_write_frame_def write_mux_frame_def)

lemma open_stream_Err_not_working: "open_stream s = (Err e, s') \<Longrightarrow> \<not> working s"
  using open_stream_working by fastforce

text \<open>C39. \<open>OpenStream\<close> of the holder finds a working session as soon as there is one: every round that
  fails removes a dead session for good, so with a working session among \<open>k\<close> it returns a
  stream within \<open>k\<close> rounds, whatever the others do.\<close>

theorem holder_open_finds_working:
  assumes "list_all (\<lambda>r. r < length ss) (holder_sessions h)" "r \<in> set (holder_sessions h)"
    and "working (ss ! r)" "length (holder_sessions h) \<le> n"
  shows "\<exists>q i h' ss'. holder_open (replicate n False) h ss = (Some (Ok (q, i)), h', ss') \<and>
    q \<in> set (holder_sessions h) \<and> \<not> closed_in ss q"
  using assms
proof (induction n arbitrary: h ss)
  case 0
  then show ?case by simp
next
  case (Suc n)
  have "\<not> list_all (closed_in ss) (holder_sessions h)"
    using Suc.prems by (auto simp: list_all_iff closed_in_def working_def)
  then obtain q h1 where q: "next_session (closed_in ss) h = (Some q, h1)"
    using next_session_None [of "closed_in ss" h] by (cases "next_session (closed_in ss) h") auto
  note qin = next_session_Some [OF q]
  have sess: "holder_sessions h1 = holder_sessions h"
    using next_session_sessions [of "closed_in ss" h] q by simp
  have qlt: "q < length ss" using qin Suc.prems(1) by (auto simp: list_all_iff)
  obtain res s' where o: "open_stream (ss ! q) = (res, s')" by (cases "open_stream (ss ! q)")
  show ?case
  proof (cases res)
    case (Inr i)
    with q o qin show ?thesis by simp
  next
    case (Inl e)
    define ss' where "ss' = ss[q := s']"
    define h2 where "h2 = holder_remove (closed_in ss') q h1"
    have rq: "r \<noteq> q" using open_stream_Err_not_working [of "ss ! q" e s'] o Inl Suc.prems(3) by auto
    have in2: "set (holder_sessions h2) =
        {it \<in> set (holder_sessions h). it \<noteq> q \<and> \<not> closed_in ss' it}"
      by (auto simp: h2_def holder_remove_def Let_def sess)
    have r2: "r \<in> set (holder_sessions h2)" "working (ss' ! r)"
      using Suc.prems(2,3) rq qlt unfolding in2
      by (simp_all add: ss'_def closed_in_def working_def)
    have "length (holder_sessions h2) < length (holder_sessions h)"
      using qin unfolding h2_def holder_remove_def Let_def
      by (simp add: sess) (intro length_filter_less [of q], auto)
    moreover have "list_all (\<lambda>r. r < length ss') (holder_sessions h2)"
      using Suc.prems(1) in2 by (auto simp: list_all_iff ss'_def)
    ultimately obtain q' i h' ss'' where
      r: "holder_open (replicate n False) h2 ss' = (Some (Ok (q', i)), h', ss'')"
      "q' \<in> set (holder_sessions h2)" "\<not> closed_in ss' q'"
      using Suc.IH [OF _ r2] Suc.prems(4) by (metis less_Suc_eq_le order_less_le_trans)
    then have "q' \<in> set (holder_sessions h)" "\<not> closed_in ss q'"
      using in2 by (auto simp: closed_in_def ss'_def)
    with q o Inl r(1) show ?thesis by (simp add: Let_def flip: ss'_def h2_def)
  qed
qed

definition dead_session :: mux_session where
  "dead_session = (new_mux_session (new_conn []))\<lparr>sess_conn := conn_close (new_conn [])\<rparr>"

theorem holder_open_finds_working_witness:
  "\<exists>q i h' ss'. holder_open (replicate 2 False) \<lparr>holder_sessions = [0, 1], holder_next = 0\<rparr>
     [dead_session, new_mux_session (new_conn [])] = (Some (Ok (q, i)), h', ss')"
  using holder_open_finds_working [of "[dead_session, new_mux_session (new_conn [])]"
      "\<lparr>holder_sessions = [0, 1], holder_next = 0\<rparr>" 1 2]
  by (fastforce simp: working_def new_mux_session_def new_conn_def)

end
