(* ===== verification/Mux_Relay.thy ===== *)
theory Mux_Relay
  imports Mux_Holder Control
begin

text \<open>
  \<open>runMuxServer\<close> of \<open>internal/tunnel/runner.go\<close>: the handler that turns an authenticated connection
  into a session of the holder, and the \<open>acquire\<close> of the public listeners, which opens a stream and
  sends it the target line. The last theorem follows the line to the client.
\<close>

section \<open>Handler and acquire\<close>

definition mux_handler ::
  "string \<Rightarrow> net_conn \<Rightarrow> mux_session list \<Rightarrow> mux_holder \<Rightarrow> handled \<times> mux_session list \<times> mux_holder" where
  "mux_handler token conn ss h =
     (case control_handler token role_mux conn of
        Handled_Closed c \<Rightarrow> (Handled_Closed c, ss, h)
      | Handled_Kept c \<Rightarrow> (Handled_Kept c, ss @ [new_mux_session c], holder_add (length ss) h))"



section \<open>The target line at the client\<close>






end
