(* ===== verification/Slipstream.thy ===== *)
theory Slipstream
  imports Framing
begin

text \<open>
  The slipstream connection of \<open>internal/tunnel/runner.go\<close>: the hello exchange that derives a key
  from two nonces, and the connection that sends length-prefixed frames combined with the key by
  exclusive or, each direction with an offset of its own that wraps at 64 bits. The nonces that
  \<open>crypto/rand\<close> returns and the hash function \<open>sha256.Sum256\<close> are parameters.
\<close>

section \<open>The connection\<close>

record slipstream_conn =
  slip_conn :: net_conn
  slip_key :: bytes
  slip_rbuf :: bytes
  slip_roff :: "64 word"
  slip_woff :: "64 word"

definition new_slipstream_conn :: "net_conn \<Rightarrow> bytes \<Rightarrow> slipstream_conn" where
  "new_slipstream_conn conn key =
     \<lparr>slip_conn = conn, slip_key = key, slip_rbuf = [], slip_roff = 0, slip_woff = 0\<rparr>"

text \<open>\<open>xor\<close>: byte \<open>i\<close> is combined with the key byte at \<open>(offset + i) mod 32\<close>.\<close>

fun slip_xor :: "bytes \<Rightarrow> 64 word \<Rightarrow> bytes \<Rightarrow> bytes" where
  "slip_xor key offset [] = []"
| "slip_xor key offset (b # bs) =
     (b XOR key ! unat (offset mod of_nat (length key))) # slip_xor key (offset + 1) bs"

definition slip_chunk :: nat where
  "slip_chunk = 65535"

function slip_write_loop ::
  "nat \<Rightarrow> bytes \<Rightarrow> slipstream_conn \<Rightarrow> (nat \<times> io_error option) \<times> slipstream_conn" where
  "slip_write_loop written p s =
     (if p = [] then ((written, None), s)
      else
        (let chunk = take slip_chunk p;
             enc = slip_xor (slip_key s) (slip_woff s) chunk;
             s1 = s\<lparr>slip_woff := slip_woff s + of_nat (length enc)\<rparr>;
             hdr = put_uint16 (of_nat (length enc))
         in case conn_write (slip_conn s1) hdr of
              ((_, Some e), c) \<Rightarrow> ((written, Some e), s1\<lparr>slip_conn := c\<rparr>)
            | ((_, None), c) \<Rightarrow>
                (case conn_write c enc of
                   ((_, Some e), c') \<Rightarrow> ((written, Some e), s1\<lparr>slip_conn := c'\<rparr>)
                 | ((_, None), c') \<Rightarrow>
                     slip_write_loop (written + length chunk) (drop (length chunk) p)
                       (s1\<lparr>slip_conn := c'\<rparr>))))"
  by pat_completeness auto
termination
  by (relation "measure (\<lambda>(_, p, _). length p)") (auto simp: slip_chunk_def)

declare slip_write_loop.simps [simp del]

definition slip_write :: "bytes \<Rightarrow> slipstream_conn \<Rightarrow> (nat \<times> io_error option) \<times> slipstream_conn" where
  "slip_write p s = slip_write_loop 0 p s"

text \<open>The read side as a receiver: the offset, the buffer and the input.\<close>

function slip_read_loop ::
  "bytes \<Rightarrow> nat \<Rightarrow> (64 word) receiver \<Rightarrow> (io_error, bytes) result \<times> (64 word) receiver" where
  "slip_read_loop key n (roff, rbuf, inp) =
     (if rbuf \<noteq> [] then (Ok (take n rbuf), (roff, drop n rbuf, inp))
      else (case read_full 2 inp of
              Inl e \<Rightarrow> (Err e, (roff, [], []))
            | Inr (hdr, inp1) \<Rightarrow>
                (let k = unat (uint16_be (hdr ! 0) (hdr ! 1)) in
                 if k = 0 then slip_read_loop key n (roff, [], inp1)
                 else (case read_full k inp1 of
                         Inl e \<Rightarrow> (Err e, (roff, [], []))
                       | Inr (payload, inp2) \<Rightarrow>
                           slip_read_loop key n
                             (roff + of_nat (length payload), slip_xor key roff payload, inp2)))))"
  by pat_completeness auto
termination
  by (relation "measure (\<lambda>(_, _, _, _, inp). length inp)") (auto dest!: read_full_Ok)

declare slip_read_loop.simps [simp del]

definition slip_read ::
  "nat \<Rightarrow> slipstream_conn \<Rightarrow> (io_error, bytes) result \<times> slipstream_conn" where
  "slip_read n s =
     (case slip_read_loop (slip_key s) n
          (slip_roff s, slip_rbuf s, if closed (slip_conn s) then [] else rx (slip_conn s)) of
        (res, (roff, rbuf, inp)) \<Rightarrow>
          (res, s\<lparr>slip_roff := roff, slip_rbuf := rbuf, slip_conn := (slip_conn s)\<lparr>rx := inp\<rparr>\<rparr>))"

section \<open>Frames\<close>

lemma slip_xor_length [simp]: "length (slip_xor key off p) = length p"
  by (induction p arbitrary: off) simp_all

lemma slip_xor_empty [simp]: "slip_xor key off p = [] \<longleftrightarrow> p = []"
  by (cases p) simp_all

lemma slip_xor_twice [simp]: "slip_xor key off (slip_xor key off p) = p"
  by (induction p arbitrary: off) simp_all

lemma slip_xor_append:
  "slip_xor key off (p @ q) = slip_xor key off p @ slip_xor key (off + of_nat (length p)) q"
  by (induction p arbitrary: off) (simp_all add: algebra_simps)

definition slip_frame :: "bytes \<Rightarrow> 64 word \<Rightarrow> bytes \<Rightarrow> bytes" where
  "slip_frame key off p = put_uint16 (of_nat (length p)) @ slip_xor key off p"

definition slip_encodes :: "bytes \<Rightarrow> 64 word \<Rightarrow> bytes \<Rightarrow> bytes \<Rightarrow> bool" where
  "slip_encodes key off p b \<longleftrightarrow> length p \<le> 65535 \<and> b = slip_frame key off p"

definition slip_advance :: "64 word \<Rightarrow> bytes \<Rightarrow> 64 word" where
  "slip_advance off p = off + of_nat (length p)"

definition slip_decode :: "bytes \<Rightarrow> 64 word \<Rightarrow> bytes \<Rightarrow> (io_error, bytes \<times> 64 word \<times> bytes) result" where
  "slip_decode key off inp =
     (case read_full 2 inp of
        Inl e \<Rightarrow> Err e
      | Inr (hdr, inp1) \<Rightarrow>
          (case read_full (unat (uint16_be (hdr ! 0) (hdr ! 1))) inp1 of
             Inl e \<Rightarrow> Err e
           | Inr (payload, inp2) \<Rightarrow>
               Ok (slip_xor key off payload, off + of_nat (length payload), inp2)))"

lemma slip_decode_frame:
  assumes "length p \<le> 65535"
  shows "slip_decode key off (slip_frame key off p @ rest) = Ok (p, off + of_nat (length p), rest)"
proof -
  have "read_full 2 (slip_frame key off p @ rest) =
      Ok (put_uint16 (of_nat (length p)), slip_xor key off p @ rest)"
    by (simp add: slip_frame_def read_full_append)
  with assms show ?thesis
    by (simp add: slip_decode_def put_uint16_def unat_of_nat16 read_full_append)
qed

interpretation slip: framing "slip_encodes key" "\<lambda>p. p" slip_advance "slip_decode key" "slip_read_loop key"
  for key :: bytes
proof
  fix k :: "64 word" and f b rest
  show "slip_encodes key k f b \<Longrightarrow> slip_decode key k (b @ rest) = Ok (f, slip_advance k f, rest)"
    by (simp add: slip_encodes_def slip_decode_frame slip_advance_def)
next
  fix buf :: bytes and n and k :: "64 word" and inp
  show "buf \<noteq> [] \<Longrightarrow> slip_read_loop key n (k, buf, inp) = (Ok (take n buf), (k, drop n buf, inp))"
    by (simp add: slip_read_loop.simps)
next
  fix k :: "64 word" and inp p k' inp' n
  assume "slip_decode key k inp = Ok (p, k', inp')"
  then show "slip_read_loop key n (k, [], inp) = slip_read_loop key n (k', p, inp')"
    by (subst slip_read_loop.simps)
      (auto simp: slip_decode_def Let_def split: sum.splits)
next
  fix k :: "64 word" and inp e n
  assume "slip_decode key k inp = Err e"
  then show "fst (slip_read_loop key n (k, [], inp)) = Err e"
    by (subst slip_read_loop.simps)
      (auto simp: slip_decode_def Let_def split: sum.splits)
qed

section \<open>Transfer\<close>

text \<open>The chunks a write sends.\<close>

function slip_chunks :: "bytes \<Rightarrow> bytes list" where
  "slip_chunks p = (if p = [] then [] else take slip_chunk p # slip_chunks (drop slip_chunk p))"
  by pat_completeness auto
termination
  by (relation "measure length") (auto simp: slip_chunk_def)

declare slip_chunks.simps [simp del]

lemma slip_content_chunks: "slip.content (slip_chunks p) = p"
proof (induction p rule: slip_chunks.induct)
  case (1 p)
  then show ?case by (subst slip_chunks.simps) simp
qed

lemma slip_write_loop_next:
  assumes "p \<noteq> []" "slip_write_loop n p s = ((m, None), s')"
  obtains c2 where
    "tx c2 = tx (slip_conn s) @ slip_frame (slip_key s) (slip_woff s) (take slip_chunk p)"
    "slip_write_loop (n + length (take slip_chunk p)) (drop (length (take slip_chunk p)) p)
       (s\<lparr>slip_woff := slip_advance (slip_woff s) (take slip_chunk p), slip_conn := c2\<rparr>) =
     ((m, None), s')"
proof -
  define chunk where "chunk = take slip_chunk p"
  define enc where "enc = slip_xor (slip_key s) (slip_woff s) chunk"
  have len: "length enc = length chunk" by (simp add: enc_def)
  obtain k1 e1 c1 where w1: "conn_write (slip_conn s) (put_uint16 (of_nat (length chunk))) = ((k1, e1), c1)"
    by (metis surj_pair)
  obtain k2 e2 c2 where w2: "conn_write c1 enc = ((k2, e2), c2)" by (metis surj_pair)
  have eq: "slip_write_loop n p s =
      (case e1 of
         Some e \<Rightarrow> ((n, Some e), s\<lparr>slip_woff := slip_advance (slip_woff s) chunk, slip_conn := c1\<rparr>)
       | None \<Rightarrow>
          (case e2 of
             Some e \<Rightarrow> ((n, Some e), s\<lparr>slip_woff := slip_advance (slip_woff s) chunk, slip_conn := c2\<rparr>)
           | None \<Rightarrow> slip_write_loop (n + length chunk) (drop (length chunk) p)
               (s\<lparr>slip_woff := slip_advance (slip_woff s) chunk, slip_conn := c2\<rparr>)))"
    using assms(1) w1 w2 len unfolding slip_write_loop.simps [of n p s] chunk_def enc_def
    by (simp add: Let_def slip_advance_def split: option.splits)
  then have e: "e1 = None" "e2 = None" using assms(2) by (auto split: option.splits)
  with conn.write_ok [of _ _ k1 c1] conn.write_ok [of _ _ k2 c2] w1 w2
  have "tx c2 = tx (slip_conn s) @ slip_frame (slip_key s) (slip_woff s) chunk"
    by (simp add: slip_frame_def enc_def)
  with that [of c2] eq e assms(2) show thesis by (simp add: chunk_def)
qed

text \<open>A successful write puts an encoding of its chunks on the connection and moves the offset by as
  many frames.\<close>

lemma slip_write_loop_ok:
  "slip_write_loop n p s = ((m, None), s') \<Longrightarrow>
     m = n + length p \<and> slip_key s' = slip_key s \<and>
     slip_woff s' = foldl slip_advance (slip_woff s) (slip_chunks p) \<and>
     (\<exists>b. tx (slip_conn s') = tx (slip_conn s) @ b \<and>
        slip.encodes_all (slip_key s) (slip_woff s) (slip_chunks p) b)"
proof (induction p arbitrary: n s rule: length_induct)
  case (1 p)
  show ?case
  proof (cases "p = []")
    case True
    with "1.prems" show ?thesis
      by (simp add: slip_write_loop.simps slip_chunks.simps slip.all_Nil)
  next
    case False
    define chunk where "chunk = take slip_chunk p"
    obtain c2 where c2:
      "tx c2 = tx (slip_conn s) @ slip_frame (slip_key s) (slip_woff s) chunk"
      "slip_write_loop (n + length chunk) (drop (length chunk) p)
         (s\<lparr>slip_woff := slip_advance (slip_woff s) chunk, slip_conn := c2\<rparr>) = ((m, None), s')"
      unfolding chunk_def by (rule slip_write_loop_next [OF False "1.prems"])
    have ch: "slip_chunks p = chunk # slip_chunks (drop slip_chunk p)"
      using False by (subst slip_chunks.simps) (simp add: chunk_def)
    have d: "drop (length chunk) p = drop slip_chunk p" by (simp add: chunk_def min_def)
    have enc1: "slip_encodes (slip_key s) (slip_woff s) chunk (slip_frame (slip_key s) (slip_woff s) chunk)"
      by (simp add: slip_encodes_def chunk_def slip_chunk_def)
    have "length (drop slip_chunk p) < length p" using False by (simp add: slip_chunk_def)
    with "1.IH" c2(2) have ih: "m = n + length chunk + length (drop slip_chunk p)"
      "slip_key s' = slip_key s"
      "slip_woff s' = foldl slip_advance (slip_advance (slip_woff s) chunk) (slip_chunks (drop slip_chunk p))"
      "\<exists>b. tx (slip_conn s') = tx c2 @ b \<and>
        slip.encodes_all (slip_key s) (slip_advance (slip_woff s) chunk) (slip_chunks (drop slip_chunk p)) b"
      unfolding d by fastforce+
    from ih(4) obtain b where b: "tx (slip_conn s') = tx c2 @ b"
      "slip.encodes_all (slip_key s) (slip_advance (slip_woff s) chunk) (slip_chunks (drop slip_chunk p)) b"
      by blast
    have "n + length chunk + length (drop slip_chunk p) = n + length p"
      by (simp add: chunk_def)
    with ih(1-3) b slip.all_Cons [OF enc1 b(2)] c2(1) show ?thesis by (auto simp: ch)
  qed
qed

lemma slip_writes_ok:
  "conn_writes slip_write ps s = Some s' \<Longrightarrow>
     slip_key s' = slip_key s \<and>
     (\<exists>b. tx (slip_conn s') = tx (slip_conn s) @ b \<and>
        slip.encodes_all (slip_key s) (slip_woff s) (concat (map slip_chunks ps)) b)"
proof (induction ps arbitrary: s)
  case Nil
  then show ?case by (simp add: slip.all_Nil)
next
  case (Cons p ps)
  then obtain m s1 where w: "slip_write p s = ((m, None), s1)" "conn_writes slip_write ps s1 = Some s'"
    by (auto split: prod.splits option.splits)
  from slip_write_loop_ok [OF w(1) [unfolded slip_write_def]] obtain b1 where 1:
    "slip_key s1 = slip_key s" "tx (slip_conn s1) = tx (slip_conn s) @ b1"
    "slip_woff s1 = foldl slip_advance (slip_woff s) (slip_chunks p)"
    "slip.encodes_all (slip_key s) (slip_woff s) (slip_chunks p) b1" by blast
  from Cons.IH [OF w(2)] obtain b2 where 2: "slip_key s' = slip_key s1"
    "tx (slip_conn s') = tx (slip_conn s1) @ b2"
    "slip.encodes_all (slip_key s1) (slip_woff s1) (concat (map slip_chunks ps)) b2" by blast
  have "slip.encodes_all (slip_key s) (slip_woff s) (slip_chunks p @ concat (map slip_chunks ps)) (b1 @ b2)"
    using 1 2 by (intro slip.encodes_all_append) simp_all
  with 1 2 show ?case by auto
qed

lemma slip_content_all: "slip.content (concat (map slip_chunks ps)) = concat ps"
  using slip_content_chunks by (induction ps) (auto simp: slip.content_def)

definition slip_receiver :: "slipstream_conn \<Rightarrow> (64 word) receiver" where
  "slip_receiver s =
     (slip_roff s, slip_rbuf s, if closed (slip_conn s) then [] else rx (slip_conn s))"

lemma slip_reads_receiver:
  assumes "\<not> closed (slip_conn s)"
  shows "fst (conn_reads slip_read ns s) =
    fst (conn_reads (slip_read_loop (slip_key s)) ns (slip_receiver s))"
  using conn_reads_sim [of "\<lambda>t. \<not> closed (slip_conn t) \<and> slip_key t = slip_key s" slip_read
      "slip_read_loop (slip_key s)" slip_receiver s ns] assms
  by (auto simp: slip_read_def slip_receiver_def split: prod.splits)

text \<open>C20. The slipstream carries bytes faithfully: what one side writes, in any number of writes of any
  size, the other side reads back in order, however it cuts its reads, when both have the same key
  and the reader's offset stands where the writer's stood. The offsets wrap around at 64 bits on
  both sides alike.\<close>

theorem slip_transfer:
  assumes "conn_writes slip_write ps a = Some a'" "slip_key b = slip_key a" "slip_roff b = slip_woff a"
    and "slip_rbuf b = []" "\<not> closed (slip_conn b)"
    and "tx (slip_conn a') = tx (slip_conn a) @ w" "rx (slip_conn b) = w @ rest"
    and "list_all (\<lambda>n. 0 < n) ns" "sum_list ns \<le> length (concat ps)"
  shows "prefix (fst (conn_reads slip_read ns b)) (concat ps) \<and> length ns \<le> length (fst (conn_reads slip_read ns b))"
proof -
  let ?fs = "concat (map slip_chunks ps)"
  from slip_writes_ok [OF assms(1)] assms(6)
  have "slip.encodes_all (slip_key a) (slip_woff a) ?fs w" by auto
  moreover have "sum_list ns \<le> length ([] @ slip.content ?fs)"
    using assms(9) by (simp add: slip_content_all)
  ultimately obtain got k' buf' fs' bs' where
    "conn_reads (slip_read_loop (slip_key a)) ns (slip_woff a, [], w @ rest) = (got, (k', buf', bs' @ rest))"
    "got @ buf' @ slip.content fs' = concat ps" "length ns \<le> length got"
    using slip.reads_deliver [OF _ assms(8), of "slip_key a" "slip_woff a" ?fs w "[]" rest]
    by (auto simp: slip_content_all)
  moreover have "slip_receiver b = (slip_woff a, [], w @ rest)"
    using assms(3-5,7) by (simp add: slip_receiver_def)
  ultimately show ?thesis
    using slip_reads_receiver [OF assms(5), of ns] assms(2) by (metis fst_conv prefixI)
qed

theorem slip_transfer_witness:
  "prefix (fst (conn_reads slip_read [1, 2] ((new_slipstream_conn
       (new_conn (slip_frame (replicate 32 7) (- 1) [10, 20, 30])) (replicate 32 7))\<lparr>slip_roff := - 1\<rparr>)))
     [10, 20, 30]"
proof -
  define a where "a = (new_slipstream_conn (new_conn []) (replicate 32 7))\<lparr>slip_woff := - 1\<rparr>"
  define b where "b = (new_slipstream_conn
    (new_conn (slip_frame (replicate 32 7) (- 1) [10, 20, 30])) (replicate 32 7))\<lparr>slip_roff := - 1\<rparr>"
  have "slip_write [10, 20, 30] a =
      ((3, None), a\<lparr>slip_woff := 2, slip_conn := (new_conn [])
        \<lparr>tx := slip_frame (replicate 32 7) (- 1) [10, 20, 30]\<rparr>\<rparr>)"
    unfolding slip_write_def a_def
    by (simp add: slip_write_loop.simps new_slipstream_conn_def new_conn_def slip_chunk_def Let_def
        slip_frame_def conn_write_def)
  then have "conn_writes slip_write [[10, 20, 30]] a = Some (a\<lparr>slip_woff := 2, slip_conn := (new_conn [])
        \<lparr>tx := slip_frame (replicate 32 7) (- 1) [10, 20, 30]\<rparr>\<rparr>)" by simp
  from slip_transfer [OF this, of b _ "[]" "[1, 2]"] show ?thesis
    unfolding b_def by (simp add: a_def new_slipstream_conn_def new_conn_def)
qed

section \<open>The hello exchange\<close>

definition slip_magic :: bytes where
  "slip_magic = bytes_of ''SLP1''"

text \<open>Both sides return the connection they were given when they fail.\<close>

definition wrap_slipstream_server ::
  "(bytes \<Rightarrow> bytes) \<Rightarrow> bytes \<Rightarrow> net_conn \<Rightarrow> (io_error, slipstream_conn) result \<times> net_conn" where
  "wrap_slipstream_server sha256 server_nonce conn =
     (case read_full 20 (if closed conn then [] else rx conn) of
        Inl e \<Rightarrow> (Err e, conn)
      | Inr (hello, rest) \<Rightarrow>
          (if take 4 hello \<noteq> slip_magic
           then (Err (Protocol_Error ''invalid slipstream hello''), conn\<lparr>rx := rest\<rparr>)
           else (case conn_write (conn\<lparr>rx := rest\<rparr>) (slip_magic @ server_nonce) of
                   ((_, Some e), conn') \<Rightarrow> (Err e, conn')
                 | ((_, None), conn') \<Rightarrow>
                     (Ok (new_slipstream_conn conn' (sha256 (drop 4 hello @ server_nonce))), conn'))))"

definition wrap_slipstream_client ::
  "(bytes \<Rightarrow> bytes) \<Rightarrow> bytes \<Rightarrow> net_conn \<Rightarrow> (io_error, slipstream_conn) result \<times> net_conn" where
  "wrap_slipstream_client sha256 client_nonce conn =
     (case conn_write conn (slip_magic @ client_nonce) of
        ((_, Some e), conn1) \<Rightarrow> (Err e, conn1)
      | ((_, None), conn1) \<Rightarrow>
          (case read_full 20 (if closed conn1 then [] else rx conn1) of
             Inl e \<Rightarrow> (Err e, conn1)
           | Inr (reply, rest) \<Rightarrow>
               (if take 4 reply \<noteq> slip_magic
                then (Err (Protocol_Error ''invalid slipstream reply''), conn1\<lparr>rx := rest\<rparr>)
                else (let conn2 = conn1\<lparr>rx := rest\<rparr> in
                      (Ok (new_slipstream_conn conn2 (sha256 (client_nonce @ drop 4 reply))), conn2)))))"

lemma slip_magic_length [simp]: "length slip_magic = 4"
  by (simp add: slip_magic_def)

text \<open>The hello exchange agrees on the key: when each side receives what the other sends, both
  succeed with the hash of the client's nonce followed by the server's, both offsets start at
  zero, and data that follows the hello in either direction stays for the first read.\<close>

theorem slip_handshake_agreement:
  assumes "length cn = 16" "length sn = 16" "\<not> closed c" "budget c = None" "\<not> closed s" "budget s = None"
    and "rx s = slip_magic @ cn @ more_s" "rx c = slip_magic @ sn @ more_c"
  shows "\<exists>sc ss. wrap_slipstream_client sha256 cn c = (Ok sc, slip_conn sc) \<and>
    wrap_slipstream_server sha256 sn s = (Ok ss, slip_conn ss) \<and>
    tx (slip_conn sc) = tx c @ slip_magic @ cn \<and> tx (slip_conn ss) = tx s @ slip_magic @ sn \<and>
    slip_key sc = sha256 (cn @ sn) \<and> slip_key ss = sha256 (cn @ sn) \<and>
    slip_woff sc = 0 \<and> slip_roff ss = 0 \<and> slip_woff ss = 0 \<and> slip_roff sc = 0 \<and>
    rx (slip_conn ss) = more_s \<and> rx (slip_conn sc) = more_c"
proof -
  have "read_full 20 (slip_magic @ cn @ more_s) = Ok (slip_magic @ cn, more_s)"
    "read_full 20 (slip_magic @ sn @ more_c) = Ok (slip_magic @ sn, more_c)"
    using assms(1,2) read_full_append [of "slip_magic @ cn" 20 more_s]
      read_full_append [of "slip_magic @ sn" 20 more_c] by simp_all
  then show ?thesis
    using assms
    by (simp add: wrap_slipstream_client_def wrap_slipstream_server_def new_slipstream_conn_def Let_def)
qed

theorem slip_handshake_agreement_witness:
  "\<exists>sc ss. fst (wrap_slipstream_client (\<lambda>b. take 32 b) (replicate 16 1)
       (new_conn (slip_magic @ replicate 16 2))) = Ok sc \<and>
    fst (wrap_slipstream_server (\<lambda>b. take 32 b) (replicate 16 2)
       (new_conn (slip_magic @ replicate 16 1))) = Ok ss \<and>
    slip_key sc = replicate 16 1 @ replicate 16 2 \<and> slip_key ss = slip_key sc"
  using slip_handshake_agreement [of "replicate 16 1" "replicate 16 2"
      "new_conn (slip_magic @ replicate 16 2)" "new_conn (slip_magic @ replicate 16 1)" "[]" "[]"
      "\<lambda>b. take 32 b"]
  by (fastforce simp: new_conn_def)

text \<open>Both directions use the key from its first byte on, so the first frames of the two sides are
  combined with the same bytes: their exclusive or is that of the plain texts, whatever the key.\<close>

lemma slip_keystream_shared:
  "length p = length q \<Longrightarrow>
     map2 (XOR) (slip_xor key off p) (slip_xor key off q) = map2 (XOR) p q"
proof (induction p q arbitrary: off rule: list_induct2)
  case (Cons a p b q)
  have "(a XOR k) XOR (b XOR k) = a XOR b" for k :: byte
    by (metis xor.assoc xor.commute xor_twice)
  with Cons show ?case by simp
qed simp

end
