(* ===== verification/Accept.thy ===== *)
theory Accept
  imports Slipstream Transport Control
begin

text \<open>
  The accept loop of \<open>acceptControl\<close> in \<open>internal/tunnel/runner.go\<close>, the same for TCP, KCP and UDP
  listeners: a failed accept is skipped unless the context is done, with slipstream the connection
  is wrapped inside the loop, and the handler is started on what comes out. Times are in
  nanoseconds; the hello of a connection has arrived at a given time or never does.
\<close>

datatype accepted =
    Accept_Failed bool
  | Accepted int "int option" net_conn bytes

datatype served =
    Served_Plain net_conn
  | Served_Slip slipstream_conn
  | Served_Dropped net_conn

definition hello_timeout :: int where
  "hello_timeout = 8 * second"

text \<open>When the wrapping is over: with the hello, or at the read deadline.\<close>

definition hello_done :: "int \<Rightarrow> int option \<Rightarrow> int" where
  "hello_done now hello =
     (case hello of
        None \<Rightarrow> now + hello_timeout
      | Some h \<Rightarrow> if h < now + hello_timeout then max now h else now + hello_timeout)"

definition in_time :: "int \<Rightarrow> int option \<Rightarrow> bool" where
  "in_time now hello = (case hello of None \<Rightarrow> False | Some h \<Rightarrow> h < now + hello_timeout)"

fun accept_loop ::
  "(bytes \<Rightarrow> bytes) \<Rightarrow> bool \<Rightarrow> int \<Rightarrow> accepted list \<Rightarrow> (int \<times> served) list" where
  "accept_loop sha256 slip now [] = []"
| "accept_loop sha256 slip now (Accept_Failed ctx_done # as) =
     (if ctx_done then [] else accept_loop sha256 slip now as)"
| "accept_loop sha256 slip now (Accepted t hello conn nonce # as) =
     (let now = max now t in
      if slip then
        (let conn = (if in_time now hello then conn else conn\<lparr>rx := []\<rparr>);
             fin = hello_done now hello
         in case wrap_slipstream_server sha256 nonce conn of
              (Inl e, c) \<Rightarrow> (fin, Served_Dropped (conn_close c)) # accept_loop sha256 slip fin as
            | (Inr s, c) \<Rightarrow> (fin, Served_Slip s) # accept_loop sha256 slip fin as)
      else (now, Served_Plain conn) # accept_loop sha256 slip now as)"

lemma silent_client:
  "accept_loop sha256 True now (Accepted t None conn nonce # as) =
   (max now t + hello_timeout, Served_Dropped (conn_close (conn\<lparr>rx := []\<rparr>))) #
     accept_loop sha256 True (max now t + hello_timeout) as"
proof -
  have "wrap_slipstream_server sha256 nonce (conn\<lparr>rx := []\<rparr>) = (Err EOF, conn\<lparr>rx := []\<rparr>)"
    by (simp add: wrap_slipstream_server_def read_full_def)
  then show ?thesis by (simp add: Let_def in_time_def hello_done_def)
qed

lemma silent_clients:
  "0 \<le> now \<Longrightarrow> \<exists>dropped. accept_loop sha256 True now (replicate n (Accepted 0 None conn nonce) @ as) =
   dropped @ accept_loop sha256 True (now + int n * hello_timeout) as"
proof (induction n arbitrary: now)
  case (Suc n)
  have "0 \<le> now + hello_timeout" using Suc.prems by (simp add: hello_timeout_def second_def)
  from Suc.IH [OF this] obtain dropped where
    "accept_loop sha256 True (now + hello_timeout) (replicate n (Accepted 0 None conn nonce) @ as) =
      dropped @ accept_loop sha256 True (now + hello_timeout + int n * hello_timeout) as" ..
  moreover have "now + int (Suc n) * hello_timeout = now + hello_timeout + int n * hello_timeout"
    by (simp add: algebra_simps)
  moreover have "max now 0 = now" using Suc.prems by simp
  ultimately show ?case
    by (intro exI [of _ "(now + hello_timeout, Served_Dropped (conn_close (conn\<lparr>rx := []\<rparr>))) # dropped"])
      (simp only: replicate_Suc append_Cons silent_client)
qed simp

text \<open>With slipstream, clients that stay silent hold up everyone: the hello is read inside the accept
  loop, so a connection that arrives together with \<open>n\<close> silent ones, its hello already there, is
  handled after \<open>8 n\<close> seconds; without slipstream it is handled at once.\<close>

theorem silent_clients_delay_accept:
  assumes "wrap_slipstream_server sha256 nonce conn = (Ok s, c)"
  shows "last (accept_loop sha256 True 0
      (replicate n (Accepted 0 None silent sn) @ [Accepted 0 (Some 0) conn nonce])) =
        (int n * 8 * second, Served_Slip s) \<and>
    last (accept_loop sha256 False 0
      (replicate n (Accepted 0 None silent sn) @ [Accepted 0 (Some 0) conn nonce])) = (0, Served_Plain conn)"
proof
  have "0 \<le> int n * hello_timeout" by (simp add: hello_timeout_def second_def)
  moreover have "0 < hello_timeout" by (simp add: hello_timeout_def second_def)
  ultimately have "accept_loop sha256 True (int n * hello_timeout) [Accepted 0 (Some 0) conn nonce] =
      [(int n * hello_timeout, Served_Slip s)]"
    using assms by (simp add: in_time_def hello_done_def add_nonneg_pos)
  moreover obtain dropped where "accept_loop sha256 True 0
      (replicate n (Accepted 0 None silent sn) @ [Accepted 0 (Some 0) conn nonce]) =
      dropped @ accept_loop sha256 True (int n * hello_timeout) [Accepted 0 (Some 0) conn nonce]"
    using silent_clients [of 0 sha256 n silent sn "[Accepted 0 (Some 0) conn nonce]"] by auto
  ultimately show "last (accept_loop sha256 True 0
      (replicate n (Accepted 0 None silent sn) @ [Accepted 0 (Some 0) conn nonce])) =
        (int n * 8 * second, Served_Slip s)" by (simp add: hello_timeout_def)
  have "accept_loop sha256 False 0 (replicate n (Accepted 0 None silent sn) @ as) =
      replicate n (0, Served_Plain silent) @ accept_loop sha256 False 0 as" for as
    by (induction n) simp_all
  then show "last (accept_loop sha256 False 0
      (replicate n (Accepted 0 None silent sn) @ [Accepted 0 (Some 0) conn nonce])) = (0, Served_Plain conn)"
    by simp
qed

theorem silent_clients_delay_accept_witness:
  "\<exists>s. last (accept_loop (\<lambda>b. b) True 0
      (replicate 3 (Accepted 0 None (new_conn []) (replicate 16 0)) @
        [Accepted 0 (Some 0) (new_conn (slip_magic @ replicate 16 1)) (replicate 16 2)])) =
    (24 * second, Served_Slip s)"
proof -
  obtain s c where "wrap_slipstream_server (\<lambda>b. b) (replicate 16 2) (new_conn (slip_magic @ replicate 16 1)) = (Ok s, c)"
    by (simp add: wrap_slipstream_server_def new_conn_def read_full_def slip_magic_def bytes_of_def conn_write_def)
  from silent_clients_delay_accept [OF this, of 3 "new_conn []" "replicate 16 0"] show ?thesis
    by (intro exI [of _ s]) simp
qed

end
