(* ===== verification/Config.thy ===== *)
theory Config
  imports Go_IO
begin

text \<open>
  \<open>internal/cfg/config.go\<close>: the configuration structs, their defaults, the line parser \<open>Load\<close>,
  \<open>setValue\<close>, the value conversions and \<open>Mode\<close>. A field of a Go struct is a record field with
  the name of its section in front; Go's \<open>int\<close> (64 bits) is \<open>int\<close>, \<open>atoi\<close> rejects what does not
  fit. The file is the parameter of \<open>load\<close>: \<open>None\<close> stands for a failed \<open>os.Open\<close>.
\<close>

section \<open>The configuration\<close>

record cfg_listener =
  Listener_BindAddr :: string

record cfg_dialer =
  Dialer_RemoteAddr :: string
  Dialer_EdgeIP :: string
  Dialer_DialTimeout :: int
  Dialer_RetryInterval :: int

record cfg_transport =
  Transport_Type :: string
  Transport_ConnectionPool :: int
  Transport_NoDelay :: bool
  Transport_KeepalivePeriod :: int
  Transport_AcceptUDP :: bool
  Transport_ProxyProtocol :: bool
  Transport_HeartbeatInterval :: int
  Transport_HeartbeatTimeout :: int

record cfg_ports =
  Ports_Forwarder :: string
  Ports_Mapping :: "string list"

record cfg_security =
  Security_Token :: string
  Security_EnableEncryption :: bool
  Security_Algorithm :: string
  Security_PSK :: string
  Security_KDFIterations :: int

record cfg_tls =
  TLS_SNI :: string
  TLS_TLSCert :: string
  TLS_TLSKey :: string

record cfg_logging =
  Logging_LogLevel :: string

record cfg_mux =
  Mux_Version :: int
  Mux_Concurrency :: int
  Mux_FrameSize :: int
  Mux_ReceiveBuffer :: int
  Mux_StreamBuffer :: int

record cfg_tun =
  Tun_Encapsulation :: string
  Tun_Name :: string
  Tun_LocalAddr :: string
  Tun_RemoteAddr :: string
  Tun_HealthPort :: int
  Tun_MTU :: int

record cfg_ipx =
  IPX_Mode :: string
  IPX_Profile :: string
  IPX_ListenIP :: string
  IPX_DstIP :: string
  IPX_Interface :: string
  IPX_ICMPType :: int
  IPX_ICMPCode :: int

record cfg_tuning =
  Tuning_AutoTuning :: bool
  Tuning_TuningProfile :: string
  Tuning_Workers :: int
  Tuning_ChannelSize :: int
  Tuning_TCPMSS :: int
  Tuning_SORcvBuf :: int
  Tuning_SOSndBuf :: int
  Tuning_BufferProfile :: string
  Tuning_BatchSize :: int
  Tuning_ReadTimeout :: int

record cfg_accept_udp =
  AcceptUDP_RingSize :: int
  AcceptUDP_FrameSize :: int
  AcceptUDP_PeerIdleTimeout :: int
  AcceptUDP_WriteTimeoutMS :: int

record config =
  Listener :: cfg_listener
  Dialer :: cfg_dialer
  Transport :: cfg_transport
  Ports :: cfg_ports
  Security :: cfg_security
  TLS :: cfg_tls
  Logging :: cfg_logging
  Mux :: cfg_mux
  Tun :: cfg_tun
  IPX :: cfg_ipx
  Tuning :: cfg_tuning
  AcceptUDP :: cfg_accept_udp

definition default_token :: string where
  "default_token = ''your_token''"

text \<open>The zero value of \<open>Config\<close> with the defaults that \<open>Load\<close> sets first.\<close>

definition default_config :: config where
  "default_config =
    \<lparr>Listener = \<lparr>Listener_BindAddr = ''''\<rparr>,
      Dialer = \<lparr>Dialer_RemoteAddr = '''',
        Dialer_EdgeIP = '''',
        Dialer_DialTimeout = 10,
        Dialer_RetryInterval = 3\<rparr>,
      Transport = \<lparr>Transport_Type = ''tcp'',
        Transport_ConnectionPool = 8,
        Transport_NoDelay = True,
        Transport_KeepalivePeriod = 40,
        Transport_AcceptUDP = False,
        Transport_ProxyProtocol = False,
        Transport_HeartbeatInterval = 10,
        Transport_HeartbeatTimeout = 25\<rparr>,
      Ports = \<lparr>Ports_Forwarder = '''',
        Ports_Mapping = []\<rparr>,
      Security = \<lparr>Security_Token = default_token,
        Security_EnableEncryption = False,
        Security_Algorithm = '''',
        Security_PSK = '''',
        Security_KDFIterations = 0\<rparr>,
      TLS = \<lparr>TLS_SNI = '''',
        TLS_TLSCert = '''',
        TLS_TLSKey = ''''\<rparr>,
      Logging = \<lparr>Logging_LogLevel = ''info''\<rparr>,
      Mux = \<lparr>Mux_Version = 2,
        Mux_Concurrency = 8,
        Mux_FrameSize = 32768,
        Mux_ReceiveBuffer = 4194304,
        Mux_StreamBuffer = 2097152\<rparr>,
      Tun = \<lparr>Tun_Encapsulation = '''',
        Tun_Name = ''backhaul'',
        Tun_LocalAddr = '''',
        Tun_RemoteAddr = '''',
        Tun_HealthPort = 1234,
        Tun_MTU = 1500\<rparr>,
      IPX = \<lparr>IPX_Mode = '''',
        IPX_Profile = '''',
        IPX_ListenIP = '''',
        IPX_DstIP = '''',
        IPX_Interface = '''',
        IPX_ICMPType = 0,
        IPX_ICMPCode = 0\<rparr>,
      Tuning = \<lparr>Tuning_AutoTuning = True,
        Tuning_TuningProfile = ''balanced'',
        Tuning_Workers = 0,
        Tuning_ChannelSize = 0,
        Tuning_TCPMSS = 0,
        Tuning_SORcvBuf = 0,
        Tuning_SOSndBuf = 0,
        Tuning_BufferProfile = ''balanced'',
        Tuning_BatchSize = 0,
        Tuning_ReadTimeout = 0\<rparr>,
      AcceptUDP = \<lparr>AcceptUDP_RingSize = 64,
        AcceptUDP_FrameSize = 2048,
        AcceptUDP_PeerIdleTimeout = 120,
        AcceptUDP_WriteTimeoutMS = 3\<rparr>\<rparr>"

section \<open>Values\<close>

definition unquote :: "string \<Rightarrow> string" where
  "unquote v = trim_cutset [CHR 0x22] (trim_space v)"

definition atob :: "string \<Rightarrow> bool \<Rightarrow> bool" where
  "atob v dflt =
     (let t = to_lower (trim_space v)
      in if t \<in> set [''1'', ''true'', ''yes'', ''on''] then True
         else if t \<in> set [''0'', ''false'', ''no'', ''off''] then False
         else dflt)"

text \<open>The closure \<open>atoi\<close> of \<open>setValue\<close>: keep the old value when the text is no integer.\<close>

definition atoi_or :: "string \<Rightarrow> int \<Rightarrow> int" where
  "atoi_or v dflt = (case atoi v of None \<Rightarrow> dflt | Some n \<Rightarrow> n)"

section \<open>Setting a value\<close>

text \<open>One definition per case of the outer \<open>switch section\<close> of \<open>setValue\<close>.\<close>

definition set_listener :: "string \<Rightarrow> string \<Rightarrow> cfg_listener \<Rightarrow> cfg_listener" where
  "set_listener key val s =
     (if key = ''bind_addr'' then s\<lparr>Listener_BindAddr := val\<rparr>
      else s)"

definition set_dialer :: "string \<Rightarrow> string \<Rightarrow> cfg_dialer \<Rightarrow> cfg_dialer" where
  "set_dialer key val s =
     (if key = ''remote_addr'' then s\<lparr>Dialer_RemoteAddr := val\<rparr>
      else if key = ''edge_ip'' then s\<lparr>Dialer_EdgeIP := val\<rparr>
      else if key = ''dial_timeout'' then s\<lparr>Dialer_DialTimeout := atoi_or val (Dialer_DialTimeout s)\<rparr>
      else if key = ''retry_interval'' then s\<lparr>Dialer_RetryInterval := atoi_or val (Dialer_RetryInterval s)\<rparr>
      else s)"

definition set_transport :: "string \<Rightarrow> string \<Rightarrow> cfg_transport \<Rightarrow> cfg_transport" where
  "set_transport key val s =
     (if key = ''type'' then s\<lparr>Transport_Type := to_lower val\<rparr>
      else if key = ''connection_pool'' then s\<lparr>Transport_ConnectionPool := atoi_or val (Transport_ConnectionPool s)\<rparr>
      else if key = ''nodelay'' then s\<lparr>Transport_NoDelay := atob val (Transport_NoDelay s)\<rparr>
      else if key = ''keepalive_period'' then s\<lparr>Transport_KeepalivePeriod := atoi_or val (Transport_KeepalivePeriod s)\<rparr>
      else if key = ''accept_udp'' then s\<lparr>Transport_AcceptUDP := atob val (Transport_AcceptUDP s)\<rparr>
      else if key = ''proxy_protocol'' then s\<lparr>Transport_ProxyProtocol := atob val (Transport_ProxyProtocol s)\<rparr>
      else if key = ''heartbeat_interval'' then s\<lparr>Transport_HeartbeatInterval := atoi_or val (Transport_HeartbeatInterval s)\<rparr>
      else if key = ''heartbeat_timeout'' then s\<lparr>Transport_HeartbeatTimeout := atoi_or val (Transport_HeartbeatTimeout s)\<rparr>
      else s)"

definition set_ports :: "string \<Rightarrow> string \<Rightarrow> cfg_ports \<Rightarrow> cfg_ports" where
  "set_ports key val s =
     (if key = ''forwarder'' then s\<lparr>Ports_Forwarder := val\<rparr>
      else s)"

definition set_security :: "string \<Rightarrow> string \<Rightarrow> cfg_security \<Rightarrow> cfg_security" where
  "set_security key val s =
     (if key = ''token'' then s\<lparr>Security_Token := val\<rparr>
      else if key = ''enable_encryption'' then s\<lparr>Security_EnableEncryption := atob val (Security_EnableEncryption s)\<rparr>
      else if key = ''algorithm'' then s\<lparr>Security_Algorithm := val\<rparr>
      else if key = ''psk'' then s\<lparr>Security_PSK := val\<rparr>
      else if key = ''kdf_iterations'' then s\<lparr>Security_KDFIterations := atoi_or val (Security_KDFIterations s)\<rparr>
      else s)"

definition set_tls :: "string \<Rightarrow> string \<Rightarrow> cfg_tls \<Rightarrow> cfg_tls" where
  "set_tls key val s =
     (if key = ''sni'' then s\<lparr>TLS_SNI := val\<rparr>
      else if key = ''tls_cert'' then s\<lparr>TLS_TLSCert := val\<rparr>
      else if key = ''tls_key'' then s\<lparr>TLS_TLSKey := val\<rparr>
      else s)"

definition set_logging :: "string \<Rightarrow> string \<Rightarrow> cfg_logging \<Rightarrow> cfg_logging" where
  "set_logging key val s =
     (if key = ''log_level'' then s\<lparr>Logging_LogLevel := to_lower val\<rparr>
      else s)"

definition set_mux :: "string \<Rightarrow> string \<Rightarrow> cfg_mux \<Rightarrow> cfg_mux" where
  "set_mux key val s =
     (if key = ''mux_version'' then s\<lparr>Mux_Version := atoi_or val (Mux_Version s)\<rparr>
      else if key = ''mux_concurrency'' then s\<lparr>Mux_Concurrency := atoi_or val (Mux_Concurrency s)\<rparr>
      else if key = ''mux_framesize'' then s\<lparr>Mux_FrameSize := atoi_or val (Mux_FrameSize s)\<rparr>
      else if key = ''mux_recievebuffer'' \<or> key = ''mux_receivebuffer'' then s\<lparr>Mux_ReceiveBuffer := atoi_or val (Mux_ReceiveBuffer s)\<rparr>
      else if key = ''mux_streambuffer'' then s\<lparr>Mux_StreamBuffer := atoi_or val (Mux_StreamBuffer s)\<rparr>
      else s)"

definition set_tun :: "string \<Rightarrow> string \<Rightarrow> cfg_tun \<Rightarrow> cfg_tun" where
  "set_tun key val s =
     (if key = ''encapsulation'' then s\<lparr>Tun_Encapsulation := to_lower val\<rparr>
      else if key = ''name'' then s\<lparr>Tun_Name := val\<rparr>
      else if key = ''local_addr'' then s\<lparr>Tun_LocalAddr := val\<rparr>
      else if key = ''remote_addr'' then s\<lparr>Tun_RemoteAddr := val\<rparr>
      else if key = ''health_port'' then s\<lparr>Tun_HealthPort := atoi_or val (Tun_HealthPort s)\<rparr>
      else if key = ''mtu'' then s\<lparr>Tun_MTU := atoi_or val (Tun_MTU s)\<rparr>
      else s)"

definition set_ipx :: "string \<Rightarrow> string \<Rightarrow> cfg_ipx \<Rightarrow> cfg_ipx" where
  "set_ipx key val s =
     (if key = ''mode'' then s\<lparr>IPX_Mode := to_lower val\<rparr>
      else if key = ''profile'' then s\<lparr>IPX_Profile := to_lower val\<rparr>
      else if key = ''listen_ip'' then s\<lparr>IPX_ListenIP := val\<rparr>
      else if key = ''dst_ip'' then s\<lparr>IPX_DstIP := val\<rparr>
      else if key = ''interface'' then s\<lparr>IPX_Interface := val\<rparr>
      else if key = ''icmp_type'' then s\<lparr>IPX_ICMPType := atoi_or val (IPX_ICMPType s)\<rparr>
      else if key = ''icmp_code'' then s\<lparr>IPX_ICMPCode := atoi_or val (IPX_ICMPCode s)\<rparr>
      else s)"

definition set_tuning :: "string \<Rightarrow> string \<Rightarrow> cfg_tuning \<Rightarrow> cfg_tuning" where
  "set_tuning key val s =
     (if key = ''auto_tuning'' then s\<lparr>Tuning_AutoTuning := atob val (Tuning_AutoTuning s)\<rparr>
      else if key = ''tuning_profile'' then s\<lparr>Tuning_TuningProfile := to_lower val\<rparr>
      else if key = ''workers'' then s\<lparr>Tuning_Workers := atoi_or val (Tuning_Workers s)\<rparr>
      else if key = ''channel_size'' then s\<lparr>Tuning_ChannelSize := atoi_or val (Tuning_ChannelSize s)\<rparr>
      else if key = ''tcp_mss'' then s\<lparr>Tuning_TCPMSS := atoi_or val (Tuning_TCPMSS s)\<rparr>
      else if key = ''so_rcvbuf'' then s\<lparr>Tuning_SORcvBuf := atoi_or val (Tuning_SORcvBuf s)\<rparr>
      else if key = ''so_sndbuf'' then s\<lparr>Tuning_SOSndBuf := atoi_or val (Tuning_SOSndBuf s)\<rparr>
      else if key = ''buffer_profile'' then s\<lparr>Tuning_BufferProfile := to_lower val\<rparr>
      else if key = ''batch_size'' then s\<lparr>Tuning_BatchSize := atoi_or val (Tuning_BatchSize s)\<rparr>
      else if key = ''read_timeout'' then s\<lparr>Tuning_ReadTimeout := atoi_or val (Tuning_ReadTimeout s)\<rparr>
      else s)"

definition set_accept_udp :: "string \<Rightarrow> string \<Rightarrow> cfg_accept_udp \<Rightarrow> cfg_accept_udp" where
  "set_accept_udp key val s =
     (if key = ''ring_size'' then s\<lparr>AcceptUDP_RingSize := atoi_or val (AcceptUDP_RingSize s)\<rparr>
      else if key = ''frame_size'' then s\<lparr>AcceptUDP_FrameSize := atoi_or val (AcceptUDP_FrameSize s)\<rparr>
      else if key = ''peer_idle_timeout_s'' then s\<lparr>AcceptUDP_PeerIdleTimeout := atoi_or val (AcceptUDP_PeerIdleTimeout s)\<rparr>
      else if key = ''write_timeout_ms'' then s\<lparr>AcceptUDP_WriteTimeoutMS := atoi_or val (AcceptUDP_WriteTimeoutMS s)\<rparr>
      else s)"

definition set_value :: "config \<Rightarrow> string \<Rightarrow> string \<Rightarrow> string \<Rightarrow> config" where
  "set_value c sec key val =
     (if sec = ''listener'' then c\<lparr>Listener := set_listener key val (Listener c)\<rparr>
      else if sec = ''dialer'' then c\<lparr>Dialer := set_dialer key val (Dialer c)\<rparr>
      else if sec = ''transport'' then c\<lparr>Transport := set_transport key val (Transport c)\<rparr>
      else if sec = ''ports'' then c\<lparr>Ports := set_ports key val (Ports c)\<rparr>
      else if sec = ''security'' then c\<lparr>Security := set_security key val (Security c)\<rparr>
      else if sec = ''tls'' then c\<lparr>TLS := set_tls key val (TLS c)\<rparr>
      else if sec = ''logging'' then c\<lparr>Logging := set_logging key val (Logging c)\<rparr>
      else if sec = ''mux'' then c\<lparr>Mux := set_mux key val (Mux c)\<rparr>
      else if sec = ''tun'' then c\<lparr>Tun := set_tun key val (Tun c)\<rparr>
      else if sec = ''ipx'' then c\<lparr>IPX := set_ipx key val (IPX c)\<rparr>
      else if sec = ''tuning'' then c\<lparr>Tuning := set_tuning key val (Tuning c)\<rparr>
      else if sec = ''accept_udp'' then c\<lparr>AcceptUDP := set_accept_udp key val (AcceptUDP c)\<rparr>
      else c)"

section \<open>Reading the file\<close>

datatype load_error = Open_Failed | Line_Too_Long

record load_state =
  cfg :: config
  cur_section :: string
  in_mapping :: bool

definition append_mapping :: "string \<Rightarrow> config \<Rightarrow> config" where
  "append_mapping item c =
     c\<lparr>Ports := (Ports c)\<lparr>Ports_Mapping := Ports_Mapping (Ports c) @ [item]\<rparr>\<rparr>"

definition append_item :: "string \<Rightarrow> config \<Rightarrow> config" where
  "append_item item c = (if item \<noteq> [] then append_mapping item c else c)"

definition item_cutset :: string where
  "item_cutset = [CHR '' '', CHR '','', CHR 0x09, CHR 0x0D, CHR 0x0A, CHR 0x22]"

definition value_cutset :: string where
  "value_cutset = [CHR '' '', CHR 0x09, CHR 0x0D, CHR 0x0A, CHR 0x22]"

text \<open>A line inside a multi-line \<open>mapping\<close> list.\<close>

definition load_mapping_line :: "load_state \<Rightarrow> string \<Rightarrow> load_state" where
  "load_mapping_line st line =
     (let closing = CHR '']'' \<in> set line;
          st = (if closing then st\<lparr>in_mapping := False\<rparr> else st);
          line = (if closing then trim_space (trim_suffix '']'' line) else line)
      in if closing \<and> line = [] then st
         else st\<lparr>cfg := append_item (trim_cutset item_cutset line) (cfg st)\<rparr>)"

text \<open>The value of \<open>mapping = ...\<close> on the line of the key itself.\<close>

definition load_mapping_value :: "load_state \<Rightarrow> string \<Rightarrow> load_state" where
  "load_mapping_value st val =
     (let val = trim_space (trim_prefix ''['' val)
      in if CHR '']'' \<in> set val then
           (let val = trim_space (trim_suffix '']'' val)
            in if val \<noteq> [] then
                 st\<lparr>cfg := fold (\<lambda>p. append_item (trim_cutset value_cutset p)) (split_on CHR '','' val)
                          (cfg st)\<rparr>
               else st)
         else
           (let st = st\<lparr>in_mapping := True\<rparr>
            in if val \<noteq> [] then
                 st\<lparr>cfg := append_item (trim_cutset value_cutset val) (cfg st)\<rparr>
               else st))"

text \<open>The body of the scan loop, on the text of one line: blank lines and comments, the end of the
  line from a number sign on, then mapping lists, section headers and assignments.\<close>

definition strip_comment :: "string \<Rightarrow> string" where
  "strip_comment line =
     (case index_char CHR ''#'' line of
        None \<Rightarrow> line
      | Some i \<Rightarrow> trim_space (take i line))"

definition load_statement :: "load_state \<Rightarrow> string \<Rightarrow> load_state" where
  "load_statement st line =
     (if in_mapping st then load_mapping_line st line
      else if prefix ''['' line \<and> suffix '']'' line then
        st\<lparr>cur_section := trim_space (take (length line - 2) (drop 1 line))\<rparr>
      else
        (case split_n2 CHR ''='' line of
           [k, v] \<Rightarrow>
             (let key = trim_space k; val = trim_space v
              in if cur_section st = ''ports'' \<and> key = ''mapping''
                 then load_mapping_value st val
                 else st\<lparr>cfg := set_value (cfg st) (cur_section st) key (unquote val)\<rparr>)
         | _ \<Rightarrow> st))"

definition load_line :: "load_state \<Rightarrow> string \<Rightarrow> load_state" where
  "load_line st text =
     (let line = trim_space text
      in if line = [] \<or> prefix ''#'' line then st
         else load_statement st (strip_comment line))"

definition load_start :: load_state where
  "load_start = \<lparr>cfg = default_config, cur_section = [], in_mapping = False\<rparr>"

definition load_lines :: "string list \<Rightarrow> load_state \<Rightarrow> load_state" where
  "load_lines ls st = foldl load_line st ls"

definition load :: "string option \<Rightarrow> (load_error, config) result" where
  "load file =
     (case file of
        None \<Rightarrow> Err Open_Failed
      | Some text \<Rightarrow>
          (case scan_lines text of
             (ls, too_long) \<Rightarrow>
               if too_long then Err Line_Too_Long else Ok (cfg (load_lines ls load_start))))"

section \<open>Mode\<close>

definition mode :: "config \<Rightarrow> string option" where
  "mode c =
     (if Listener_BindAddr (Listener c) \<noteq> [] then Some ''server''
      else if Dialer_RemoteAddr (Dialer c) \<noteq> [] then Some ''client''
      else if IPX_Mode (IPX c) = ''server'' \<or> IPX_Mode (IPX c) = ''client'' then Some (IPX_Mode (IPX c))
      else None)"

section \<open>Lines\<close>

definition significant :: "string \<Rightarrow> bool" where
  "significant l \<longleftrightarrow> trim_space l \<noteq> [] \<and> \<not> prefix ''#'' (trim_space l)"

lemma load_line_skip [simp]: "\<not> significant l \<Longrightarrow> load_line st l = st"
  by (simp add: load_line_def significant_def Let_def)

lemma load_lines_Nil [simp]: "load_lines [] st = st"
  by (simp add: load_lines_def)

lemma load_lines_Cons [simp]: "load_lines (l # ls) st = load_lines ls (load_line st l)"
  by (simp add: load_lines_def)

lemma load_lines_append [simp]: "load_lines (as @ bs) st = load_lines bs (load_lines as st)"
  by (simp add: load_lines_def)

abbreviation dquote :: char where "dquote \<equiv> CHR 0x22"

text \<open>A line without comment that is not trimmed.\<close>

lemma strip_comment_none [simp]: "CHR ''#'' \<notin> set l \<Longrightarrow> strip_comment l = l"
  by (simp add: strip_comment_def)

lemma load_line_clean:
  assumes "edge_graphic l" "CHR ''#'' \<notin> set l"
  shows "load_line st l = load_statement st l"
proof -
  have "l \<noteq> []" "\<not> prefix ''#'' l" using assms by (auto simp: edge_graphic_def prefix_def)
  with assms show ?thesis by (simp add: load_line_def)
qed

text \<open>The text after a number sign is never read, wherever it stands.\<close>

lemma load_line_comment:
  assumes "edge_graphic l" "CHR ''#'' \<notin> set l" "edge_graphic (l @ CHR ''#'' # c)"
  shows "load_line st (l @ CHR ''#'' # c) = load_line st l"
proof -
  have "\<not> prefix ''#'' l" "\<not> prefix ''#'' (l @ CHR ''#'' # c)" "l \<noteq> []"
    using assms by (cases l; auto simp: edge_graphic_def)+
  with assms show ?thesis by (simp add: load_line_def strip_comment_def)
qed

lemma load_section:
  assumes "\<not> in_mapping st" "edge_graphic n" "CHR ''#'' \<notin> set n"
  shows "load_line st (CHR ''['' # n @ '']'') = st\<lparr>cur_section := n\<rparr>"
proof -
  have "edge_graphic (CHR ''['' # n @ '']'')" by (simp add: edge_graphic_def graphic_def)
  moreover have "suffix '']'' (CHR ''['' # n @ '']'')"
    by (rule suffixI [of _ "CHR ''['' # n"]) simp
  ultimately show ?thesis using assms by (simp add: load_line_clean load_statement_def)
qed

section \<open>Mapping lists\<close>

text \<open>An entry as it may stand between quotes.\<close>

definition clean_item :: "string \<Rightarrow> bool" where
  "clean_item i \<longleftrightarrow>
     i \<noteq> [] \<and> hd i \<notin> set item_cutset \<and> last i \<notin> set item_cutset \<and>
     CHR ''#'' \<notin> set i \<and> CHR '']'' \<notin> set i"

definition item_line :: "string \<Rightarrow> string" where
  "item_line i = ''    '' @ dquote # i @ [dquote, CHR '','']"

lemma edge_quoted [simp]: "edge_graphic (dquote # i @ [dquote, CHR '',''])"
  by (simp add: edge_graphic_def graphic_def)

lemma trim_item_line: "trim_space (item_line i) = dquote # i @ [dquote, CHR '','']"
  by (simp add: item_line_def)

lemma load_item_line:
  assumes "in_mapping st" "clean_item i"
  shows "load_line st (item_line i) = st\<lparr>cfg := append_mapping i (cfg st)\<rparr>"
proof -
  have q: "CHR ''#'' \<notin> set (dquote # i @ [dquote, CHR '',''])"
    "CHR '']'' \<notin> set (dquote # i @ [dquote, CHR '',''])"
    using assms(2) by (auto simp: clean_item_def)
  have t: "trim_cutset item_cutset ([dquote] @ i @ [dquote, CHR '','']) = i"
    using assms(2) by (intro trim_cutset_between) (auto simp: clean_item_def item_cutset_def)
  have "load_line st (item_line i) = load_line st (dquote # i @ [dquote, CHR '',''])"
    by (simp add: load_line_def trim_item_line)
  also have "\<dots> = load_mapping_line st (dquote # i @ [dquote, CHR '',''])"
    using q(1) assms(1) by (simp only: load_line_clean load_statement_def edge_quoted simp_thms if_True)
  also have "\<dots> = st\<lparr>cfg := append_item i (cfg st)\<rparr>"
    using q(2) t by (simp add: load_mapping_line_def)
  finally show ?thesis using assms(2) by (simp add: append_item_def clean_item_def)
qed

definition append_mappings :: "string list \<Rightarrow> config \<Rightarrow> config" where
  "append_mappings items c =
     c\<lparr>Ports := (Ports c)\<lparr>Ports_Mapping := Ports_Mapping (Ports c) @ items\<rparr>\<rparr>"

lemma append_mappings_simps [simp]:
  "append_mappings [] c = c"
  "append_mappings items (append_mapping i c) = append_mappings (i # items) c"
  "append_mapping i c = append_mappings [i] c"
  by (simp_all add: append_mappings_def append_mapping_def)

lemma load_item_lines:
  assumes "in_mapping st" "list_all clean_item items"
  shows "load_lines (map item_line items) st = st\<lparr>cfg := append_mappings items (cfg st)\<rparr>"
  using assms
proof (induction items arbitrary: st)
  case Nil
  then show ?case by simp
next
  case (Cons i items)
  then show ?case
    by (simp add: load_item_line del: append_mappings_simps(3))
qed

lemma load_mapping_close:
  assumes "in_mapping st"
  shows "load_line st '']'' = st\<lparr>in_mapping := False\<rparr>"
proof -
  have "edge_graphic '']''" by (simp add: edge_graphic_def graphic_def)
  with assms show ?thesis
    by (simp add: load_line_clean load_statement_def load_mapping_line_def trim_suffix_def)
qed

lemma load_assignment:
  assumes "\<not> in_mapping st" "edge_graphic k" "edge_graphic v" "CHR ''#'' \<notin> set k \<union> set v"
    "CHR ''='' \<notin> set k" "hd k \<noteq> CHR ''[''"
  shows "load_line st (k @ '' = '' @ v) =
    (if cur_section st = ''ports'' \<and> k = ''mapping'' then load_mapping_value st v
     else st\<lparr>cfg := set_value (cfg st) (cur_section st) k (unquote v)\<rparr>)"
proof -
  have e: "edge_graphic (k @ '' = '' @ v)" using assms by (auto simp: edge_graphic_def)
  have p: "\<not> prefix ''['' (k @ '' = '' @ v)"
    using assms by (cases k) (auto simp: edge_graphic_def)
  have "split_n2 CHR ''='' ((k @ '' '') @ CHR ''='' # ('' '' @ v)) = [k @ '' '', '' '' @ v]"
    using assms by (intro split_n2_two) simp
  then have kv: "split_n2 CHR ''='' (k @ '' = '' @ v) = [k @ '' '', '' '' @ v]" by simp
  have "CHR ''#'' \<notin> set (k @ '' = '' @ v)" using assms by auto
  with e have "load_line st (k @ '' = '' @ v) = load_statement st (k @ '' = '' @ v)"
    by (rule load_line_clean)
  also have "\<dots> = (let key = trim_space (k @ '' ''); val = trim_space ('' '' @ v)
      in if cur_section st = ''ports'' \<and> key = ''mapping'' then load_mapping_value st val
         else st\<lparr>cfg := set_value (cfg st) (cur_section st) key (unquote val)\<rparr>)"
    using assms(1) p by (simp only: load_statement_def kv list.case simp_thms if_False)
  finally show ?thesis using assms by (simp add: Let_def)
qed

text \<open>An assignment of a quoted value: everything between the quotes is the value, white space included.\<close>

lemma load_quoted:
  assumes "\<not> in_mapping st" "cur_section st \<noteq> ''ports''" "edge_graphic k"
    and "CHR ''#'' \<notin> set k \<union> set v" "CHR ''='' \<notin> set k" "hd k \<noteq> CHR ''[''"
    and "v \<noteq> []" "hd v \<noteq> CHR 0x22" "last v \<noteq> CHR 0x22"
  shows "load_line st (k @ '' = '' @ CHR 0x22 # v @ [CHR 0x22]) =
    st\<lparr>cfg := set_value (cfg st) (cur_section st) k v\<rparr>"
proof -
  have e: "edge_graphic (CHR 0x22 # v @ [CHR 0x22])" by (simp add: edge_graphic_def graphic_def)
  have "trim_cutset [CHR 0x22] ([CHR 0x22] @ v @ [CHR 0x22]) = v"
    using assms by (intro trim_cutset_between) auto
  then have "unquote (CHR 0x22 # v @ [CHR 0x22]) = v" using e by (simp add: unquote_def)
  with load_assignment [OF assms(1,3) e] assms show ?thesis by simp
qed

lemma load_mapping_open:
  assumes "\<not> in_mapping st" "cur_section st = ''ports''"
  shows "load_line st ''mapping = ['' = st\<lparr>in_mapping := True\<rparr>"
proof -
  have "load_line st (''mapping'' @ '' = '' @ ''['') = load_mapping_value st ''[''"
    using assms by (subst load_assignment) (auto simp: edge_graphic_def graphic_def)
  then show ?thesis by (simp add: load_mapping_value_def trim_prefix_def)
qed

text \<open>The lines the manager script writes for the ports of a server.\<close>

definition ports_section :: "string list \<Rightarrow> string list" where
  "ports_section items = [''[ports]'', ''mapping = [''] @ map item_line items @ ['']'']"

lemma load_ports_section:
  assumes "\<not> in_mapping st" "list_all clean_item items"
  shows "load_lines (ports_section items) st =
    st\<lparr>cur_section := ''ports'', cfg := append_mappings items (cfg st)\<rparr>"
proof -
  have "load_line st (CHR ''['' # ''ports'' @ '']'') = st\<lparr>cur_section := ''ports''\<rparr>"
    using assms by (intro load_section) (auto simp: edge_graphic_def graphic_def)
  then show ?thesis
    using assms by (simp add: ports_section_def load_mapping_open load_item_lines load_mapping_close)
qed

lemma scannable_item_line:
  "CHR 0x0A \<notin> set i \<Longrightarrow> length i < 65000 \<Longrightarrow> scannable (item_line i)"
  by (simp add: scannable_def item_line_def max_scan_token_def drop_cr_def)

lemma scannable_ports_section:
  "list_all (\<lambda>i. CHR 0x0A \<notin> set i \<and> length i < 65000) items \<Longrightarrow>
    list_all scannable (ports_section items)"
  by (auto simp: ports_section_def list_all_iff scannable_item_line)
     (auto simp: scannable_def drop_cr_def max_scan_token_def)

lemma load_unlines:
  "list_all scannable ls \<Longrightarrow> load (Some (unlines ls)) = Ok (cfg (load_lines ls load_start))"
  by (simp add: load_def)

section \<open>Letter case of the keys that are compared\<close>

definition lower_fields :: "config \<Rightarrow> string list" where
  "lower_fields c =
     [Transport_Type (Transport c), Logging_LogLevel (Logging c), Tun_Encapsulation (Tun c),
      IPX_Mode (IPX c), IPX_Profile (IPX c), Tuning_TuningProfile (Tuning c),
      Tuning_BufferProfile (Tuning c)]"

definition lower_inv :: "config \<Rightarrow> bool" where
  "lower_inv c \<longleftrightarrow> list_all (\<lambda>s. to_lower s = s) (lower_fields c)"

lemmas set_defs = set_listener_def set_dialer_def set_transport_def set_ports_def set_security_def
  set_tls_def set_logging_def set_mux_def set_tun_def set_ipx_def set_tuning_def set_accept_udp_def

lemma set_section_lower:
  "to_lower (Transport_Type t) = Transport_Type t \<Longrightarrow>
     to_lower (Transport_Type (set_transport k v t)) = Transport_Type (set_transport k v t)"
  "to_lower (Logging_LogLevel l) = Logging_LogLevel l \<Longrightarrow>
     to_lower (Logging_LogLevel (set_logging k v l)) = Logging_LogLevel (set_logging k v l)"
  "to_lower (Tun_Encapsulation u) = Tun_Encapsulation u \<Longrightarrow>
     to_lower (Tun_Encapsulation (set_tun k v u)) = Tun_Encapsulation (set_tun k v u)"
  "to_lower (IPX_Mode i) = IPX_Mode i \<Longrightarrow>
     to_lower (IPX_Mode (set_ipx k v i)) = IPX_Mode (set_ipx k v i)"
  "to_lower (IPX_Profile i) = IPX_Profile i \<Longrightarrow>
     to_lower (IPX_Profile (set_ipx k v i)) = IPX_Profile (set_ipx k v i)"
  "to_lower (Tuning_TuningProfile n) = Tuning_TuningProfile n \<Longrightarrow>
     to_lower (Tuning_TuningProfile (set_tuning k v n)) = Tuning_TuningProfile (set_tuning k v n)"
  "to_lower (Tuning_BufferProfile n) = Tuning_BufferProfile n \<Longrightarrow>
     to_lower (Tuning_BufferProfile (set_tuning k v n)) = Tuning_BufferProfile (set_tuning k v n)"
  by (simp_all add: set_transport_def set_logging_def set_tun_def set_ipx_def set_tuning_def)

lemma set_value_lower: "lower_inv c \<Longrightarrow> lower_inv (set_value c sec k v)"
  by (simp add: lower_inv_def lower_fields_def set_value_def set_section_lower)

lemma append_item_lower: "lower_inv c \<Longrightarrow> lower_inv (append_item i c)"
  by (simp add: lower_inv_def lower_fields_def append_item_def append_mappings_def)

lemma fold_append_item_lower:
  "lower_inv c \<Longrightarrow> lower_inv (fold (\<lambda>p. append_item (f p)) ps c)"
  by (induction ps arbitrary: c) (simp_all add: append_item_lower)

lemma load_mapping_line_lower:
  "lower_inv (cfg st) \<Longrightarrow> lower_inv (cfg (load_mapping_line st l))"
  by (simp add: load_mapping_line_def Let_def append_item_lower)

lemma load_mapping_value_lower:
  "lower_inv (cfg st) \<Longrightarrow> lower_inv (cfg (load_mapping_value st v))"
  by (simp add: load_mapping_value_def Let_def append_item_lower fold_append_item_lower)

lemma load_statement_lower:
  assumes "lower_inv (cfg st)"
  shows "lower_inv (cfg (load_statement st l))"
  using assms
  by (cases rule: split_n2_cases [of "CHR ''=''" l])
     (simp_all add: load_statement_def load_mapping_line_lower load_mapping_value_lower
        set_value_lower Let_def)

lemma load_line_lower: "lower_inv (cfg st) \<Longrightarrow> lower_inv (cfg (load_line st l))"
  by (simp add: load_line_def load_statement_lower Let_def)

lemma load_lines_lower: "lower_inv (cfg st) \<Longrightarrow> lower_inv (cfg (load_lines ls st))"
  by (induction ls arbitrary: st) (simp_all add: load_line_lower)

lemma default_lower: "lower_inv (cfg load_start)"
  by (simp add: lower_inv_def lower_fields_def load_start_def default_config_def to_lower_def
      to_lower_char_def)

section \<open>Properties\<close>

text \<open>\<open>Load\<close> reads back the port list that the manager script writes: whatever the lines before
  it configured, the entries of the section are appended to the mapping list, in order and
  unchanged, and nothing else of the configuration moves.\<close>

theorem load_ports_roundtrip:
  assumes "list_all scannable pre" "\<not> in_mapping (load_lines pre load_start)"
    and "list_all clean_item items"
    and "list_all (\<lambda>i. CHR 0x0A \<notin> set i \<and> length i < 65000) items"
  shows "load (Some (unlines (pre @ ports_section items))) =
    Ok (append_mappings items (cfg (load_lines pre load_start)))"
proof -
  have "list_all scannable (pre @ ports_section items)"
    using assms scannable_ports_section [of items] by simp
  then show ?thesis
    using assms by (simp add: load_unlines load_ports_section)
qed

theorem load_ports_roundtrip_witness:
  "load (Some (unlines (ports_section [''8080=8080'', ''9000-9010'']))) =
    Ok (append_mappings [''8080=8080'', ''9000-9010''] default_config)"
proof -
  have "list_all clean_item [''8080=8080'', ''9000-9010'']"
    by (simp add: clean_item_def item_cutset_def)
  then show ?thesis
    using load_ports_roundtrip [of "[]" "[''8080=8080'', ''9000-9010'']"]
    by (simp add: load_start_def)
qed

text \<open>In a multi-line list whose first entry stands on the line of the key
  (\<open>mapping = ["80",\<close>, legal TOML) the parser keeps the closing quote and the comma as part of
  the first entry.\<close>

theorem load_first_item_keeps_comma:
  assumes "\<not> in_mapping st" "cur_section st = ''ports''" "clean_item i"
  shows "load_line st (''mapping = ['' @ dquote # i @ [dquote, CHR '','']) =
    st\<lparr>in_mapping := True, cfg := append_mapping (i @ [dquote, CHR '','']) (cfg st)\<rparr>"
proof -
  let ?v = "CHR ''['' # dquote # i @ [dquote, CHR '','']"
  have i: "i \<noteq> []" "hd i \<notin> set item_cutset" "CHR ''#'' \<notin> set i" "CHR '']'' \<notin> set i"
    using assms(3) by (auto simp: clean_item_def)
  have "load_line st (''mapping'' @ '' = '' @ ?v) = load_mapping_value st ?v"
    using assms(1,2) i by (subst load_assignment) (auto simp: edge_graphic_def graphic_def)
  moreover have "trim_cutset value_cutset ([dquote] @ (i @ [dquote, CHR '','']) @ []) =
      i @ [dquote, CHR '','']"
    using i by (intro trim_cutset_between) (auto simp: value_cutset_def item_cutset_def)
  ultimately show ?thesis
    using i by (simp add: load_mapping_value_def trim_prefix_def append_item_def)
qed

theorem load_first_item_keeps_comma_witness:
  "load_line (load_start\<lparr>cur_section := ''ports''\<rparr>) (''mapping = ['' @ dquote # ''80'' @ [dquote, CHR '',''])
   = load_start\<lparr>cur_section := ''ports'', in_mapping := True,
       cfg := append_mapping (''80'' @ [dquote, CHR '','']) default_config\<rparr>"
  by (subst load_first_item_keeps_comma)
     (auto simp: load_start_def clean_item_def item_cutset_def)

text \<open>A number sign ends the line even inside quotes: the token \<open>a#b\<close> is stored as \<open>a\<close>, and a
  token that starts with a number sign is stored as the empty token.\<close>

theorem load_token_cut_at_hash:
  assumes "\<not> in_mapping st" "cur_section st = ''security''"
    and "a = [] \<or> edge_graphic a \<and> hd a \<noteq> dquote \<and> last a \<noteq> dquote" "CHR ''#'' \<notin> set a"
  shows "load_line st (''token = '' @ dquote # a @ CHR ''#'' # b @ [dquote]) =
    st\<lparr>cfg := (cfg st)\<lparr>Security := (Security (cfg st))\<lparr>Security_Token := a\<rparr>\<rparr>\<rparr>"
proof -
  let ?l = "''token = '' @ dquote # a"
  have e: "edge_graphic (dquote # a)" "edge_graphic ?l"
    using assms(3) by (auto simp: edge_graphic_def graphic_def)
  have "edge_graphic (?l @ CHR ''#'' # (b @ [dquote]))" by (simp add: edge_graphic_def graphic_def)
  then have "load_line st (?l @ CHR ''#'' # (b @ [dquote])) = load_line st ?l"
    using e assms(4) by (intro load_line_comment) auto
  moreover have "load_line st (''token'' @ '' = '' @ dquote # a) =
      st\<lparr>cfg := set_value (cfg st) ''security'' ''token'' (unquote (dquote # a))\<rparr>"
    using e assms by (subst load_assignment) (auto simp: edge_graphic_def graphic_def)
  moreover have "unquote (dquote # a) = a"
  proof (cases "a = []")
    case True
    then show ?thesis using e by (simp add: unquote_def trim_cutset_eq)
  next
    case False
    with assms(3) have "trim_cutset [dquote] ([dquote] @ a @ []) = a"
      by (intro trim_cutset_between) auto
    with e show ?thesis by (simp add: unquote_def)
  qed
  ultimately show ?thesis by (simp add: set_value_def set_security_def)
qed

theorem load_token_cut_at_hash_witness:
  "Security_Token (Security (cfg (load_line (load_start\<lparr>cur_section := ''security''\<rparr>)
     (''token = '' @ dquote # [] @ CHR ''#'' # ''s3cret'' @ [dquote])))) = []"
  by (subst load_token_cut_at_hash) (auto simp: load_start_def)

text \<open>Blank lines and comment lines mean nothing, wherever they stand (also inside a mapping
  list): dropping them from a file does not change what it configures.\<close>

theorem load_ignores_blank_and_comment_lines:
  "load_lines (filter significant ls) st = load_lines ls st"
  by (induction ls arbitrary: st) auto

text \<open>Every configuration that \<open>Load\<close> returns has its transport type, log level, tunnel
  encapsulation, IPX mode and profiles in lower case, which is what the comparisons with literal
  names elsewhere rely on.\<close>

theorem load_lower_case:
  assumes "load file = Ok c"
  shows "lower_inv c"
proof -
  obtain ls where "c = cfg (load_lines ls load_start)"
    using assms by (auto simp: load_def split: option.splits prod.splits if_splits)
  then show ?thesis by (simp add: load_lines_lower default_lower)
qed

theorem load_lower_case_witness: "lower_inv default_config"
proof -
  have "load (Some []) = Ok default_config"
    by (simp add: load_def scan_lines_def load_start_def)
  then show ?thesis by (rule load_lower_case)
qed

text \<open>The keys of a section that take an integer.\<close>

definition integer_keys :: "string \<Rightarrow> string list" where
  "integer_keys sec =
     (if sec = ''dialer'' then [''dial_timeout'', ''retry_interval'']
      else if sec = ''transport'' then
        [''connection_pool'', ''keepalive_period'', ''heartbeat_interval'', ''heartbeat_timeout'']
      else if sec = ''security'' then [''kdf_iterations'']
      else if sec = ''mux'' then
        [''mux_version'', ''mux_concurrency'', ''mux_framesize'', ''mux_recievebuffer'',
         ''mux_receivebuffer'', ''mux_streambuffer'']
      else if sec = ''tun'' then [''health_port'', ''mtu'']
      else if sec = ''ipx'' then [''icmp_type'', ''icmp_code'']
      else if sec = ''tuning'' then
        [''workers'', ''channel_size'', ''tcp_mss'', ''so_rcvbuf'', ''so_sndbuf'', ''batch_size'',
         ''read_timeout'']
      else if sec = ''accept_udp'' then
        [''ring_size'', ''frame_size'', ''peer_idle_timeout_s'', ''write_timeout_ms'']
      else [])"

lemma set_value_section [simp]:
  "set_value c ''dialer'' key val = c\<lparr>Dialer := set_dialer key val (Dialer c)\<rparr>"
  "set_value c ''transport'' key val = c\<lparr>Transport := set_transport key val (Transport c)\<rparr>"
  "set_value c ''security'' key val = c\<lparr>Security := set_security key val (Security c)\<rparr>"
  "set_value c ''mux'' key val = c\<lparr>Mux := set_mux key val (Mux c)\<rparr>"
  "set_value c ''tun'' key val = c\<lparr>Tun := set_tun key val (Tun c)\<rparr>"
  "set_value c ''ipx'' key val = c\<lparr>IPX := set_ipx key val (IPX c)\<rparr>"
  "set_value c ''tuning'' key val = c\<lparr>Tuning := set_tuning key val (Tuning c)\<rparr>"
  "set_value c ''accept_udp'' key val = c\<lparr>AcceptUDP := set_accept_udp key val (AcceptUDP c)\<rparr>"
  by (simp_all add: set_value_def)

lemma set_integer_unchanged:
  assumes "atoi val = None"
  shows "key \<in> set (integer_keys ''dialer'') \<Longrightarrow> set_dialer key val s1 = s1"
    and "key \<in> set (integer_keys ''transport'') \<Longrightarrow> set_transport key val s2 = s2"
    and "key \<in> set (integer_keys ''security'') \<Longrightarrow> set_security key val s3 = s3"
    and "key \<in> set (integer_keys ''mux'') \<Longrightarrow> set_mux key val s4 = s4"
    and "key \<in> set (integer_keys ''tun'') \<Longrightarrow> set_tun key val s5 = s5"
    and "key \<in> set (integer_keys ''ipx'') \<Longrightarrow> set_ipx key val s6 = s6"
    and "key \<in> set (integer_keys ''tuning'') \<Longrightarrow> set_tuning key val s7 = s7"
    and "key \<in> set (integer_keys ''accept_udp'') \<Longrightarrow> set_accept_udp key val s8 = s8"
  using assms
  by - (simp add: integer_keys_def atoi_or_def; (elim disjE)?; simp add: set_defs)+

lemma integer_key_section:
  "key \<in> set (integer_keys sec) \<Longrightarrow>
     sec \<in> {''dialer'', ''transport'', ''security'', ''mux'', ''tun'', ''ipx'', ''tuning'', ''accept_udp''}"
  by (simp add: integer_keys_def split: if_splits)

text \<open>A number that does not parse (or does not fit 64 bits) is ignored: for every integer key of
  the file format the configuration keeps the value it had.\<close>

theorem malformed_integer_ignored:
  assumes "key \<in> set (integer_keys sec)" "atoi val = None"
  shows "set_value c sec key val = c"
  using integer_key_section [OF assms(1)] assms by (auto simp: set_integer_unchanged)

theorem malformed_integer_ignored_witness:
  "set_value default_config ''transport'' ''heartbeat_timeout'' ''25s'' = default_config"
proof -
  have "atoi ''25s'' = None" by (simp add: atoi_def parse_digits_def is_digit_def)
  then show ?thesis
    by (intro malformed_integer_ignored) (simp_all add: integer_keys_def)
qed

end
