(* ===== verification/App.thy ===== *)
theory App
  imports Config Control
begin

text \<open>
  \<open>internal/app/app.go\<close> and \<open>cmd/backhaul/main.go\<close>: from the configuration file to the options of the
  tunnel's server or client. Signals, the logger and the run of the tunnel itself are outside the
  model: \<open>run_app\<close> yields the run that is started.
\<close>

section \<open>What the configuration stands for\<close>

definition normalize_transport_for_runtime :: "config \<Rightarrow> string" where
  "normalize_transport_for_runtime c =
     (let t = to_lower (trim_space (Transport_Type (Transport c)));
          t = (if t = [] then ''tcp'' else t)
      in if t = ''tun'' then
           (let enc = to_lower (trim_space (Tun_Encapsulation (Tun c))) in
            if enc = ''slipstream'' \<or> enc = ''slip'' \<or> enc = ''sstream'' then ''slipstreammux''
            else if enc = ''ipx'' \<or> IPX_Mode (IPX c) \<noteq> [] then ''xtcpmux''
            else ''tcpmux'')
         else t)"

definition health_port :: "config \<Rightarrow> int" where
  "health_port c = (if Tun_HealthPort (Tun c) \<le> 0 then 8443 else Tun_HealthPort (Tun c))"

definition resolve_server_bind_addr :: "config \<Rightarrow> string" where
  "resolve_server_bind_addr c =
     (if trim_space (Listener_BindAddr (Listener c)) \<noteq> [] then Listener_BindAddr (Listener c)
      else (let host = trim_space (IPX_ListenIP (IPX c));
                host = (if host = [] then ''0.0.0.0'' else host)
            in host @ '':'' @ itoa (health_port c)))"

definition resolve_client_remote_addr :: "config \<Rightarrow> string" where
  "resolve_client_remote_addr c =
     (if trim_space (Dialer_RemoteAddr (Dialer c)) \<noteq> [] then Dialer_RemoteAddr (Dialer c)
      else (let host = trim_space (IPX_DstIP (IPX c));
                host = (if host = [] then
                          (let h = trim_space (Tun_RemoteAddr (Tun c))
                           in if CHR ''/'' \<in> set h then hd (split_n2 CHR ''/'' h) else h)
                        else host);
                host = (if host = [] then ''127.0.0.1'' else host)
            in host @ '':'' @ itoa (health_port c)))"

text \<open>The mapping list; a tunnel without one serves its health port.\<close>

definition app_mappings :: "config \<Rightarrow> string list" where
  "app_mappings c =
     (let maps = Ports_Mapping (Ports c) in
      if maps = [] \<and> (equal_fold (Transport_Type (Transport c)) ''tun'' \<or> IPX_Mode (IPX c) \<noteq> []) \<and>
         Tun_HealthPort (Tun c) > 0
      then [itoa (Tun_HealthPort (Tun c))] else maps)"

text \<open>\<open>time.Duration(n) * time.Second\<close>: a product of 64-bit integers, which wraps.\<close>

definition seconds :: "int \<Rightarrow> int" where
  "seconds n = sint (word_of_int n * 1000000000 :: 64 word)"

definition app_server_opts :: "config \<Rightarrow> port_mapping list \<Rightarrow> server_opts" where
  "app_server_opts c mappings =
     \<lparr>sv_BindAddr = resolve_server_bind_addr c,
      sv_Transport = normalize_transport_for_runtime c,
      sv_Token = Security_Token (Security c),
      sv_Mappings = mappings,
      sv_AcceptUDP = Transport_AcceptUDP (Transport c),
      sv_NoDelay = Transport_NoDelay (Transport c),
      sv_Keepalive = seconds (Transport_KeepalivePeriod (Transport c)),
      sv_HeartbeatInterval = seconds (Transport_HeartbeatInterval (Transport c)),
      sv_HeartbeatTimeout = seconds (Transport_HeartbeatTimeout (Transport c)),
      sv_TLSCert = TLS_TLSCert (TLS c),
      sv_TLSKey = TLS_TLSKey (TLS c)\<rparr>"

definition app_client_opts :: "config \<Rightarrow> client_opts" where
  "app_client_opts c =
     \<lparr>cl_RemoteAddr = resolve_client_remote_addr c,
      cl_Transport = normalize_transport_for_runtime c,
      cl_Token = Security_Token (Security c),
      cl_DialTimeout = seconds (Dialer_DialTimeout (Dialer c)),
      cl_RetryInterval = seconds (Dialer_RetryInterval (Dialer c)),
      cl_PoolSize = Transport_ConnectionPool (Transport c),
      cl_NoDelay = Transport_NoDelay (Transport c),
      cl_Keepalive = seconds (Transport_KeepalivePeriod (Transport c)),
      cl_HeartbeatInterval = seconds (Transport_HeartbeatInterval (Transport c)),
      cl_HeartbeatTimeout = seconds (Transport_HeartbeatTimeout (Transport c)),
      cl_TLSServerName = TLS_SNI (TLS c)\<rparr>"

section \<open>Run\<close>

datatype app_run =
    App_Config_Error load_error
  | App_Mode_Error
  | App_Mapping_Error map_error
  | App_Server server_run
  | App_Client client_run

definition run_app :: "string option \<Rightarrow> app_run" where
  "run_app file =
     (case load file of
        Inl err \<Rightarrow> App_Config_Error err
      | Inr c \<Rightarrow>
          (case mode c of
             None \<Rightarrow> App_Mode_Error
           | Some m \<Rightarrow>
               if m = ''server'' then
                 (case parse_mappings (app_mappings c) of
                    Inl err \<Rightarrow> App_Mapping_Error err
                  | Inr mappings \<Rightarrow> App_Server (run_server (app_server_opts c mappings)))
               else App_Client (run_client (app_client_opts c))))"

text \<open>\<open>main\<close>: the flags \<open>-v\<close> and \<open>-c\<close>; \<open>run\<close> is the outcome of \<open>app.Run\<close>, an error or none.\<close>

datatype main_outcome = Main_Version | Main_Usage nat | Main_Error nat | Main_Done nat

definition main_program :: "bool \<Rightarrow> string \<Rightarrow> (string \<Rightarrow> string option) \<Rightarrow> main_outcome" where
  "main_program show_version config_path run =
     (if show_version then Main_Version
      else if config_path = [] then Main_Usage 2
      else (case run config_path of Some err \<Rightarrow> Main_Error 1 | None \<Rightarrow> Main_Done 0))"

section \<open>Transports and addresses\<close>

text \<open>What \<open>Run\<close> hands to the tunnel as transport is accepted whenever it is the name of a tunnel or the
  configured type itself, is never the empty name, and normalising it again changes nothing; the
  recovered TCP protocol runs exactly when the type is empty or \<open>tcp\<close>.\<close>

theorem normalized_transport:
  assumes "to_lower (trim_space (Transport_Type (Transport c))) \<in> insert '''' (set accepted_names)"
  shows "(\<exists>kind. parse_transport (normalize_transport_for_runtime c) = Ok kind) \<and>
    normalize_transport_for_runtime c \<noteq> [] \<and>
    normalize_transport_for_runtime
      (c\<lparr>Transport := (Transport c)\<lparr>Transport_Type := normalize_transport_for_runtime c\<rparr>\<rparr>) =
      normalize_transport_for_runtime c \<and>
    (uses_original_tcp_protocol (normalize_transport_for_runtime c) \<longleftrightarrow>
      to_lower (trim_space (Transport_Type (Transport c))) \<in> {'''', ''tcp''})"
proof -
  define n where "n = normalize_transport_for_runtime c"
  have names: "list_all (\<lambda>s. edge_graphic s \<and> to_lower s = s) accepted_names"
    unfolding accepted_names_def by (simp add: edge_graphic_def graphic_def to_lower_def to_lower_char_def)
  have n: "n \<in> set accepted_names \<and> n \<noteq> ''tun''"
    using assms unfolding n_def normalize_transport_for_runtime_def
    by (auto simp: Let_def accepted_names_def)
  with names have fp: "trim_space n = n" "to_lower n = n" by (auto simp: list_all_iff)
  have "n \<noteq> []" using n unfolding accepted_names_def by auto
  have orig: "uses_original_tcp_protocol n \<longleftrightarrow> n = ''tcp''"
    using fp by (simp add: uses_original_tcp_protocol_def equal_fold_def to_lower_def to_lower_char_def)
  have "n = ''tcp'' \<longleftrightarrow> to_lower (trim_space (Transport_Type (Transport c))) \<in> {'''', ''tcp''}"
    unfolding n_def normalize_transport_for_runtime_def by (auto simp: Let_def)
  moreover have "\<exists>kind. parse_transport n = Ok kind"
    by (simp only: parse_transport_Inr_iff case_names fp) (use n in simp)
  moreover have "normalize_transport_for_runtime
      (c\<lparr>Transport := (Transport c)\<lparr>Transport_Type := n\<rparr>\<rparr>) = n"
    using fp n \<open>n \<noteq> []\<close> by (simp add: normalize_transport_for_runtime_def Let_def)
  ultimately show ?thesis using orig \<open>n \<noteq> []\<close> unfolding n_def [symmetric] by simp
qed

theorem normalized_transport_witness:
  "(\<exists>kind. parse_transport (normalize_transport_for_runtime default_config) = Ok kind) \<and>
   uses_original_tcp_protocol (normalize_transport_for_runtime default_config)"
proof -
  have "trim_space ''tcp'' = ''tcp''" by (simp add: edge_graphic_def graphic_def)
  then have t: "to_lower (trim_space (Transport_Type (Transport default_config))) = ''tcp''"
    by (simp add: default_config_def to_lower_def to_lower_char_def)
  then have "to_lower (trim_space (Transport_Type (Transport default_config))) \<in> insert '''' (set accepted_names)"
    by (simp add: accepted_names_def)
  from normalized_transport [OF this] t show ?thesis by simp
qed

text \<open>A tunnel server that is configured by its IPX mode alone cannot serve: with no bind address and no
  mapping, the control listener and the only public listener get the same address, the health port.\<close>

theorem health_port_conflict:
  assumes "Listener_BindAddr (Listener c) = []" "Dialer_RemoteAddr (Dialer c) = []"
    and "IPX_Mode (IPX c) = ''server''" "trim_space (IPX_ListenIP (IPX c)) = []"
    and "Ports_Mapping (Ports c) = []" "0 < Tun_HealthPort (Tun c)" "Tun_HealthPort (Tun c) \<le> 65535"
  shows "mode c = Some ''server'' \<and>
    (\<exists>m. parse_mappings (app_mappings c) = Ok [m] \<and> ListenAddr m = resolve_server_bind_addr c)"
proof
  show "mode c = Some ''server''" using assms by (simp add: mode_def)
  define n where "n = nat (Tun_HealthPort (Tun c))"
  have n: "1 \<le> n" "n \<le> 65535" "itoa (Tun_HealthPort (Tun c)) = dec_nat n"
    using assms by (auto simp: n_def itoa_nonneg)
  have "parse_item (dec_nat n) = Ok [\<lparr>ListenAddr = listen_any (int n), TargetAddr = loopback (int n)\<rparr>]"
    using n by (simp add: parse_item_def)
  then have "parse_mappings (app_mappings c) =
      Ok [\<lparr>ListenAddr = listen_any (int n), TargetAddr = loopback (int n)\<rparr>]"
    using assms n by (simp add: app_mappings_def parse_mappings_def Let_def)
  moreover have "resolve_server_bind_addr c = listen_any (int n)"
    using assms n(3) by (simp add: resolve_server_bind_addr_def health_port_def listen_any_def n_def Let_def)
  ultimately show "\<exists>m. parse_mappings (app_mappings c) = Ok [m] \<and> ListenAddr m = resolve_server_bind_addr c"
    by simp
qed

definition ipx_server :: config where
  "ipx_server = default_config\<lparr>IPX := (IPX default_config)\<lparr>IPX_Mode := ''server''\<rparr>,
     Tun := (Tun default_config)\<lparr>Tun_HealthPort := 8443\<rparr>\<rparr>"

theorem health_port_conflict_witness:
  "\<exists>m. parse_mappings (app_mappings ipx_server) = Ok [m] \<and>
     ListenAddr m = resolve_server_bind_addr ipx_server"
  using health_port_conflict [of ipx_server] by (simp add: ipx_server_def default_config_def)

text \<open>Without explicit addresses, a client whose destination is the server's listen address dials the
  address the server binds; the address can be split exactly if the host has no colon: an IPv6
  host is joined to its port without brackets.\<close>

theorem default_addresses_meet:
  assumes "trim_space (Listener_BindAddr (Listener cs)) = []" "trim_space (Dialer_RemoteAddr (Dialer cc)) = []"
    and "trim_space (IPX_ListenIP (IPX cs)) = host" "trim_space (IPX_DstIP (IPX cc)) = host" "host \<noteq> []"
    and "health_port cs = health_port cc" "plain_host host"
  shows "resolve_server_bind_addr cs = resolve_client_remote_addr cc \<and>
    (split_host_port (resolve_client_remote_addr cc) =
      (if CHR '':'' \<in> set host then None else Some (host, itoa (health_port cc))))"
proof
  have addr: "resolve_client_remote_addr cc = host @ '':'' @ itoa (health_port cc)"
    using assms by (simp add: resolve_client_remote_addr_def Let_def)
  with assms show "resolve_server_bind_addr cs = resolve_client_remote_addr cc"
    by (simp add: resolve_server_bind_addr_def Let_def)
  have port: "itoa (health_port cc) = dec_nat (nat (health_port cc))"
    by (rule itoa_nonneg) (simp add: health_port_def)
  show "split_host_port (resolve_client_remote_addr cc) =
      (if CHR '':'' \<in> set host then None else Some (host, itoa (health_port cc)))"
  proof (cases "CHR '':'' \<in> set host")
    case True
    then have "count_list (host @ '':'' @ itoa (health_port cc)) CHR '':'' > 1"
      using count_list_0_iff [of host "CHR '':''"] by simp
    moreover have "plain_host (host @ '':'' @ itoa (health_port cc))"
      using assms(7) by (simp add: plain_host_def port)
    ultimately show ?thesis using split_host_port_many_colons True by (simp only: addr if_True)
  next
    case False
    then show ?thesis using split_host_port_name [OF False assms(7)] by (simp add: addr port)
  qed
qed

theorem default_addresses_meet_witness:
  "let cs = default_config\<lparr>IPX := (IPX default_config)\<lparr>IPX_ListenIP := ''fe80::1''\<rparr>\<rparr>;
       cc = default_config\<lparr>IPX := (IPX default_config)\<lparr>IPX_DstIP := ''fe80::1''\<rparr>\<rparr>
   in resolve_server_bind_addr cs = resolve_client_remote_addr cc \<and>
     split_host_port (resolve_client_remote_addr cc) = None"
proof -
  define cs where "cs = default_config\<lparr>IPX := (IPX default_config)\<lparr>IPX_ListenIP := ''fe80::1''\<rparr>\<rparr>"
  define cc where "cc = default_config\<lparr>IPX := (IPX default_config)\<lparr>IPX_DstIP := ''fe80::1''\<rparr>\<rparr>"
  have t: "trim_space ''fe80::1'' = ''fe80::1''" by (simp add: edge_graphic_def graphic_def)
  have "resolve_server_bind_addr cs = resolve_client_remote_addr cc \<and>
    (split_host_port (resolve_client_remote_addr cc) =
      (if CHR '':'' \<in> set ''fe80::1'' then None else Some (''fe80::1'', itoa (health_port cc))))"
    by (rule default_addresses_meet)
      (simp_all add: cs_def cc_def default_config_def t health_port_def plain_host_def)
  then show ?thesis unfolding Let_def cs_def [symmetric] cc_def [symmetric] by simp
qed

text \<open>A duration of whole seconds wraps at 64 bits of nanoseconds, some 292 years.\<close>

lemma seconds_exact:
  assumes "- 9223372036 \<le> n" "n \<le> 9223372036"
  shows "seconds n = n * second"
proof -
  have "(word_of_int n * 1000000000 :: 64 word) = word_of_int (n * 1000000000)" by simp
  then have "seconds n = signed_take_bit 63 (n * 1000000000)"
    unfolding seconds_def by (simp only: sint_sbintrunc') simp
  then show ?thesis
    using assms by (simp add: second_def signed_take_bit_int_eq_self)
qed

end
