(* ===== verification/Spec2Isabelle.thy ===== *)
theory Spec2Isabelle
  imports Tunnel Public_Listener Server_Run Client_Loops Orig_Monitor Grpc_Conn Udp_Control Udp_Relay Bridge Http_Dial Mux_Relay Accept App
begin

text \<open>
  A model of the tunnel program under \<open>src/\<close>: a server with public ports forwards each connection to a
  client behind a firewall, which dials the target of the port. The client keeps connections open to
  the server's control port, over one of several transports; each of them is either a \<^emph>\<open>worker\<close>, used
  for one public connection, or a session that carries many streams (the \<open>mux\<close> transports).

  \<^bold>\<open>The program and its theories.\<close> Unless said otherwise the code is \<open>internal/tunnel/runner.go\<close>; the
  definitions have the names of the Go functions, with underscores.

  \<^item> Text, bytes and the Go library: \<open>Prelude\<close> (bytes, results, big-endian numbers, the collections
    \<open>byte_simps\<close> and \<open>frame_simps\<close>), \<open>Go_Strings\<close> (what is used of \<open>strings\<close>, \<open>strconv\<close>), \<open>Go_Net\<close>
    (\<open>SplitHostPort\<close>, \<open>JoinHostPort\<close>), \<open>Go_IO\<close> (readers, connections with a limited budget of writes,
    the writer interface \<open>io_writer\<close>), \<open>Go_Chan\<close> (buffered channels, the interface \<open>byte_stream\<close>).
  \<^item> From the files to the run: \<open>Port_Mapping\<close> (\<open>mapping.go\<close>), \<open>Config\<close> (\<open>internal/cfg/config.go\<close>),
    \<open>Transport\<close> (transport names, endpoints, addresses), \<open>App\<close> (\<open>internal/app/app.go\<close>,
    \<open>cmd/backhaul/main.go\<close>), \<open>Control_Listener\<close> and \<open>Server_Run\<close> (how the listeners are started and
    which errors end the server).
  \<^item> The connections that carry a byte stream: \<open>Framing\<close> (an interface of framed streams), \<open>Slipstream\<close>,
    \<open>Ws_Frame\<close>, \<open>Grpc_Conn\<close>, \<open>Udp_Control\<close>, and \<open>Http_Dial\<close> (upgrade and CONNECT in front of them).
  \<^item> The control channel: \<open>Control\<close> (preamble, authentication, worker pool, target line, dispatch),
    \<open>Accept\<close> (the accept loop), \<open>Client_Loops\<close> (how clients retry).
  \<^item> Sessions: \<open>Mux\<close> (streams over one connection), \<open>Mux_Holder\<close> (the sessions of a server),
    \<open>Mux_Relay\<close> (\<open>runMuxServer\<close>).
  \<^item> The recovered TCP protocol (\<open>internal/tunnel/original_protocol.go\<close>): \<open>Orig_Wire\<close> (frames),
    \<open>Orig_Server\<close> (handshake, worker queue), \<open>Orig_Monitor\<close> (heartbeats), \<open>Orig_Client\<close>.
  \<^item> Relays: \<open>Public_Listener\<close> (public TCP ports and their shared workers), \<open>Bridge\<close> (the two copies
    between connections), \<open>Tunnel\<close> (both bridges and what is between them), \<open>Udp_Relay\<close> (public UDP
    ports and the client's side of them).
  \<^item> This theory: what two configuration files come to, and what the ports of a file come to.

  \<^bold>\<open>How the code is modelled.\<close> A struct is a record with its fields, an error the left side of a sum, a
  call that may block a result in \<open>option\<close>. Bytes are 8-bit words, stream numbers 32-bit and key offsets
  64-bit words, durations integers in nanoseconds. A connection (\<open>net_conn\<close>) is what it still delivers, what was written to it, how much can
  still be written, and whether it is closed; a read deadline appears where the program's behaviour
  depends on it (\<open>Bridge\<close>, \<open>Control\<close>, \<open>Accept\<close>, \<open>Orig_Monitor\<close>). Goroutines are step relations or
  event functions (\<open>bridge_step\<close>, \<open>tunnel_step\<close>, \<open>mux_step\<close>, \<open>ul_step\<close>, \<open>udp_step\<close>, \<open>public_step\<close>,
  \<open>handle_accepted_step\<close>, \<open>monitor_step\<close>), whose runs are all interleavings; a mutex is a field where
  it matters. Loops recurse on the bytes or events they consume, so no fuel is needed; the one exception,
  \<open>holder_open\<close>, recurses on a list of rounds, and as many rounds as sessions are proved to be enough.

  \<^bold>\<open>What is shown.\<close> Each carrier delivers the bytes that were written, in any cut (\<open>ws_transfer\<close>,
  \<open>slip_transfer\<close>, \<open>grpc_transfer\<close>, \<open>mux_delivery\<close>, \<open>mux_stream_fifo\<close>), and a UDP control listener
  keeps one connection per address. Both ends agree on endpoint, upgrade and handshake, and a
  connection is kept only if it presented the token. A public connection is given the oldest worker,
  exclusively, and is relayed to its mapping's target without loss or reordering
  (\<open>public_workers_exclusive\<close>, \<open>tcp_end_to_end\<close>, \<open>tcp_delivery_complete\<close>, \<open>original_end_to_end\<close>,
  \<open>udp_end_to_end\<close>, \<open>udp_replies_end_to_end\<close>, \<open>mux_target_delivered\<close>). Invariants of the concurrent parts (\<open>mux_never_panics\<close>,
  \<open>handshake_exclusive\<close>, \<open>udp_listener_table\<close>) hold in every run, and where an overlap of calls breaks
  one this is shown as well (\<open>mux_push_close_race\<close>, \<open>udp_listener_close_deadlocks\<close>). Some theorems state
  surprising behaviour as it is: half-closed connections, deadlines that stay in force, a UDP
  listener that keeps later mappings from starting, tokens that disable authentication.

  \<^bold>\<open>Interfaces.\<close> \<open>io_writer\<close> and \<open>io_writer_full\<close> are interpreted on \<open>conn_write\<close> and on a writer with
  short writes, \<open>byte_stream\<close> on mux streams, gRPC and UDP connections, \<open>framing\<close> on slipstream and
  websocket frames, \<open>target_protocol\<close> on the target line and on the frame of the recovered protocol.

  \<^bold>\<open>Not modelled.\<close> TLS, KCP, gRPC (with the JSON codec) and the HTTP servers are libraries: a connection
  they yield is a \<open>net_conn\<close>, and what they are asked for is in \<open>Transport\<close> and \<open>Control_Listener\<close>.
  \<open>url.Parse\<close>, SHA-1, SHA-256, base64 and random numbers are parameters. Socket options, logging,
  signals, local addresses and the shell scripts have no effect on what is stated here.
\<close>

section \<open>Properties that span components\<close>

definition server_role :: "server_run \<Rightarrow> string option" where
  "server_role s = (case s of Mux_Server _ _ \<Rightarrow> Some role_mux | Worker_Server _ _ \<Rightarrow> Some role_worker | _ \<Rightarrow> None)"

definition client_role :: "client_run \<Rightarrow> string option" where
  "client_role c = (case c of Mux_Client _ _ \<Rightarrow> Some role_mux | Worker_Client _ _ \<Rightarrow> Some role_worker | _ \<Rightarrow> None)"





















lemma load_start_simps [simp]: "\<not> in_mapping load_start" "cfg load_start = default_config"
  by (simp_all add: load_start_def)







section \<open>Tokens of the configuration file\<close>


lemma security_section:
  "list_all scannable [''[security]'']" "\<not> in_mapping (load_lines [''[security]''] load_start)"
  "cur_section (load_lines [''[security]''] load_start) = ''security''"
proof -
  show "list_all scannable [''[security]'']"
    by (simp add: scannable_def drop_cr_def max_scan_token_def)
  have "load_line load_start (CHR ''['' # ''security'' @ '']'') = load_start\<lparr>cur_section := ''security''\<rparr>"
    by (rule load_section) (simp_all add: load_start_def edge_graphic_def graphic_def)
  then show "\<not> in_mapping (load_lines [''[security]''] load_start)"
    "cur_section (load_lines [''[security]''] load_start) = ''security''"
    by (simp_all add: load_start_def)
qed


text \<open>A quoted token with white space at an end locks everyone out: \<open>Load\<close> keeps the white space, the
  server trims what it receives, so it closes every connection whatever it sends.\<close>

theorem spaced_token_locks_out:
  assumes "list_all scannable pre" "\<not> in_mapping (load_lines pre load_start)"
    and "cur_section (load_lines pre load_start) = ''security''"
    and "CHR ''#'' \<notin> set t" "CHR 0x0A \<notin> set t" "length t < 65000"
    and "hd t \<noteq> dquote" "last t \<noteq> dquote" "trim_space t \<noteq> t"
  shows "\<exists>c. load (Some (unlines (pre @ [''token'' @ '' = '' @ dquote # t @ [dquote]]))) = Ok c \<and>
    Security_Token (Security c) = t \<and>
    (\<forall>role conn. \<exists>closed_conn. control_handler (Security_Token (Security c)) role conn = Handled_Closed closed_conn)"
proof -
  define st where "st = load_lines pre load_start"
  let ?l = "''token'' @ '' = '' @ dquote # t @ [dquote]"
  let ?c = "(cfg st)\<lparr>Security := (Security (cfg st))\<lparr>Security_Token := t\<rparr>\<rparr>"
  have "t \<noteq> []" using assms(9) by auto
  moreover have "edge_graphic ''token''" by (simp add: edge_graphic_def graphic_def)
  ultimately have "load_line st ?l = st\<lparr>cfg := ?c\<rparr>"
    using assms(2-8) by (subst load_quoted) (auto simp: st_def set_value_def set_security_def)
  moreover have "scannable ?l"
    using assms(5,6) by (simp add: scannable_def drop_cr_def max_scan_token_def)
  ultimately have "load (Some (unlines (pre @ [?l]))) = Ok ?c"
    using load_unlines [of "pre @ [?l]"] assms(1) by (simp add: st_def)
  with edge_space_token_refused [OF assms(9)] show ?thesis by (intro exI [of _ ?c]) auto
qed

theorem spaced_token_locks_out_witness:
  "\<exists>c. load (Some (unlines [''[security]'', ''token'' @ '' = '' @ dquote # ''secret '' @ [dquote]])) = Ok c \<and>
    (\<exists>k. control_handler (Security_Token (Security c)) role_mux
      (new_conn (bytes_of (''secret '' @ nl @ role_mux @ nl))) = Handled_Closed k)"
proof -
  have "trim_space ''secret '' \<noteq> ''secret ''"
    using trim_space_append_blank [of "''secret''"] by (simp add: edge_graphic_def graphic_def)
  then obtain c where
    l: "load (Some (unlines ([''[security]''] @ [''token'' @ '' = '' @ dquote # ''secret '' @ [dquote]]))) = Ok c"
    and k: "\<And>role conn. \<exists>k. control_handler (Security_Token (Security c)) role conn = Handled_Closed k"
    using spaced_token_locks_out [OF security_section, of "''secret ''"] by auto
  then show ?thesis by (intro exI [of _ c]) simp
qed

section \<open>Ports from the file to the listeners\<close>






end
